(* ===== verification/Vm_Prelude.thy ===== *)
theory Vm_Prelude
  imports Main "HOL-Library.Word"
begin

text \<open>
  Shared vocabulary of the development: the machine integer types of the Rust sources,
  the \<open>Result\<close> type with the propagation that the \<open>?\<close> operator performs, the checked
  arithmetic of the standard library, and the little-endian byte views of integers.
  The lemmas are about these notions only; the component theories build on them through
  the simp set and the collections \<open>result_simps\<close> and \<open>le_bytes\<close>.
\<close>

unbundle bit_operations_syntax

section \<open>Types\<close>

type_synonym u8 = "8 word"
type_synonym u16 = "16 word"
type_synonym u32 = "32 word"
type_synonym u64 = "64 word"
type_synonym u128 = "128 word"

type_synonym ('e, 'a) result = "'e + 'a"

named_theorems result_simps \<open>case analysis of propagated results\<close>
named_theorems le_bytes \<open>little-endian byte views\<close>

section \<open>Results and the \<open>?\<close> operator\<close>

definition rbind :: "('e, 'a) result \<Rightarrow> ('a \<Rightarrow> ('e, 'b) result) \<Rightarrow> ('e, 'b) result" where
  "rbind r f = (case r of Inl e \<Rightarrow> Inl e | Inr a \<Rightarrow> f a)"

definition map_err :: "('e \<Rightarrow> 'f) \<Rightarrow> ('e, 'a) result \<Rightarrow> ('f, 'a) result" where
  "map_err g r = (case r of Inl e \<Rightarrow> Inl (g e) | Inr a \<Rightarrow> Inr a)"

definition ok_or :: "'e \<Rightarrow> 'a option \<Rightarrow> ('e, 'a) result" where
  "ok_or e x = (case x of None \<Rightarrow> Inl e | Some a \<Rightarrow> Inr a)"

definition guard_err :: "bool \<Rightarrow> 'e \<Rightarrow> ('e, unit) result" where
  "guard_err b e = (if b then Inr () else Inl e)"

text \<open>A \<open>for\<close> loop whose body may return early with an error.\<close>

fun rfold :: "('a \<Rightarrow> 's \<Rightarrow> ('e, 's) result) \<Rightarrow> 'a list \<Rightarrow> 's \<Rightarrow> ('e, 's) result" where
  "rfold f [] s = Inr s"
| "rfold f (x # xs) s = rbind (f x s) (rfold f xs)"

text \<open>Collecting an iterator of results into a result of a vector.\<close>

fun rcollect :: "('a \<Rightarrow> ('e, 'b) result) \<Rightarrow> 'a list \<Rightarrow> ('e, 'b list) result" where
  "rcollect f [] = Inr []"
| "rcollect f (x # xs) = rbind (f x) (\<lambda>y. rbind (rcollect f xs) (\<lambda>ys. Inr (y # ys)))"

lemma rbind_Inl [simp]: "rbind (Inl e) f = Inl e"
  by (simp add: rbind_def)

lemma rbind_Inr [simp]: "rbind (Inr a) f = f a"
  by (simp add: rbind_def)

lemma rbind_eq_Inr [result_simps]:
  "rbind r f = Inr b \<longleftrightarrow> (\<exists>a. r = Inr a \<and> f a = Inr b)"
  by (cases r) auto

lemma rbind_eq_Inl [result_simps]:
  "rbind r f = Inl e \<longleftrightarrow> r = Inl e \<or> (\<exists>a. r = Inr a \<and> f a = Inl e)"
  by (cases r) auto

lemma rbind_cong [fundef_cong]:
  "r = r' \<Longrightarrow> (\<And>a. r' = Inr a \<Longrightarrow> f a = g a) \<Longrightarrow> rbind r f = rbind r' g"
  by (cases r') auto

lemma rbind_assoc: "rbind (rbind r f) g = rbind r (\<lambda>a. rbind (f a) g)"
  by (cases r) auto

lemma map_err_eq_Inr [result_simps]: "map_err g r = Inr a \<longleftrightarrow> r = Inr a"
  by (cases r) (auto simp: map_err_def)

lemma map_err_eq_Inl [result_simps]: "map_err g r = Inl x \<longleftrightarrow> (\<exists>e. r = Inl e \<and> x = g e)"
  by (cases r) (auto simp: map_err_def)

lemma map_err_simps [simp]: "map_err g (Inr a) = Inr a" "map_err g (Inl e) = Inl (g e)"
  by (simp_all add: map_err_def)

lemma ok_or_eq_Inr [result_simps]: "ok_or e x = Inr a \<longleftrightarrow> x = Some a"
  by (cases x) (auto simp: ok_or_def)

lemma ok_or_eq_Inl [result_simps]: "ok_or e x = Inl e' \<longleftrightarrow> x = None \<and> e' = e"
  by (cases x) (auto simp: ok_or_def)

lemma ok_or_simps [simp]: "ok_or e (Some a) = Inr a" "ok_or e None = Inl e"
  by (simp_all add: ok_or_def)

lemma guard_err_eq_Inr [result_simps]: "guard_err b e = Inr u \<longleftrightarrow> b"
  by (simp add: guard_err_def)

lemma guard_err_eq_Inl [result_simps]: "guard_err b e = Inl e' \<longleftrightarrow> \<not> b \<and> e' = e"
  by (auto simp: guard_err_def)

lemma guard_err_simps [simp]: "guard_err True e = Inr ()" "guard_err False e = Inl e"
  by (simp_all add: guard_err_def)

lemma rcollect_length: "rcollect f xs = Inr ys \<Longrightarrow> length ys = length xs"
  by (induction xs arbitrary: ys) (auto simp: result_simps)

lemma rcollect_nth:
  "rcollect f xs = Inr ys \<Longrightarrow> i < length xs \<Longrightarrow> f (xs ! i) = Inr (ys ! i)"
proof (induction xs arbitrary: ys i)
  case (Cons x xs)
  then show ?case by (cases i) (auto simp: result_simps)
qed simp

lemma rcollect_all: "(\<And>x. x \<in> set xs \<Longrightarrow> f x = Inr (g x)) \<Longrightarrow> rcollect f xs = Inr (map g xs)"
  by (induction xs) simp_all

lemma rcollect_error:
  "rcollect f xs = Inl e \<longleftrightarrow> (\<exists>i<length xs. f (xs ! i) = Inl e \<and> (\<forall>j<i. \<exists>y. f (xs ! j) = Inr y))"
proof (induction xs)
  case (Cons x xs)
  show ?case
  proof (cases "f x")
    case (Inl d)
    then show ?thesis by (auto intro!: exI [of _ 0]) (metis Inl Inl_Inr_False gr0I nth_Cons_0 sum.inject(1))
  next
    case (Inr y)
    have "(\<exists>i<length (x # xs). f ((x # xs) ! i) = Inl e \<and> (\<forall>j<i. \<exists>y. f ((x # xs) ! j) = Inr y)) \<longleftrightarrow>
        (\<exists>i<length xs. f (xs ! i) = Inl e \<and> (\<forall>j<i. \<exists>y. f (xs ! j) = Inr y))"
      unfolding Ex_less_Suc2 length_Cons using Inr by (auto simp: All_less_Suc2)
    then show ?thesis using Inr Cons.IH by (simp add: rbind_eq_Inl)
  qed
qed simp

lemma rfold_error:
  assumes "rfold f xs s = Inl e" "\<And>x s. x \<in> set xs \<Longrightarrow> f x s = Inl e \<Longrightarrow> P"
  shows P
  using assms by (induction xs arbitrary: s) (auto simp: rbind_eq_Inl)

lemma rfold_append: "rfold f (xs @ ys) s = rbind (rfold f xs s) (rfold f ys)"
proof (induction xs arbitrary: s)
  case (Cons x xs)
  then have "rfold f (xs @ ys) = (\<lambda>t. rbind (rfold f xs t) (rfold f ys))" by (intro ext)
  then show ?case by (simp add: rbind_assoc)
qed simp

lemma rfold_cong: "(\<And>x. x \<in> set xs \<Longrightarrow> f x = g x) \<Longrightarrow> rfold f xs s = rfold g xs s"
  by (induction xs arbitrary: s) (auto intro: rbind_cong)

text \<open>An invariant of the body is an invariant of the loop.\<close>

lemma rfold_invariant:
  assumes "rfold f xs s = Inr t" and "P s"
    and "\<And>x s s'. x \<in> set xs \<Longrightarrow> P s \<Longrightarrow> f x s = Inr s' \<Longrightarrow> P s'"
  shows "P t"
  using assms by (induction xs arbitrary: s) (auto simp: result_simps)

lemma list_eq_2: "length xs = 2 \<Longrightarrow> \<exists>x y. xs = [x, y]"
  by (auto simp: numeral_eq_Suc length_Suc_conv)

section \<open>Checked arithmetic\<close>

definition checked_add :: "'a::len word \<Rightarrow> 'a word \<Rightarrow> 'a word option" where
  "checked_add a b = (if unat a + unat b < 2 ^ LENGTH('a) then Some (a + b) else None)"

definition checked_mul :: "'a::len word \<Rightarrow> 'a word \<Rightarrow> 'a word option" where
  "checked_mul a b = (if unat a * unat b < 2 ^ LENGTH('a) then Some (a * b) else None)"

lemma checked_add_Some [result_simps]:
  "checked_add a b = Some c \<longleftrightarrow> unat a + unat b < 2 ^ LENGTH('a) \<and> c = a + b"
  for a b :: "'a::len word"
  by (auto simp: checked_add_def)

lemma checked_add_None [result_simps]:
  "checked_add a b = None \<longleftrightarrow> 2 ^ LENGTH('a) \<le> unat a + unat b" for a b :: "'a::len word"
  by (auto simp: checked_add_def)

lemma unat_lt2p: "unat w < 2 ^ LENGTH('a)" for w :: "'a::len word"
  by (rule unsigned_less)

lemma unat_of_nat_less: "n < 2 ^ LENGTH('a) \<Longrightarrow> unat (of_nat n :: 'a::len word) = n"
  by (simp add: unat_of_nat)

lemma of_nat_unat_id [simp]: "of_nat (unat w) = w" for w :: "'a::len word"
  by (simp add: ucast_id)

lemma unat_eq_of_nat: "n < 2 ^ LENGTH('a) \<Longrightarrow> unat w = n \<longleftrightarrow> w = of_nat n"
  for w :: "'a::len word"
  by (auto simp: unat_of_nat_less)

lemma unat_2p: "n < LENGTH('a) \<Longrightarrow> unat (2 ^ n :: 'a::len word) = 2 ^ n"
  using unat_of_nat_less [of "2 ^ n", where 'a = 'a] by simp

lemma unat_add_no_overflow:
  "unat a + unat b < 2 ^ LENGTH('a) \<Longrightarrow> unat (a + b) = unat a + unat b"
  for a b :: "'a::len word"
  by (simp add: unat_word_ariths)

section \<open>Casts between widths\<close>

lemma uint_ucast_up:
  assumes "LENGTH('a) \<le> LENGTH('b)"
  shows "uint (ucast (a :: 'a::len word) :: 'b::len word) = uint a"
proof -
  have "uint a < 2 ^ LENGTH('a)" by (rule uint_lt2p)
  also have "\<dots> \<le> 2 ^ LENGTH('b)" using assms by simp
  finally show ?thesis by (simp add: unsigned_ucast_eq take_bit_int_eq_self)
qed

lemma sint_bounds: "- (2 ^ (LENGTH('a) - 1)) \<le> sint a" "sint a < 2 ^ (LENGTH('a) - 1)"
  for a :: "'a::len word"
  by (simp_all add: sint_greater_eq sint_less)

lemma sint_scast_up:
  assumes "LENGTH('a) \<le> LENGTH('b)"
  shows "sint (scast (a :: 'a::len word) :: 'b::len word) = sint a"
proof -
  have "(2 :: int) ^ (LENGTH('a) - 1) \<le> 2 ^ (LENGTH('b) - 1)" using assms by simp
  then have "- (2 ^ (LENGTH('b) - 1)) \<le> sint a" "sint a < 2 ^ (LENGTH('b) - 1)"
    using sint_bounds [of a] by linarith+
  then show ?thesis by (simp add: signed_scast_eq signed_take_bit_int_eq_self)
qed

lemma sint_ucast_up:
  assumes "LENGTH('a) < LENGTH('b)"
  shows "sint (ucast (a :: 'a::len word) :: 'b::len word) = uint a"
proof -
  have "uint a < 2 ^ LENGTH('a)" by (rule uint_lt2p)
  also have "\<dots> \<le> 2 ^ (LENGTH('b) - 1)" using assms by simp
  finally have "uint a < 2 ^ (LENGTH('b) - 1)" .
  moreover have "- (2 ^ (LENGTH('b) - 1)) \<le> uint a" by (rule order_trans [of _ 0]) simp_all
  moreover have "sint (ucast a :: 'b word) = signed_take_bit (LENGTH('b) - 1) (uint a)"
    using uint_ucast_up [of a, where 'b = 'b] assms by (simp only: sint_uint) simp
  ultimately show ?thesis by (simp add: signed_take_bit_int_eq_self)
qed

section \<open>Little-endian bytes\<close>

definition to_le_bytes :: "nat \<Rightarrow> 'a::len word \<Rightarrow> u8 list" where
  "to_le_bytes n w = map (\<lambda>i. ucast (drop_bit (8 * i) w)) [0..<n]"

fun from_le_bytes :: "u8 list \<Rightarrow> 'a::len word" where
  "from_le_bytes [] = 0"
| "from_le_bytes (b # bs) = ucast b OR push_bit 8 (from_le_bytes bs)"

lemma length_to_le_bytes [simp]: "length (to_le_bytes n w) = n"
  by (simp add: to_le_bytes_def)

lemma nth_to_le_bytes [le_bytes]:
  "i < n \<Longrightarrow> to_le_bytes n w ! i = ucast (drop_bit (8 * i) w)"
  by (simp add: to_le_bytes_def)

lemma bit_from_le_bytes [le_bytes]:
  "bit (from_le_bytes bs :: 'a::len word) i \<longleftrightarrow>
     i < LENGTH('a) \<and> i div 8 < length bs \<and> bit (bs ! (i div 8)) (i mod 8)"
proof (induction bs arbitrary: i)
  case (Cons b bs)
  show ?case
  proof (cases "i < 8")
    case True
    then show ?thesis by (auto simp: bit_simps)
  next
    case False
    then have "i div 8 = Suc ((i - 8) div 8)" and "i mod 8 = (i - 8) mod 8"
      by (simp_all add: le_div_geq le_mod_geq)
    moreover have "\<not> bit b i"
      using False bit_imp_le_length [of b i] by auto
    ultimately show ?thesis using False Cons.IH [of "i - 8"] by (auto simp: bit_simps)
  qed
qed simp

lemma from_to_le_bytes [simp]:
  assumes "LENGTH('a) = 8 * n"
  shows "from_le_bytes (to_le_bytes n w) = (w :: 'a::len word)"
proof (rule bit_word_eqI)
  fix i assume i: "i < LENGTH('a)"
  with assms have "i div 8 < n" by simp
  with i show "bit (from_le_bytes (to_le_bytes n w) :: 'a word) i = bit w i"
    by (simp add: bit_from_le_bytes nth_to_le_bytes bit_simps)
qed

lemma to_from_le_bytes [simp]:
  assumes "LENGTH('a) = 8 * length bs"
  shows "to_le_bytes (length bs) (from_le_bytes bs :: 'a::len word) = bs"
proof (rule nth_equalityI)
  fix i assume "i < length (to_le_bytes (length bs) (from_le_bytes bs :: 'a word))"
  then have i: "i < length bs" by simp
  show "to_le_bytes (length bs) (from_le_bytes bs :: 'a word) ! i = bs ! i"
  proof (rule bit_word_eqI)
    fix j assume "j < LENGTH(8)"
    then have j: "j < 8" by simp
    then have "(8 * i + j) div 8 = i" "(8 * i + j) mod 8 = j" by simp_all
    moreover have "8 * i + j < LENGTH('a)" using i j assms by simp
    ultimately show "bit (to_le_bytes (length bs) (from_le_bytes bs :: 'a word) ! i) j = bit (bs ! i) j"
      using i j by (simp add: nth_to_le_bytes bit_from_le_bytes bit_simps)
  qed
qed simp

lemma from_le_bytes_append:
  "(from_le_bytes (xs @ ys) :: 'a::len word) =
     from_le_bytes xs OR push_bit (8 * length xs) (from_le_bytes ys)"
proof (rule bit_word_eqI)
  fix i assume i: "i < LENGTH('a)"
  show "bit (from_le_bytes (xs @ ys) :: 'a word) i =
    bit (from_le_bytes xs OR push_bit (8 * length xs) (from_le_bytes ys) :: 'a word) i"
  proof (cases "i div 8 < length xs")
    case True
    then have "\<not> 8 * length xs \<le> i" by simp
    with True i show ?thesis by (simp add: bit_from_le_bytes bit_simps nth_append)
  next
    case False
    then have ge: "8 * length xs \<le> i" by simp
    then obtain j where j: "i = 8 * length xs + j" by (metis le_add_diff_inverse)
    then have "i div 8 = length xs + j div 8" "i mod 8 = j mod 8" by simp_all
    with False ge i j show ?thesis
      by (auto simp: bit_from_le_bytes bit_simps nth_append)
  qed
qed

lemma ucast_from_le_bytes:
  assumes "8 * length bs \<le> LENGTH('a)"
  shows "ucast (from_le_bytes bs :: 'a::len word) = (from_le_bytes bs :: 'b::len word)"
proof (rule bit_word_eqI)
  fix i assume "i < LENGTH('b)"
  then show "bit (ucast (from_le_bytes bs :: 'a word) :: 'b word) i = bit (from_le_bytes bs :: 'b word) i"
    using assms by (auto simp: bit_from_le_bytes bit_simps)
qed

lemma to_le_bytes_ucast:
  assumes "8 * n \<le> LENGTH('b)"
  shows "to_le_bytes n (ucast (w :: 'a::len word) :: 'b::len word) = to_le_bytes n w"
proof (rule nth_equalityI)
  fix i assume "i < length (to_le_bytes n (ucast w :: 'b word))"
  then have i: "i < n" by simp
  show "to_le_bytes n (ucast w :: 'b word) ! i = to_le_bytes n w ! i"
    by (rule bit_word_eqI) (use i assms in \<open>auto simp: nth_to_le_bytes bit_simps\<close>)
qed simp

lemma to_le_bytes_append:
  "to_le_bytes (m + n) w = to_le_bytes m w @ to_le_bytes n (drop_bit (8 * m) w)"
proof (rule nth_equalityI)
  fix i assume "i < length (to_le_bytes (m + n) w)"
  then have i: "i < m + n" by simp
  show "to_le_bytes (m + n) w ! i = (to_le_bytes m w @ to_le_bytes n (drop_bit (8 * m) w)) ! i"
  proof (cases "i < m")
    case False
    then obtain k where k: "i = m + k" by (metis not_less le_add_diff_inverse)
    then show ?thesis using i by (simp add: nth_append nth_to_le_bytes algebra_simps)
  qed (simp add: nth_append nth_to_le_bytes)
qed simp

end
