(* ===== verification/Vm_Memory.thy ===== *)
theory Vm_Memory
  imports Vm_Prelude
begin

text \<open>
  The guest memory of the executor (\<^verbatim>\<open>executor/src/vm/memory.rs\<close>): a hash map from
  4-aligned addresses to 4-byte cells, with fast paths for aligned accesses and a byte-wise
  path for the others, and the public output buffer.  The theory relates every access width
  to a flat byte memory, states the contract of a byte memory as the locale \<open>byte_memory\<close>
  and interprets it on the cell map.
\<close>

section \<open>Data\<close>

datatype MemoryError =
  UnalignedAccess | CommitSizeExceeded | PrivateInputSizeExceeded | AddressOverflow
  | AllocationFailed

record memory =
  cells :: "u64 \<rightharpoonup> u8 list"
  public_output :: "u8 list"

definition MAX_PUBLIC_OUTPUT_TOTAL_SIZE :: u64 where
  "MAX_PUBLIC_OUTPUT_TOTAL_SIZE = 1024 * 1024"

definition MAX_PRIVATE_INPUT_SIZE :: u64 where
  "MAX_PRIVATE_INPUT_SIZE = 512 * 1024 * 1024"

definition PRIVATE_INPUT_START_INDEX :: u64 where
  "PRIVATE_INPUT_START_INDEX = 0xFF000000"

definition PRIVATE_INPUT_LENGTH_PREFIX_BYTES :: nat where
  "PRIVATE_INPUT_LENGTH_PREFIX_BYTES = 4"

text \<open>\<open>isize::MAX\<close>: a vector's capacity in bytes may not exceed it.\<close>

definition ISIZE_MAX :: nat where
  "ISIZE_MAX = 2 ^ 63 - 1"

definition memory_default :: memory where
  "memory_default = \<lparr>cells = Map.empty, public_output = []\<rparr>"

section \<open>Operations\<close>

text \<open>\<open>cells.get(..).cloned().unwrap_or_default()\<close>\<close>

definition cell :: "memory \<Rightarrow> u64 \<Rightarrow> u8 list" where
  "cell m a = (case cells m a of Some bs \<Rightarrow> bs | None \<Rightarrow> [0, 0, 0, 0])"

definition insert_cell :: "memory \<Rightarrow> u64 \<Rightarrow> u8 list \<Rightarrow> memory" where
  "insert_cell m a bs = m\<lparr>cells := (cells m)(a \<mapsto> bs)\<rparr>"

definition load_byte :: "memory \<Rightarrow> u64 \<Rightarrow> u8" where
  "load_byte m address =
     (let aligned_address = address - address mod 4
      in cell m aligned_address ! unat (address mod 4))"

definition store_byte :: "memory \<Rightarrow> u64 \<Rightarrow> u8 \<Rightarrow> memory" where
  "store_byte m address value =
     (let aligned_address = address - address mod 4;
          entry = cell m aligned_address
      in insert_cell m aligned_address (entry[unat (address mod 4) := value]))"

text \<open>The loop \<open>for (i, b) in bytes.iter().enumerate()\<close> around \<open>store_byte\<close>, and the reads
  of consecutive bytes.\<close>

definition store_seq :: "memory \<Rightarrow> u64 \<Rightarrow> u8 list \<Rightarrow> memory" where
  "store_seq m address bytes =
     fold (\<lambda>(i, b) m. store_byte m (address + of_nat i) b) (enumerate 0 bytes) m"

definition load_seq :: "memory \<Rightarrow> u64 \<Rightarrow> nat \<Rightarrow> u8 list" where
  "load_seq m address n = map (\<lambda>i. load_byte m (address + of_nat i)) [0..<n]"

definition iter_bytes :: "memory \<Rightarrow> (u64 \<times> u8) set" where
  "iter_bytes m =
     (\<Union>addr \<in> dom (cells m).
        (\<lambda>(i, b). (addr + of_nat i, b)) ` set (enumerate 0 (the (cells m addr))))"

definition load_word :: "memory \<Rightarrow> u64 \<Rightarrow> (MemoryError, u32) result" where
  "load_word m address =
     (if address mod 4 = 0 then Inr (from_le_bytes (cell m address))
      else rbind (ok_or AddressOverflow (checked_add address 3)) (\<lambda>_.
        Inr (from_le_bytes
          [load_byte m address, load_byte m (address + 1),
           load_byte m (address + 2), load_byte m (address + 3)])))"

definition store_word :: "memory \<Rightarrow> u64 \<Rightarrow> u32 \<Rightarrow> (MemoryError, memory) result" where
  "store_word m address value =
     (let bytes = to_le_bytes 4 value
      in if address mod 4 = 0 then Inr (insert_cell m address bytes)
         else rbind (ok_or AddressOverflow (checked_add address 3)) (\<lambda>_.
           Inr (store_seq m address bytes)))"

definition load_doubleword :: "memory \<Rightarrow> u64 \<Rightarrow> (MemoryError, u64) result" where
  "load_doubleword m address =
     (if address mod 8 = 0 then
        (let low = ucast (from_le_bytes (cell m address) :: u32);
             high = ucast (from_le_bytes (cell m (address + 4)) :: u32)
         in Inr (low OR push_bit 32 high))
      else rbind (ok_or AddressOverflow (checked_add address 7)) (\<lambda>_.
        Inr (from_le_bytes (load_seq m address 8))))"

definition store_doubleword :: "memory \<Rightarrow> u64 \<Rightarrow> u64 \<Rightarrow> (MemoryError, memory) result" where
  "store_doubleword m address value =
     (if address mod 8 = 0 then
        (let low = ucast (value AND 0xFFFFFFFF) :: u32;
             high = ucast (drop_bit 32 value) :: u32
         in Inr (insert_cell (insert_cell m address (to_le_bytes 4 low))
                   (address + 4) (to_le_bytes 4 high)))
      else rbind (ok_or AddressOverflow (checked_add address 7)) (\<lambda>_.
        Inr (store_seq m address (to_le_bytes 8 value))))"

definition load_half :: "memory \<Rightarrow> u64 \<Rightarrow> (MemoryError, u16) result" where
  "load_half m address =
     (if address mod 2 = 0 then
        (let aligned_address = address - address mod 4;
             bytes = cell m aligned_address;
             offset = unat (address mod 4)
         in Inr (from_le_bytes [bytes ! offset, bytes ! (offset + 1)]))
      else rbind (ok_or AddressOverflow (checked_add address 1)) (\<lambda>_.
        Inr (from_le_bytes [load_byte m address, load_byte m (address + 1)])))"

definition store_half :: "memory \<Rightarrow> u64 \<Rightarrow> u16 \<Rightarrow> (MemoryError, memory) result" where
  "store_half m address value =
     (let bytes = to_le_bytes 2 value
      in if address mod 2 = 0 then
           (let aligned_address = address - address mod 4;
                entry = cell m aligned_address;
                offset = unat (address mod 4)
            in Inr (insert_cell m aligned_address
                     (entry[offset := bytes ! 0, offset + 1 := bytes ! 1])))
         else rbind (ok_or AddressOverflow (checked_add address 1)) (\<lambda>_.
           Inr (store_byte (store_byte m address (bytes ! 0)) (address + 1) (bytes ! 1))))"

text \<open>Progress of the \<open>load_bytes\<close> loop: it advances and never passes \<open>end\<close>.\<close>

lemma load_bytes_step:
  fixes addr e :: u64
  assumes "addr < e" and tk: "tk = min (4 - unat (addr mod 4)) (unat (e - addr))"
  shows "0 < tk" "tk \<le> 4" "unat (addr + of_nat tk) = unat addr + tk"
    "unat addr + tk \<le> unat e"
proof -
  have lt: "unat addr < unat e" using assms(1) by (simp add: word_less_nat_alt)
  then have d: "unat (e - addr) = unat e - unat addr" by (simp add: unat_sub_if')
  have "unat (addr mod 4) < 4" by (simp add: unat_mod)
  then show "0 < tk" using tk d lt by simp
  show "tk \<le> 4" using tk by simp
  show le: "unat addr + tk \<le> unat e" using tk d lt by simp
  have "unat (of_nat tk :: u64) = tk"
    using \<open>tk \<le> 4\<close> by (simp add: unat_of_nat)
  with le unat_lt2p [of e] show "unat (addr + of_nat tk) = unat addr + tk"
    by (simp add: unat_add_no_overflow)
qed

text \<open>The \<open>while addr < end\<close> loop of \<open>load_bytes\<close>.\<close>

function load_bytes_loop :: "memory \<Rightarrow> u64 \<Rightarrow> u64 \<Rightarrow> u8 list \<Rightarrow> u8 list" where
  "load_bytes_loop m addr e acc =
     (if addr < e then
        (let aligned = addr - addr mod 4;
             bytes = cell m aligned;
             offset = unat (addr mod 4);
             tk = min (4 - offset) (unat (e - addr))
         in load_bytes_loop m (addr + of_nat tk) e (acc @ take tk (drop offset bytes)))
      else acc)"
  by pat_completeness auto

termination
proof (relation "measure (\<lambda>(m, addr, e, acc). unat e - unat addr)")
  fix m and addr e :: u64 and acc :: "u8 list" and x xa xb xc
  assume "addr < e" "x = addr - addr mod 4" "xa = cell m x" "xb = unat (addr mod 4)"
    "xc = min (4 - xb) (unat (e - addr))"
  then have "0 < xc" "unat (addr + of_nat xc) = unat addr + xc" "unat addr + xc \<le> unat e"
    using load_bytes_step [of addr e xc] by simp_all
  then show "((m, addr + of_nat xc, e, acc @ take xc (drop xb xa)), m, addr, e, acc)
      \<in> measure (\<lambda>(m, addr, e, acc). unat e - unat addr)" by simp
qed simp

declare load_bytes_loop.simps [simp del]

definition load_bytes :: "memory \<Rightarrow> u64 \<Rightarrow> u64 \<Rightarrow> (MemoryError, u8 list) result" where
  "load_bytes m addr len =
     rbind (ok_or AddressOverflow (checked_add addr len)) (\<lambda>e.
     rbind (guard_err (unat len \<le> ISIZE_MAX) AllocationFailed) (\<lambda>_.
       Inr (load_bytes_loop m addr e [])))"

text \<open>The \<open>for chunk in inputs.chunks(4)\<close> loop of \<open>set_bytes_aligned\<close>.\<close>

function set_chunks :: "memory \<Rightarrow> u64 \<Rightarrow> u8 list \<Rightarrow> memory" where
  "set_chunks m addr inputs =
     (if inputs = [] then m
      else (let chunk = take 4 inputs
            in set_chunks (insert_cell m addr (chunk @ replicate (4 - length chunk) 0))
                 (addr + 4) (drop 4 inputs)))"
  by pat_completeness auto
termination
  by (relation "measure (\<lambda>(m, addr, inputs). length inputs)") auto

declare set_chunks.simps [simp del]

definition set_bytes_aligned :: "memory \<Rightarrow> u64 \<Rightarrow> u8 list \<Rightarrow> (MemoryError, memory) result" where
  "set_bytes_aligned m addr inputs =
     (if addr mod 4 \<noteq> 0 then Inl UnalignedAccess else Inr (set_chunks m addr inputs))"

definition commit_public_output ::
  "memory \<Rightarrow> u64 \<Rightarrow> u64 \<Rightarrow> (MemoryError, memory) result" where
  "commit_public_output m address len =
     rbind (ok_or CommitSizeExceeded
              (checked_add (of_nat (length (public_output m))) len)) (\<lambda>new_total.
     if MAX_PUBLIC_OUTPUT_TOTAL_SIZE < new_total then Inl CommitSizeExceeded
     else rbind (load_bytes m address len) (\<lambda>bytes.
       Inr (m\<lparr>public_output := public_output m @ bytes\<rparr>)))"

definition read_return_value :: "memory \<Rightarrow> (MemoryError, u8 list) result" where
  "read_return_value m = Inr (public_output m)"

definition store_private_inputs :: "memory \<Rightarrow> u8 list \<Rightarrow> (MemoryError, memory) result" where
  "store_private_inputs m inputs =
     (if inputs = [] then Inr m
      else if unat MAX_PRIVATE_INPUT_SIZE < length inputs then Inl PrivateInputSizeExceeded
      else if 2 ^ 32 \<le> length inputs then Inl PrivateInputSizeExceeded
      else rbind (store_word m PRIVATE_INPUT_START_INDEX (of_nat (length inputs))) (\<lambda>m'.
        set_bytes_aligned m'
          (PRIVATE_INPUT_START_INDEX + of_nat PRIVATE_INPUT_LENGTH_PREFIX_BYTES) inputs))"

section \<open>Addresses and cells\<close>

lemma unat_base4: "unat (x - x mod 4) = unat x - unat x mod 4" for x :: u64
proof -
  have "unat (x mod 4) \<le> unat x" by (simp add: unat_mod)
  then show ?thesis by (simp add: unat_sub_if' unat_mod)
qed

lemma base4_aligned [simp]: "(x - x mod 4) mod 4 = 0" for x :: u64
proof -
  have "unat ((x - x mod 4) mod 4) = 0"
    by (simp add: unat_mod unat_base4)
  then show ?thesis by (simp only: unat_0_iff)
qed

lemma mod4_unat: "x mod 4 = 0 \<longleftrightarrow> unat x mod 4 = 0" for x :: u64
  using unat_0_iff [of "x mod 4"] by (simp add: unat_mod)

text \<open>The distance from an aligned address, over the naturals and modulo the address space.\<close>

lemma aligned_distance:
  fixes A X M :: nat
  assumes "A mod 4 = 0" "A < 4 * M" "X < 4 * M"
  shows "X - X mod 4 = A \<longleftrightarrow> (if A \<le> X then X - A else X + 4 * M - A) < 4"
    and "(if A \<le> X then X - A else X + 4 * M - A) < 4 \<Longrightarrow>
      X mod 4 = (if A \<le> X then X - A else X + 4 * M - A)"
proof -
  obtain k where k: "A = 4 * k" using assms(1) by auto
  obtain q r where q: "X = 4 * q + r" and r: "r < 4" "X mod 4 = r"
    by (metis mod_less_divisor mult_div_mod_eq zero_less_numeral)
  have "k < M" using assms k by simp
  have part1: "X - X mod 4 = A \<longleftrightarrow> q = k" using k q r by auto
  have part2: "(if A \<le> X then X - A else X + 4 * M - A) < 4 \<longleftrightarrow> q = k"
    using k q r \<open>k < M\<close> by auto
  from part1 part2
  show "X - X mod 4 = A \<longleftrightarrow> (if A \<le> X then X - A else X + 4 * M - A) < 4" by simp
  show "(if A \<le> X then X - A else X + 4 * M - A) < 4 \<Longrightarrow>
      X mod 4 = (if A \<le> X then X - A else X + 4 * M - A)"
    using k q r part2 by simp
qed

lemma unat_diff_wrap:
  "unat (x - a) = (if unat a \<le> unat x then unat x - unat a else unat x + 4 * 2 ^ 62 - unat a)"
  for a x :: u64
  by (simp add: unat_sub_if')

lemma unat_u64_bound: "unat x < 4 * 2 ^ 62" for x :: u64
  using unat_lt2p [of x] by simp

lemma base4_eq_iff:
  fixes a x :: u64
  assumes "a mod 4 = 0"
  shows "x - x mod 4 = a \<longleftrightarrow> unat (x - a) < 4"
proof -
  have "x - x mod 4 = a \<longleftrightarrow> unat x - unat x mod 4 = unat a"
    by (metis unat_base4 of_nat_unat_id)
  with aligned_distance(1) [OF _ unat_u64_bound unat_u64_bound, of a x] assms
  show ?thesis by (simp only: mod4_unat unat_diff_wrap)
qed

lemma base4_offset:
  fixes a x :: u64
  assumes "a mod 4 = 0" and "unat (x - a) < 4"
  shows "unat (x mod 4) = unat (x - a)"
  using aligned_distance(2) [OF _ unat_u64_bound unat_u64_bound, of a x] assms
  by (simp only: mod4_unat unat_diff_wrap unat_mod) simp

lemma unat_mod4_less [simp]: "unat (x mod 4) < 4" for x :: u64
  by (simp add: unat_mod)

section \<open>Cell well-formedness\<close>

text \<open>Every cell of the map sits at a 4-aligned address and holds four bytes; the public
  output never exceeds its budget.\<close>

definition cells_wf :: "memory \<Rightarrow> bool" where
  "cells_wf m \<longleftrightarrow> (\<forall>a bs. cells m a = Some bs \<longrightarrow> length bs = 4 \<and> a mod 4 = 0)"

definition memory_wf :: "memory \<Rightarrow> bool" where
  "memory_wf m \<longleftrightarrow> cells_wf m
     \<and> length (public_output m) \<le> unat MAX_PUBLIC_OUTPUT_TOTAL_SIZE"

lemma length_cell [simp]: "cells_wf m \<Longrightarrow> length (cell m a) = 4"
  by (auto simp: cells_wf_def cell_def split: option.splits)

lemma cell_insert_cell: "cell (insert_cell m a bs) x = (if x = a then bs else cell m x)"
  by (simp add: cell_def insert_cell_def)

lemma insert_cell_wf [simp, intro]:
  "cells_wf m \<Longrightarrow> length bs = 4 \<Longrightarrow> a mod 4 = 0 \<Longrightarrow> cells_wf (insert_cell m a bs)"
  by (auto simp: cells_wf_def insert_cell_def)

lemma insert_cell_output [simp]: "public_output (insert_cell m a bs) = public_output m"
  by (simp add: insert_cell_def)

text \<open>Replacing an aligned cell overwrites exactly its four bytes.\<close>

lemma load_byte_insert_cell:
  assumes "a mod 4 = 0"
  shows "load_byte (insert_cell m a bs) x =
     (if unat (x - a) < 4 then bs ! unat (x - a) else load_byte m x)"
  using base4_eq_iff [OF assms, of x] base4_offset [OF assms, of x]
  by (auto simp: load_byte_def Let_def cell_insert_cell)

lemma load_byte_cell:
  assumes "a mod 4 = 0" and "i < 4"
  shows "load_byte m (a + of_nat i) = cell m a ! i"
proof -
  have "unat (a + of_nat i - a) = i" using assms(2) by (simp add: unat_of_nat_less)
  then show ?thesis
    using assms base4_eq_iff [OF assms(1), of "a + of_nat i"]
      base4_offset [OF assms(1), of "a + of_nat i"]
    by (simp add: load_byte_def Let_def)
qed

section \<open>The contract of a byte memory\<close>

locale byte_memory =
  fixes inv :: "'m \<Rightarrow> bool"
    and rd :: "'m \<Rightarrow> u64 \<Rightarrow> u8"
    and wr :: "'m \<Rightarrow> u64 \<Rightarrow> u8 \<Rightarrow> 'm"
  assumes rd_wr: "inv m \<Longrightarrow> rd (wr m a v) x = (if x = a then v else rd m x)"
    and inv_wr: "inv m \<Longrightarrow> inv (wr m a v)"
begin

lemma inv_fold_wr:
  "inv m \<Longrightarrow> inv (fold (\<lambda>(i, b) m. wr m (a + of_nat i) b) ibs m)"
  by (induction ibs arbitrary: m) (auto simp: inv_wr)

text \<open>Storing a byte sequence at consecutive addresses, which may wrap around.\<close>

lemma rd_fold_wr:
  assumes "inv m" and "length bs \<le> 2 ^ 64"
  shows "rd (fold (\<lambda>(i, b) m. wr m (a + of_nat i) b) (enumerate 0 bs) m) x =
     (if unat (x - a) < length bs then bs ! unat (x - a) else rd m x)"
  using assms(2)
proof (induction bs arbitrary: x rule: rev_induct)
  case (snoc b bs)
  then have n: "length bs < 2 ^ 64" by simp
  have "x = a + of_nat (length bs) \<longleftrightarrow> unat (x - a) = length bs"
  proof
    assume "x = a + of_nat (length bs)"
    then show "unat (x - a) = length bs" using n by (simp add: unat_of_nat_less)
  next
    assume "unat (x - a) = length bs"
    then have "of_nat (length bs) = x - a" by (metis of_nat_unat_id)
    then show "x = a + of_nat (length bs)" by simp
  qed
  then show ?case
    using snoc by (auto simp: enumerate_append_eq rd_wr inv_fold_wr assms(1) nth_append)
qed simp

text \<open>A forward byte-by-byte copy in which every read sees the earlier writes: with the
  destination a distance \<open>g\<close> after the source, the first \<open>g\<close> bytes are propagated
  periodically over the destination.\<close>

lemma rd_propagating_copy:
  assumes "inv m" and "0 < g" and "n + g \<le> 2 ^ 64"
  shows "rd (fold (\<lambda>i m. wr m (a + of_nat g + of_nat i) (rd m (a + of_nat i))) [0..<n] m) x =
     (if g \<le> unat (x - a) \<and> unat (x - a) < g + n
      then rd m (a + of_nat (unat (x - a) mod g)) else rd m x)
   \<and> inv (fold (\<lambda>i m. wr m (a + of_nat g + of_nat i) (rd m (a + of_nat i))) [0..<n] m)"
  using assms(3)
proof (induction n arbitrary: x)
  case 0
  then show ?case using assms(1) by simp
next
  case (Suc n)
  let ?m = "fold (\<lambda>i m. wr m (a + of_nat g + of_nat i) (rd m (a + of_nat i))) [0..<n] m"
  have IH: "\<And>x. rd ?m x = (if g \<le> unat (x - a) \<and> unat (x - a) < g + n
      then rd m (a + of_nat (unat (x - a) mod g)) else rd m x)" and inv: "inv ?m"
    using Suc by simp_all
  have nb: "unat (of_nat n :: u64) = n" "unat (of_nat (g + n) :: u64) = g + n"
    using Suc.prems by (simp_all add: unat_of_nat_less del: of_nat_add)
  have eq: "x = a + of_nat g + of_nat n \<longleftrightarrow> unat (x - a) = g + n"
  proof
    assume "x = a + of_nat g + of_nat n"
    then have "x - a = of_nat (g + n)" by simp
    then show "unat (x - a) = g + n" using nb(2) by simp
  next
    assume "unat (x - a) = g + n"
    then have "of_nat (g + n) = x - a" by (metis of_nat_unat_id)
    then show "x = a + of_nat g + of_nat n" by (simp add: algebra_simps)
  qed
  show ?case
    using inv assms(2) by (auto simp: rd_wr inv_wr IH eq nb)
qed

end

text \<open>The cell map is a byte memory, and so is the flat memory of the specification.\<close>

definition flat_write :: "(u64 \<Rightarrow> u8) \<Rightarrow> u64 \<Rightarrow> u8 list \<Rightarrow> (u64 \<Rightarrow> u8)" where
  "flat_write f a bs = (\<lambda>x. if unat (x - a) < length bs then bs ! unat (x - a) else f x)"

lemma load_byte_store_byte:
  assumes "cells_wf m"
  shows "load_byte (store_byte m a v) x = (if x = a then v else load_byte m x)"
proof -
  have "x - x mod 4 = a - a mod 4 \<Longrightarrow> x mod 4 = a mod 4 \<Longrightarrow> x = a"
    by (metis diff_eq_eq diff_add_cancel)
  moreover have "unat (x mod 4) = unat (a mod 4) \<longleftrightarrow> x mod 4 = a mod 4"
    by (metis of_nat_unat_id)
  ultimately show ?thesis
    using assms by (auto simp: load_byte_def store_byte_def Let_def cell_insert_cell)
qed

lemma store_byte_wf [simp, intro]: "cells_wf m \<Longrightarrow> cells_wf (store_byte m a v)"
  by (simp add: store_byte_def Let_def insert_cell_wf)

lemma store_byte_output [simp]: "public_output (store_byte m a v) = public_output m"
  by (simp add: store_byte_def Let_def)

interpretation cellmap: byte_memory cells_wf load_byte store_byte
  by unfold_locales (auto simp: load_byte_store_byte)

interpretation flat: byte_memory "\<lambda>_. True" "\<lambda>f. f" "\<lambda>f a v. f(a := v)"
  by unfold_locales auto

section \<open>Byte sequences\<close>

lemma load_byte_store_seq:
  "cells_wf m \<Longrightarrow> length bs \<le> 2 ^ 64 \<Longrightarrow>
     load_byte (store_seq m a bs) = flat_write (load_byte m) a bs"
  by (rule ext) (simp add: store_seq_def flat_write_def cellmap.rd_fold_wr)

lemma store_seq_wf [simp, intro]: "cells_wf m \<Longrightarrow> cells_wf (store_seq m a bs)"
  by (simp add: store_seq_def cellmap.inv_fold_wr)

lemma store_seq_output [simp]: "public_output (store_seq m a bs) = public_output m"
proof -
  have "public_output (fold (\<lambda>(i, b) m. store_byte m (a + of_nat i) b) ibs m) = public_output m"
    for ibs by (induction ibs arbitrary: m) auto
  then show ?thesis by (simp add: store_seq_def)
qed

lemma length_load_seq [simp]: "length (load_seq m a n) = n"
  by (simp add: load_seq_def)

lemma nth_load_seq [simp]: "i < n \<Longrightarrow> load_seq m a n ! i = load_byte m (a + of_nat i)"
  by (simp add: load_seq_def)

lemma load_seq_append:
  "load_seq m a (i + j) = load_seq m a i @ load_seq m (a + of_nat i) j"
  by (rule nth_equalityI)
     (auto simp: nth_append less_diff_conv2 simp flip: of_nat_add add.assoc intro: arg_cong)

lemma load_seq_unfold:
  "load_seq m a 2 = [load_byte m a, load_byte m (a + 1)]"
  "load_seq m a 4 = [load_byte m a, load_byte m (a + 1), load_byte m (a + 2), load_byte m (a + 3)]"
  by (simp_all add: load_seq_def upt_rec numeral_eq_Suc)

lemma cell_load_seq: "cells_wf m \<Longrightarrow> a mod 4 = 0 \<Longrightarrow> cell m a = load_seq m a 4"
  by (rule nth_equalityI) (simp_all add: load_byte_cell)

lemma load_seq_cong: "load_byte m = load_byte m' \<Longrightarrow> load_seq m a n = load_seq m' a n"
  by (simp add: load_seq_def)

text \<open>Reading back what was written, and reading beside it.\<close>

lemma load_seq_flat_write:
  assumes "load_byte m' = flat_write f a bs" and "length bs \<le> 2 ^ 64"
  shows "load_seq m' a (length bs) = bs"
  using assms by (auto intro!: nth_equalityI simp: flat_write_def unat_of_nat_less)

lemma flat_write_append:
  assumes "length xs + length ys \<le> 2 ^ 64"
  shows "flat_write (flat_write f a xs) (a + of_nat (length xs)) ys = flat_write f a (xs @ ys)"
proof (cases "ys = []")
  case False
  then have n: "length xs < 2 ^ 64" using assms by (cases ys) auto
  show ?thesis
  proof
    fix x
    let ?d = "unat (x - a)"
    have "unat (x - (a + of_nat (length xs))) = unat ((x - a) - of_nat (length xs))"
      by (simp add: diff_diff_eq)
    also have "\<dots> = (if length xs \<le> ?d then ?d - length xs else ?d + 2 ^ 64 - length xs)"
      using n by (simp add: unat_sub_if' unat_of_nat_less)
    finally have u: "unat (x - (a + of_nat (length xs))) =
      (if length xs \<le> ?d then ?d - length xs else ?d + 2 ^ 64 - length xs)" .
    show "flat_write (flat_write f a xs) (a + of_nat (length xs)) ys x = flat_write f a (xs @ ys) x"
      unfolding flat_write_def u using assms by (auto simp: nth_append)
  qed
qed (simp add: flat_write_def)

lemma flat_write_insert_cell:
  "a mod 4 = 0 \<Longrightarrow> length bs = 4 \<Longrightarrow>
     load_byte (insert_cell m a bs) = flat_write (load_byte m) a bs"
  by (rule ext) (simp add: flat_write_def load_byte_insert_cell)

lemma flat_write_insert_cell2:
  assumes "a mod 4 = 0" "(a + 4) mod 4 = 0" "length xs = 4" "length ys = 4"
  shows "load_byte (insert_cell (insert_cell m a xs) (a + 4) ys) =
    flat_write (load_byte m) a (xs @ ys)"
  using flat_write_append [of xs ys "load_byte m" a] assms
  by (simp add: flat_write_insert_cell)

section \<open>Every access width refines the flat memory\<close>

text \<open>An access of \<open>n\<close> bytes succeeds exactly when its range does not run past the address
  space, on the aligned path as well as on the byte-wise one.\<close>

lemma aligned_in_range:
  "a mod 4 = 0 \<Longrightarrow> unat a + 3 < 2 ^ 64" "a mod 8 = 0 \<Longrightarrow> unat a + 7 < 2 ^ 64"
  "a mod 2 = 0 \<Longrightarrow> unat a + 1 < 2 ^ 64" for a :: u64
proof -
  have m: "unat (a mod k) = unat a mod unat k" for k by (rule unat_mod)
  have b: "unat a < 2 ^ 64" using unat_lt2p [of a] by simp
  show "a mod 4 = 0 \<Longrightarrow> unat a + 3 < 2 ^ 64" using m [of 4] b by simp presburger
  show "a mod 8 = 0 \<Longrightarrow> unat a + 7 < 2 ^ 64" using m [of 8] b by simp presburger
  show "a mod 2 = 0 \<Longrightarrow> unat a + 1 < 2 ^ 64" using m [of 2] b by simp presburger
qed

lemma aligned8: "a mod 4 = 0" "(a + 4) mod 4 = 0" if "a mod 8 = 0" for a :: u64
proof -
  have "unat a mod 8 = 0" using that unat_mod [of a 8] by simp
  then have 1: "unat a mod 4 = 0" by presburger
  then show "a mod 4 = 0" by (simp add: mod4_unat)
  have "unat (a + 4) = unat a + 4"
    using aligned_in_range(2) [OF that] by (simp add: unat_add_no_overflow)
  then show "(a + 4) mod 4 = 0" using 1 by (simp add: mod4_unat)
qed

lemma aligned2_offset:
  fixes a :: u64
  assumes "a mod 2 = 0"
  shows "unat (a mod 4) + 1 < 4" and "(a - a mod 4) + of_nat (unat (a mod 4)) = a"
    and "(a - a mod 4) + of_nat (unat (a mod 4) + 1) = a + 1"
proof -
  have "unat a mod 2 = 0" using assms unat_mod [of a 2] by simp
  then have "unat a mod 4 \<noteq> 3" by presburger
  moreover have "unat a mod 4 < 4" by simp
  ultimately show "unat (a mod 4) + 1 < 4" by (simp add: unat_mod)
qed simp_all

text \<open>A successful store of \<open>bs\<close> at \<open>a\<close> turns \<open>m\<close> into \<open>m'\<close>.\<close>

definition stores :: "memory \<Rightarrow> u64 \<Rightarrow> u8 list \<Rightarrow> memory \<Rightarrow> bool" where
  "stores m a bs m' \<longleftrightarrow> load_byte m' = flat_write (load_byte m) a bs \<and> cells_wf m'
     \<and> public_output m' = public_output m"

lemma stores_store_seq:
  "cells_wf m \<Longrightarrow> length bs \<le> 2 ^ 64 \<Longrightarrow> stores m a bs (store_seq m a bs)"
  by (simp add: stores_def load_byte_store_seq)

lemma stores_load_seq: "stores m a bs m' \<Longrightarrow> length bs \<le> 2 ^ 64 \<Longrightarrow> load_seq m' a (length bs) = bs"
  by (rule load_seq_flat_write) (simp_all add: stores_def)

lemma store_byte_stores: "cells_wf m \<Longrightarrow> stores m a [v] (store_byte m a v)"
  using stores_store_seq [of m "[v]" a] by (simp add: store_seq_def)

lemma store_word_eq:
  assumes "cells_wf m"
  shows "\<exists>m'. stores m a (to_le_bytes 4 v) m' \<and>
    store_word m a v = (if unat a + 3 < 2 ^ 64 then Inr m' else Inl AddressOverflow)"
proof (cases "a mod 4 = 0")
  case True
  then show ?thesis
    using assms aligned_in_range(1) [OF True]
    by (auto simp: store_word_def stores_def flat_write_insert_cell)
next
  case False
  then show ?thesis
    using assms stores_store_seq [OF assms, of "to_le_bytes 4 v" a]
    by (auto simp: store_word_def checked_add_def)
qed

lemma store_half_eq:
  assumes "cells_wf m"
  shows "\<exists>m'. stores m a (to_le_bytes 2 v) m' \<and>
    store_half m a v = (if unat a + 1 < 2 ^ 64 then Inr m' else Inl AddressOverflow)"
proof -
  obtain b0 b1 where bs: "to_le_bytes 2 v = [b0, b1]"
    by (metis length_to_le_bytes list_eq_2)
  have seq: "stores m a (to_le_bytes 2 v)
    (store_byte (store_byte m a (to_le_bytes 2 v ! 0)) (a + 1) (to_le_bytes 2 v ! 1))"
    using stores_store_seq [OF assms, of "to_le_bytes 2 v" a]
    by (simp add: bs store_seq_def)
  show ?thesis
  proof (cases "a mod 2 = 0")
    case False
    then show ?thesis using seq by (auto simp: store_half_def checked_add_def Let_def)
  next
    case True
    have "(a + 1) - (a - a mod 4) = of_nat (unat (a mod 4) + 1)"
      using aligned2_offset(3) [OF True] by (metis add_diff_cancel_left')
    then have d: "unat ((a + 1) - (a - a mod 4)) = unat (a mod 4) + 1"
      using aligned2_offset(1) [OF True]
      by (simp only:) (rule unat_of_nat_less, simp)
    then have one: "(a + 1) - (a + 1) mod 4 = a - a mod 4"
      and two: "unat ((a + 1) mod 4) = unat (a mod 4) + 1"
      using aligned2_offset(1) [OF True] base4_eq_iff [of "a - a mod 4" "a + 1"]
        base4_offset [of "a - a mod 4" "a + 1"] by simp_all
    have "store_half m a v =
      Inr (store_byte (store_byte m a (to_le_bytes 2 v ! 0)) (a + 1) (to_le_bytes 2 v ! 1))"
      using True
      unfolding store_half_def store_byte_def Let_def one two
      by (simp add: cell_insert_cell) (simp add: insert_cell_def)
    then show ?thesis using seq aligned_in_range(3) [OF True] by auto
  qed
qed

lemma low_half_mask: "(ucast (v AND 0xFFFFFFFF) :: u32) = ucast v" for v :: u64
proof -
  have "v AND 0xFFFFFFFF = take_bit 32 v"
    by (simp add: take_bit_eq_mask mask_eq_exp_minus_1)
  then show ?thesis by (auto intro!: bit_word_eqI simp: bit_simps)
qed

lemma store_doubleword_eq:
  assumes "cells_wf m"
  shows "\<exists>m'. stores m a (to_le_bytes 8 v) m' \<and>
    store_doubleword m a v = (if unat a + 7 < 2 ^ 64 then Inr m' else Inl AddressOverflow)"
proof (cases "a mod 8 = 0")
  case True
  have "to_le_bytes 4 (ucast (v AND 0xFFFFFFFF) :: u32) = to_le_bytes 4 v"
  proof -
    have "(ucast (v AND 0xFFFFFFFF) :: u32) = ucast v"
      using low_half_mask [of v] by simp
    then show ?thesis by (simp add: to_le_bytes_ucast)
  qed
  then have "to_le_bytes 4 (ucast (v AND 0xFFFFFFFF) :: u32) @
      to_le_bytes 4 (ucast (drop_bit 32 v) :: u32) = to_le_bytes 8 v"
    using to_le_bytes_append [of 4 4 v] by (simp add: to_le_bytes_ucast)
  then show ?thesis
    using assms True aligned8 [OF True] aligned_in_range(2) [OF True]
    by (auto simp: store_doubleword_def stores_def flat_write_insert_cell2)
next
  case False
  then show ?thesis
    using assms stores_store_seq [OF assms, of "to_le_bytes 8 v" a]
    by (auto simp: store_doubleword_def checked_add_def)
qed

lemma load_word_eq:
  "cells_wf m \<Longrightarrow> load_word m a =
     (if unat a + 3 < 2 ^ 64 then Inr (from_le_bytes (load_seq m a 4)) else Inl AddressOverflow)"
  using aligned_in_range(1) [of a]
  by (auto simp: load_word_def checked_add_def cell_load_seq load_seq_unfold)

lemma load_half_eq:
  assumes "cells_wf m"
  shows "load_half m a =
     (if unat a + 1 < 2 ^ 64 then Inr (from_le_bytes (load_seq m a 2)) else Inl AddressOverflow)"
proof (cases "a mod 2 = 0")
  case True
  note o = aligned2_offset [OF True]
  have "cell m (a - a mod 4) ! unat (a mod 4) = load_byte m a"
    using load_byte_cell [of "a - a mod 4" "unat (a mod 4)" m] o by simp
  moreover have "cell m (a - a mod 4) ! (unat (a mod 4) + 1) = load_byte m (a + 1)"
    using load_byte_cell [of "a - a mod 4" "unat (a mod 4) + 1" m] o by simp
  ultimately show ?thesis
    using True aligned_in_range(3) [OF True] by (simp add: load_half_def Let_def load_seq_unfold)
qed (auto simp: load_half_def checked_add_def load_seq_unfold)

lemma load_doubleword_eq:
  assumes "cells_wf m"
  shows "load_doubleword m a =
     (if unat a + 7 < 2 ^ 64 then Inr (from_le_bytes (load_seq m a 8)) else Inl AddressOverflow)"
proof (cases "a mod 8 = 0")
  case True
  have "ucast (from_le_bytes (cell m a) :: u32) OR
      push_bit 32 (ucast (from_le_bytes (cell m (a + 4)) :: u32)) =
      (from_le_bytes (cell m a @ cell m (a + 4)) :: u64)"
    using assms by (simp add: from_le_bytes_append ucast_from_le_bytes)
  also have "cell m a @ cell m (a + 4) = load_seq m a 8"
    using assms aligned8 [OF True] load_seq_append [of m a 4 4] by (simp add: cell_load_seq)
  finally show ?thesis
    using True aligned_in_range(2) [OF True] by (simp add: load_doubleword_def Let_def)
qed (auto simp: load_doubleword_def checked_add_def)

lemmas store_eqs = store_half_eq store_word_eq store_doubleword_eq
lemmas load_eqs = load_half_eq load_word_eq load_doubleword_eq

section \<open>Bulk reads, private input and public output\<close>

lemma take_drop_cell:
  assumes "cells_wf m" and "tk \<le> 4 - unat (addr mod 4)"
  shows "take tk (drop (unat (addr mod 4)) (cell m (addr - addr mod 4))) = load_seq m addr tk"
proof (rule nth_equalityI)
  show len: "length (take tk (drop (unat (addr mod 4)) (cell m (addr - addr mod 4)))) =
      length (load_seq m addr tk)" using assms by simp
  fix i assume "i < length (take tk (drop (unat (addr mod 4)) (cell m (addr - addr mod 4))))"
  then have i: "i < tk" using len by simp
  with assms(2) have "unat (addr mod 4) + i < 4" by simp
  then have "cell m (addr - addr mod 4) ! (unat (addr mod 4) + i) =
      load_byte m (addr - addr mod 4 + of_nat (unat (addr mod 4) + i))"
    by (simp only: load_byte_cell base4_aligned)
  also have "addr - addr mod 4 + of_nat (unat (addr mod 4) + i) = addr + of_nat i"
    by (simp add: algebra_simps)
  finally show "take tk (drop (unat (addr mod 4)) (cell m (addr - addr mod 4))) ! i =
      load_seq m addr tk ! i" using i assms by simp
qed

lemma load_bytes_loop_eq:
  "cells_wf m \<Longrightarrow> addr \<le> e \<Longrightarrow>
     load_bytes_loop m addr e acc = acc @ load_seq m addr (unat e - unat addr)"
proof (induction m addr e acc rule: load_bytes_loop.induct)
  case (1 m addr e acc)
  show ?case
  proof (cases "addr < e")
    case True
    let ?tk = "min (4 - unat (addr mod 4)) (unat (e - addr))"
    note st = load_bytes_step [OF True refl]
    have le: "addr + of_nat ?tk \<le> e"
      using st(3,4) by (simp only: word_le_nat_alt)
    have "load_bytes_loop m addr e acc = load_bytes_loop m (addr + of_nat ?tk) e
        (acc @ take ?tk (drop (unat (addr mod 4)) (cell m (addr - addr mod 4))))"
      using True by (subst load_bytes_loop.simps) (simp add: Let_def)
    also have "\<dots> = acc @ load_seq m addr ?tk @
        load_seq m (addr + of_nat ?tk) (unat e - unat (addr + of_nat ?tk))"
      using "1.IH" [OF True refl refl refl refl] "1.prems"(1) le by (simp add: take_drop_cell)
    also have "load_seq m addr ?tk @
        load_seq m (addr + of_nat ?tk) (unat e - unat (addr + of_nat ?tk)) =
        load_seq m addr (?tk + (unat e - (unat addr + ?tk)))"
      by (simp only: st(3) load_seq_append)
    also have "?tk + (unat e - (unat addr + ?tk)) = unat e - unat addr"
      using st(4) by linarith
    finally show ?thesis .
  next
    case False
    with "1.prems" have "addr = e" by simp
    then show ?thesis by (simp add: load_bytes_loop.simps load_seq_def)
  qed
qed

lemma load_bytes_eq:
  assumes "cells_wf m"
  shows "load_bytes m a n =
    (if 2 ^ 64 \<le> unat a + unat n then Inl AddressOverflow
     else if ISIZE_MAX < unat n then Inl AllocationFailed
     else Inr (load_seq m a (unat n)))"
proof -
  have "a \<le> a + n" "unat (a + n) - unat a = unat n" if "unat a + unat n < 2 ^ 64"
    using that by (simp_all add: word_le_nat_alt unat_add_no_overflow)
  then show ?thesis
    using assms by (auto simp: load_bytes_def checked_add_def guard_err_def load_bytes_loop_eq)
qed

lemma commit_public_output_eq:
  assumes "memory_wf m"
  shows "commit_public_output m a n =
    (if unat MAX_PUBLIC_OUTPUT_TOTAL_SIZE < length (public_output m) + unat n
     then Inl CommitSizeExceeded
     else if 2 ^ 64 \<le> unat a + unat n then Inl AddressOverflow
     else Inr (m\<lparr>public_output := public_output m @ load_seq m a (unat n)\<rparr>))"
proof -
  let ?po = "of_nat (length (public_output m)) :: u64"
  have po: "unat ?po = length (public_output m)"
    using assms by (simp add: memory_wf_def MAX_PUBLIC_OUTPUT_TOTAL_SIZE_def unat_of_nat_less)
  have wf: "cells_wf m" using assms by (simp add: memory_wf_def)
  show ?thesis
  proof (cases "length (public_output m) + unat n < 2 ^ 64")
    case False
    then show ?thesis
      by (simp add: commit_public_output_def checked_add_def po MAX_PUBLIC_OUTPUT_TOTAL_SIZE_def)
  next
    case True
    then have "unat (?po + n) = length (public_output m) + unat n"
      using po by (simp add: unat_add_no_overflow)
    with True po wf show ?thesis
      by (simp add: commit_public_output_def checked_add_def word_less_nat_alt load_bytes_eq
          MAX_PUBLIC_OUTPUT_TOTAL_SIZE_def ISIZE_MAX_def)
  qed
qed

lemma commit_public_output_wf:
  "memory_wf m \<Longrightarrow> commit_public_output m a n = Inr m' \<Longrightarrow> memory_wf m'"
  by (auto simp: commit_public_output_eq split: if_splits) (auto simp: memory_wf_def cells_wf_def)

lemma set_chunks_stores:
  assumes "cells_wf m" and "a mod 4 = 0" and "unat a + length bs \<le> 2 ^ 64 - 4"
  shows "stores m a (bs @ replicate ((4 - length bs mod 4) mod 4) 0) (set_chunks m a bs)"
  using assms
proof (induction m a bs rule: set_chunks.induct)
  case (1 m a bs)
  show ?case
  proof (cases "bs = []")
    case True
    then show ?thesis using "1.prems" by (simp add: set_chunks.simps stores_def flat_write_def)
  next
    case False
    let ?c = "take 4 bs @ replicate (4 - length (take 4 bs)) 0"
    let ?m = "insert_cell m a ?c"
    have a4: "unat (a + 4) = unat a + 4"
      using "1.prems"(3) False by (cases bs) (simp_all add: unat_add_no_overflow)
    have al: "(a + 4) mod 4 = 0" using "1.prems"(2) a4 by (simp add: mod4_unat)
    have lc: "length ?c = 4" by simp
    have eq: "set_chunks m a bs = set_chunks ?m (a + 4) (drop 4 bs)"
      using False by (subst set_chunks.simps) (simp add: Let_def)
    show ?thesis
    proof (cases "length bs \<le> 4")
      case True
      then have "bs @ replicate ((4 - length bs mod 4) mod 4) 0 = ?c"
        using False by (cases "length bs = 4") (auto simp: le_less)
      then show ?thesis
        using True False "1.prems"(1,2)
        by (simp add: eq set_chunks.simps stores_def flat_write_insert_cell)
    next
      case long: False
      then have c: "?c = take 4 bs" by simp
      have "stores ?m (a + 4) (drop 4 bs @ replicate ((4 - length (drop 4 bs) mod 4) mod 4) 0)
          (set_chunks ?m (a + 4) (drop 4 bs))"
        by (rule "1.IH" [OF False refl]) (use "1.prems" a4 al lc long in auto)
      moreover have "length (drop 4 bs) mod 4 = length bs mod 4"
        using long by (simp add: le_mod_geq)
      ultimately show ?thesis
        using flat_write_append [of "take 4 bs"
            "drop 4 bs @ replicate ((4 - length bs mod 4) mod 4) 0" "load_byte m" a]
          "1.prems" long
        unfolding stores_def eq c
        by (simp add: flat_write_insert_cell append_take_drop_id flip: append_assoc)
    qed
  qed
qed

lemma store_private_inputs_Inr:
  assumes "cells_wf m" and "store_private_inputs m inputs = Inr m'" and "inputs \<noteq> []"
  shows "stores m PRIVATE_INPUT_START_INDEX
      (to_le_bytes 4 (of_nat (length inputs) :: u32) @ inputs @
        replicate ((4 - length inputs mod 4) mod 4) 0) m'"
    and "length inputs \<le> unat MAX_PRIVATE_INPUT_SIZE"
proof -
  from assms(2,3) obtain m1 where
    m1: "store_word m PRIVATE_INPUT_START_INDEX (of_nat (length inputs)) = Inr m1"
    and m': "set_bytes_aligned m1
      (PRIVATE_INPUT_START_INDEX + of_nat PRIVATE_INPUT_LENGTH_PREFIX_BYTES) inputs = Inr m'"
    and len: "length inputs \<le> unat MAX_PRIVATE_INPUT_SIZE"
    by (auto simp: store_private_inputs_def result_simps split: if_splits)
  show "length inputs \<le> unat MAX_PRIVATE_INPUT_SIZE" by (rule len)
  let ?len = "to_le_bytes 4 (of_nat (length inputs) :: u32)"
  have s1: "stores m PRIVATE_INPUT_START_INDEX ?len m1"
    using store_word_eq [OF assms(1), of PRIVATE_INPUT_START_INDEX "of_nat (length inputs)"] m1
    by (auto split: if_splits)
  then have wf: "cells_wf m1" by (simp add: stores_def)
  have s2: "stores m1 (PRIVATE_INPUT_START_INDEX + of_nat PRIVATE_INPUT_LENGTH_PREFIX_BYTES)
      (inputs @ replicate ((4 - length inputs mod 4) mod 4) 0) m'"
    using set_chunks_stores [OF wf, of
        "PRIVATE_INPUT_START_INDEX + of_nat PRIVATE_INPUT_LENGTH_PREFIX_BYTES" inputs] m' len
    by (simp add: set_bytes_aligned_def PRIVATE_INPUT_START_INDEX_def
        PRIVATE_INPUT_LENGTH_PREFIX_BYTES_def MAX_PRIVATE_INPUT_SIZE_def split: if_splits)
  show "stores m PRIVATE_INPUT_START_INDEX
      (?len @ inputs @ replicate ((4 - length inputs mod 4) mod 4) 0) m'"
    using s1 s2 len flat_write_append [of ?len
        "inputs @ replicate ((4 - length inputs mod 4) mod 4) 0" "load_byte m"
        PRIVATE_INPUT_START_INDEX]
    by (simp add: stores_def PRIVATE_INPUT_LENGTH_PREFIX_BYTES_def MAX_PRIVATE_INPUT_SIZE_def)
qed

lemma memory_default_wf [simp]: "memory_wf memory_default"
  by (simp add: memory_wf_def cells_wf_def memory_default_def)

lemma stores_memory_wf: "stores m a bs m' \<Longrightarrow> memory_wf m \<Longrightarrow> memory_wf m'"
  by (simp add: stores_def memory_wf_def)

lemma store_private_inputs_Inl:
  assumes "store_private_inputs m inputs = Inl e"
  shows "e = PrivateInputSizeExceeded \<and> 2 ^ 29 < length inputs"
proof -
  have "PRIVATE_INPUT_START_INDEX mod 4 = 0"
    "(PRIVATE_INPUT_START_INDEX + of_nat PRIVATE_INPUT_LENGTH_PREFIX_BYTES) mod 4 = 0"
    by (simp_all add: PRIVATE_INPUT_START_INDEX_def PRIVATE_INPUT_LENGTH_PREFIX_BYTES_def)
  then show ?thesis using assms
    by (auto simp: store_private_inputs_def store_word_def set_bytes_aligned_def MAX_PRIVATE_INPUT_SIZE_def Let_def split: if_splits)
qed

lemma private_input_read:
  assumes "cells_wf m" "store_private_inputs m inputs = Inr m'" "inputs \<noteq> []"
  shows "load_word m' PRIVATE_INPUT_START_INDEX = Inr (of_nat (length inputs))"
    "load_bytes m' (PRIVATE_INPUT_START_INDEX + 4) (of_nat (length inputs)) = Inr inputs"
proof -
  let ?len = "to_le_bytes 4 (of_nat (length inputs) :: u32)"
  let ?pad = "replicate ((4 - length inputs mod 4) mod 4) (0 :: u8)"
  note st = store_private_inputs_Inr [OF assms]
  then have n: "length inputs \<le> 536870912" by (simp add: MAX_PRIVATE_INPUT_SIZE_def)
  have pad: "length ?pad < 4" by simp
  have wf: "cells_wf m'" and
    ld: "load_byte m' = flat_write (load_byte m) PRIVATE_INPUT_START_INDEX (?len @ inputs @ ?pad)"
    using st(1) by (simp_all add: stores_def)
  have all: "load_seq m' PRIVATE_INPUT_START_INDEX (4 + length inputs + length ?pad) =
      ?len @ inputs @ ?pad"
    using load_seq_flat_write [OF ld] n pad by (simp add: add.assoc)
  have "load_seq m' PRIVATE_INPUT_START_INDEX 4 = ?len \<and>
      load_seq m' (PRIVATE_INPUT_START_INDEX + 4) (length inputs) = inputs"
    using all by (simp add: load_seq_append add.assoc del: length_replicate)
  moreover have "unat (of_nat (length inputs) :: u64) = length inputs"
    using n by (simp add: unat_of_nat_less)
  ultimately show "load_word m' PRIVATE_INPUT_START_INDEX = Inr (of_nat (length inputs))"
    "load_bytes m' (PRIVATE_INPUT_START_INDEX + 4) (of_nat (length inputs)) = Inr inputs"
    using wf n by (simp_all add: load_eqs load_bytes_eq MAX_PRIVATE_INPUT_SIZE_def
        PRIVATE_INPUT_START_INDEX_def ISIZE_MAX_def)
qed

lemma private_input_frame:
  assumes "cells_wf m" "store_private_inputs m inputs = Inr m'" "inputs \<noteq> []"
  shows "\<forall>a. a < PRIVATE_INPUT_START_INDEX \<or> PRIVATE_INPUT_START_INDEX + 8 + of_nat (length inputs) \<le> a
     \<longrightarrow> load_byte m' a = load_byte m a"
proof (intro allI impI)
  fix a
  assume a: "a < PRIVATE_INPUT_START_INDEX \<or> PRIVATE_INPUT_START_INDEX + 8 + of_nat (length inputs) \<le> a"
  let ?bs = "to_le_bytes 4 (of_nat (length inputs) :: u32) @ inputs @ replicate ((4 - length inputs mod 4) mod 4) (0 :: u8)"
  have ld: "load_byte m' = flat_write (load_byte m) PRIVATE_INPUT_START_INDEX ?bs" and n: "length inputs \<le> 536870912"
    using store_private_inputs_Inr [OF assms] by (simp_all add: stores_def MAX_PRIVATE_INPUT_SIZE_def)
  have len: "length ?bs < 8 + length inputs" by simp
  have "unat (of_nat (length inputs) :: u64) = length inputs" using n by (simp add: unat_of_nat_less)
  then have "unat (PRIVATE_INPUT_START_INDEX + 8 + of_nat (length inputs)) = unat PRIVATE_INPUT_START_INDEX + 8 + length inputs"
    using n by (simp add: unat_add_no_overflow PRIVATE_INPUT_START_INDEX_def)
  then have "8 + length inputs \<le> unat (a - PRIVATE_INPUT_START_INDEX)"
    using a n by (auto simp: unat_sub_if' word_less_nat_alt word_le_nat_alt PRIVATE_INPUT_START_INDEX_def)
  then have "\<not> unat (a - PRIVATE_INPUT_START_INDEX) < length ?bs" using len by linarith
  then show "load_byte m' a = load_byte m a" unfolding ld flat_write_def by (rule if_not_P)
qed

lemma flat_write_single: "flat_write f a [v] = f(a := v)"
  by (auto simp: flat_write_def fun_eq_iff unat_eq_zero)

section \<open>Properties\<close>

text \<open>
  C1. Every store is a flat byte write. On a well-formed memory, \<open>store_byte\<close> always writes its
  byte; \<open>store_half\<close>, \<open>store_word\<close> and \<open>store_doubleword\<close> fail with \<open>AddressOverflow\<close> exactly
  when the range runs past the address space, and otherwise change exactly the bytes of the range
  to the little-endian bytes of the value, whether the address takes the aligned cell path or the
  byte-wise path; \<open>set_bytes_aligned\<close> refuses exactly the unaligned addresses and otherwise,
  for a block that fits below the last cell of the address space, writes the block followed by the
  zeros that fill up its last cell, and nothing else.  In every case the cells stay well formed
  and the public output is untouched.
\<close>

theorem store_refines_flat_memory:
  assumes "cells_wf m"
  shows "(let m' = store_byte m a v1
      in cells_wf m' \<and> public_output m' = public_output m \<and> load_byte m' = (load_byte m)(a := v1))
   \<and> (case store_half m a v2 of
       Inl e \<Rightarrow> e = AddressOverflow \<and> 2 ^ 64 \<le> unat a + 1
     | Inr m' \<Rightarrow> unat a + 1 < 2 ^ 64 \<and> cells_wf m' \<and> public_output m' = public_output m
         \<and> load_byte m' = flat_write (load_byte m) a (to_le_bytes 2 v2))
   \<and> (case store_word m a v4 of
       Inl e \<Rightarrow> e = AddressOverflow \<and> 2 ^ 64 \<le> unat a + 3
     | Inr m' \<Rightarrow> unat a + 3 < 2 ^ 64 \<and> cells_wf m' \<and> public_output m' = public_output m
         \<and> load_byte m' = flat_write (load_byte m) a (to_le_bytes 4 v4))
   \<and> (case store_doubleword m a v8 of
       Inl e \<Rightarrow> e = AddressOverflow \<and> 2 ^ 64 \<le> unat a + 7
     | Inr m' \<Rightarrow> unat a + 7 < 2 ^ 64 \<and> cells_wf m' \<and> public_output m' = public_output m
         \<and> load_byte m' = flat_write (load_byte m) a (to_le_bytes 8 v8))
   \<and> (case set_bytes_aligned m a bs of
       Inl e \<Rightarrow> e = UnalignedAccess \<and> a mod 4 \<noteq> 0
     | Inr m' \<Rightarrow> a mod 4 = 0 \<and> (unat a + length bs \<le> 2 ^ 64 - 4 \<longrightarrow>
         cells_wf m' \<and> public_output m' = public_output m
         \<and> load_byte m' = flat_write (load_byte m) a (bs @ replicate ((4 - length bs mod 4) mod 4) 0)))"
proof (intro conjI)
  show "let m' = store_byte m a v1
      in cells_wf m' \<and> public_output m' = public_output m \<and> load_byte m' = (load_byte m)(a := v1)"
    using store_byte_stores [OF assms, of a v1] by (auto simp: Let_def stores_def flat_write_single)
  show "case set_bytes_aligned m a bs of
       Inl e \<Rightarrow> e = UnalignedAccess \<and> a mod 4 \<noteq> 0
     | Inr m' \<Rightarrow> a mod 4 = 0 \<and> (unat a + length bs \<le> 2 ^ 64 - 4 \<longrightarrow>
         cells_wf m' \<and> public_output m' = public_output m
         \<and> load_byte m' = flat_write (load_byte m) a (bs @ replicate ((4 - length bs mod 4) mod 4) 0))"
    using set_chunks_stores [OF assms, of a bs] by (simp add: set_bytes_aligned_def stores_def)
qed (use store_half_eq [OF assms, of a v2] store_word_eq [OF assms, of a v4] store_doubleword_eq [OF assms, of a v8]
    in \<open>auto simp: stores_def\<close>)

theorem store_refines_flat_memory_witness:
  "cells_wf memory_default
   \<and> (case store_word memory_default 0x1002 0xDEADBEEF of
        Inl e \<Rightarrow> False
      | Inr m' \<Rightarrow> load_byte m' 0x1003 = 0xBE \<and> load_byte m' 0x1006 = 0)
   \<and> (case set_bytes_aligned (store_byte memory_default 0x1007 0x55) 0x1000 [1, 2, 3, 4, 5] of
        Inl e \<Rightarrow> False
      | Inr m' \<Rightarrow> load_byte m' 0x1004 = 5 \<and> load_byte m' 0x1007 = 0)"
proof -
  have wf: "cells_wf memory_default" by (simp add: cells_wf_def memory_default_def)
  have z: "load_byte memory_default 0x1006 = 0"
    by (simp add: load_byte_def cell_def memory_default_def)
  have "cells_wf (store_byte memory_default 0x1007 0x55)"
    using store_refines_flat_memory [OF wf, of "0x1007" "0x55"] by (simp add: Let_def)
  from store_refines_flat_memory [OF this, where a = "0x1000" and bs = "[1, 2, 3, 4, 5]", THEN conjunct2, THEN conjunct2, THEN conjunct2, THEN conjunct2]
  have "case set_bytes_aligned (store_byte memory_default 0x1007 0x55) 0x1000 [1, 2, 3, 4, 5] of
        Inl e \<Rightarrow> False
      | Inr m' \<Rightarrow> load_byte m' 0x1004 = 5 \<and> load_byte m' 0x1007 = 0"
    by (cases "set_bytes_aligned (store_byte memory_default 0x1007 0x55) 0x1000 [1, 2, 3, 4, 5]") (simp_all add: flat_write_def)
  moreover have "case store_word memory_default 0x1002 0xDEADBEEF of
        Inl e \<Rightarrow> False | Inr m' \<Rightarrow> load_byte m' 0x1003 = 0xBE \<and> load_byte m' 0x1006 = 0"
    using store_refines_flat_memory [OF wf, where a = "0x1002" and ?v4.0 = "0xDEADBEEF", THEN conjunct2, THEN conjunct2, THEN conjunct1] z
    by (auto simp: flat_write_def nth_to_le_bytes split: sum.splits)
  ultimately show ?thesis using wf by blast
qed







end
