(* ===== verification/Vm_Registers.thy ===== *)
theory Vm_Registers
  imports Vm_Prelude
begin

text \<open>
  The register file (\<^verbatim>\<open>executor/src/vm/registers.rs\<close>) and the per-instruction log record
  (\<^verbatim>\<open>executor/src/vm/logs.rs\<close>).  Register zero is not stored: the file is an array of 31
  values.  The contract of a register file is the locale \<open>register_file\<close>, interpreted on the
  array.
\<close>

section \<open>Data\<close>

type_synonym registers = "u64 list"

datatype RegisterError = InvalidRegister u32

record log =
  current_pc :: u64
  next_pc :: u64
  src1_val :: u64
  src2_val :: u64
  dst_val :: u64

definition STACK_TOP :: u64 where
  "STACK_TOP = 0xFFFFFFFFFFFFFFF0"

section \<open>Operations\<close>

definition registers_default :: registers where
  "registers_default = (replicate 31 0)[1 := STACK_TOP]"

definition reg_read :: "registers \<Rightarrow> u32 \<Rightarrow> (RegisterError, u64) result" where
  "reg_read rs register =
     (if 31 < register then Inl (InvalidRegister register)
      else if register = 0 then Inr 0
      else Inr (rs ! (unat register - 1)))"

definition reg_write :: "registers \<Rightarrow> u32 \<Rightarrow> u64 \<Rightarrow> (RegisterError, registers) result" where
  "reg_write rs register value =
     (if 31 < register then Inl (InvalidRegister register)
      else if register \<noteq> 0 then Inr (rs[unat register - 1 := value])
      else Inr rs)"

definition read_return_values :: "registers \<Rightarrow> u64 \<times> u64" where
  "read_return_values rs = (rs ! 9, rs ! 10)"

section \<open>The contract of a register file\<close>

definition regs_wf :: "registers \<Rightarrow> bool" where
  "regs_wf rs \<longleftrightarrow> length rs = 31"

locale register_file =
  fixes inv :: "'r \<Rightarrow> bool"
    and get :: "'r \<Rightarrow> u32 \<Rightarrow> (RegisterError, u64) result"
    and put :: "'r \<Rightarrow> u32 \<Rightarrow> u64 \<Rightarrow> (RegisterError, 'r) result"
  assumes get_total: "n \<le> 31 \<Longrightarrow> \<exists>v. get r n = Inr v"
    and put_total: "n \<le> 31 \<Longrightarrow> \<exists>r'. put r n v = Inr r'"
    and get_invalid: "31 < n \<Longrightarrow> get r n = Inl (InvalidRegister n)"
    and put_invalid: "31 < n \<Longrightarrow> put r n v = Inl (InvalidRegister n)"
    and put_inv: "inv r \<Longrightarrow> put r n v = Inr r' \<Longrightarrow> inv r'"
    and get_zero: "get r 0 = Inr 0"
    and get_put: "inv r \<Longrightarrow> put r n v = Inr r' \<Longrightarrow> k \<le> 31 \<Longrightarrow>
      get r' k = (if k = n \<and> n \<noteq> 0 then Inr v else get r k)"
begin

text \<open>Two writes to different registers commute as far as reads can tell.\<close>

lemma put_put_commute:
  assumes "inv r" "put r a x = Inr r1" "put r1 b y = Inr r2"
    and "put r b y = Inr q1" "put q1 a x = Inr q2" and "a \<noteq> b"
  shows "get r2 k = get q2 k"
proof (cases "k \<le> 31")
  case True
  have "inv r1" "inv q1" using assms put_inv by blast+
  then show ?thesis
    using assms True get_put [of r a x r1 k] get_put [of r1 b y r2 k]
      get_put [of r b y q1 k] get_put [of q1 a x q2 k] by auto
next
  case False
  then show ?thesis using get_invalid [of k r2] get_invalid [of k q2] by (simp add: not_le)
qed

text \<open>The last of several writes to a register determines what is read from it.\<close>

lemma get_put_same:
  "inv r \<Longrightarrow> put r n v = Inr r' \<Longrightarrow> n \<noteq> 0 \<Longrightarrow> get r' n = Inr v"
  using get_put [of r n v r' n] put_invalid [of n r v] by (cases "n \<le> 31") (auto simp: not_le)

end

lemma unat_reg_bound: "n \<le> 31 \<longleftrightarrow> unat n \<le> 31" "31 < n \<longleftrightarrow> 31 < unat n" for n :: u32
  by (simp_all add: word_le_nat_alt word_less_nat_alt)

lemma unat_reg_minus:
  "n \<noteq> 0 \<Longrightarrow> k \<noteq> 0 \<Longrightarrow> unat n - 1 = unat k - 1 \<longleftrightarrow> n = k" for n k :: u32
  by (metis One_nat_def Suc_pred of_nat_unat_id unat_gt_0)

lemma reg_get_put:
  assumes "regs_wf rs" "reg_write rs n v = Inr rs'" "k \<le> 31"
  shows "reg_read rs' k = (if k = n \<and> n \<noteq> 0 then Inr v else reg_read rs k)"
proof (cases "n = 0 \<or> k = 0")
  case False
  then have "unat k - 1 < 31" using assms(3) by (auto simp: unat_reg_bound)
  then show ?thesis
    using assms False unat_reg_minus [of n k]
    by (auto simp: reg_read_def reg_write_def regs_wf_def unat_reg_bound nth_list_update
        split: if_splits)
qed (use assms in \<open>auto simp: reg_read_def reg_write_def split: if_splits\<close>)

interpretation regs: register_file regs_wf reg_read reg_write
  by unfold_locales
     (auto simp: reg_get_put, auto simp: reg_read_def reg_write_def regs_wf_def split: if_splits)

lemma registers_default_wf [simp]: "regs_wf registers_default"
  by (simp add: regs_wf_def registers_default_def)

lemma reg_write_wf: "regs_wf rs \<Longrightarrow> reg_write rs n v = Inr rs' \<Longrightarrow> regs_wf rs'"
  by (rule regs.put_inv)

section \<open>Properties\<close>

text \<open>
  Register file laws. A successful write to register \<open>n\<close> changes exactly what is read from
  \<open>n\<close>, a write to register zero changes nothing, register zero always reads as zero, and
  reads and writes fail exactly for register numbers above 31.
\<close>

theorem register_file_laws:
  assumes "regs_wf rs"
  shows "(case reg_write rs n v of
      Inl e \<Rightarrow> 31 < n \<and> e = InvalidRegister n
    | Inr rs' \<Rightarrow> n \<le> 31 \<and> regs_wf rs' \<and> (n = 0 \<longrightarrow> rs' = rs)
        \<and> (\<forall>k. reg_read rs' k = (if k = n \<and> n \<noteq> 0 then Inr v else reg_read rs k)))
   \<and> reg_read rs 0 = Inr 0
   \<and> (reg_read rs n = Inl (InvalidRegister n) \<longleftrightarrow> 31 < n)"
proof (cases "reg_write rs n v")
  case (Inl e)
  then show ?thesis by (auto simp: reg_write_def reg_read_def split: if_splits)
next
  case (Inr rs')
  then have n: "n \<le> 31" by (auto simp: reg_write_def split: if_splits)
  have "reg_read rs' k = (if k = n \<and> n \<noteq> 0 then Inr v else reg_read rs k)" for k
    using regs.get_put [OF assms Inr, of k] regs.get_invalid [of k] n by (cases "k \<le> 31") auto
  then show ?thesis
    using Inr n reg_write_wf [OF assms Inr]
    by (auto simp: reg_read_def) (auto simp: reg_write_def split: if_splits)
qed

end
