(* ===== verification/Vm_Decoding.thy ===== *)
theory Vm_Decoding
  imports Vm_Prelude
begin

text \<open>
  The instruction decoder (\<^verbatim>\<open>executor/src/vm/instruction/decoding.rs\<close>): opcodes, the six
  instruction formats and the validity checks of each.  Immediates are \<open>i32\<close> values and are
  kept as 32-bit words read as two's complement.  An encoder written from the RISC-V format
  tables serves as the specification: decoding is a left inverse of it, and every decoded
  instruction is in its domain.
\<close>

section \<open>Data\<close>

datatype Opcode =
  OpArith | OpArithImm | OpLoad | OpStore | OpBranch | OpJumpAndLinkRegister | OpJumpAndLink
  | OpLoadUpperImm | OpAddUpperImmToPc | OpSystem | OpArithImm32 | OpArith32 | OpFence

datatype InstructionFormat = FmtR | FmtI | FmtS | FmtB | FmtU | FmtJ

datatype ArithOp =
  Add | Sub | Xor | Or | And | ShiftLeftLogical | ShiftRightLogical | ShiftRightArith
  | SetLessThan | SetLessThanU | Mul | MulHigh | MulHighSignedUnsigned | MulHighUnsigned
  | Div | DivUnsigned | Remainder | RemainderUnsigned

datatype LoadStoreWidth =
  Byte | Half | Word | DoubleWord | ByteUnsigned | HalfUnsigned | WordUnsigned

datatype Comparison =
  Equal | NotEqual | LessThan | GreaterOrEqual | LessThanUnsigned | GreaterOrEqualUnsigned

datatype CsrOp = CSRRW | CSRRS | CSRRC | CSRRWI | CSRRSI | CSRRCI

text \<open>The operands are in the order of the fields of the Rust variants: for example
  \<open>Arith dst src1 src2 op\<close>, \<open>Store src offset base width\<close>,
  \<open>JumpAndLinkRegister base dst offset\<close> and \<open>CSR csr src dst op\<close>.\<close>

datatype Instruction =
  Arith u32 u32 u32 ArithOp
  | ArithImm u32 u32 u32 ArithOp
  | ArithW u32 u32 u32 ArithOp
  | ArithImmW u32 u32 u32 ArithOp
  | JumpAndLink u32 u32
  | JumpAndLinkRegister u32 u32 u32
  | Store u32 u32 u32 LoadStoreWidth
  | Load u32 u32 u32 LoadStoreWidth
  | Branch u32 u32 Comparison u32
  | LoadUpperImm u32 u32
  | AddUpperImmToPc u32 u32
  | CSR u32 u32 u32 CsrOp
  | EcallEbreak
  | Fence

datatype InstructionError =
  UnknownOpcode u32
  | UnknownOpcodeFuncIdentifier Opcode u32
  | InvalidInstruction
  | InvalidLoadStoreWidth u32
  | UnknownSRVariant u32
  | UnknownSLVariant u32
  | InvalidJALR
  | InvalidSystemInstruction u32
  | InvalidW32Instruction

section \<open>Opcodes, formats and widths\<close>

definition opcode_try_from :: "u32 \<Rightarrow> (InstructionError, Opcode) result" where
  "opcode_try_from value =
     (if value = 0b0110011 then Inr OpArith
      else if value = 0b0010011 then Inr OpArithImm
      else if value = 0b0000011 then Inr OpLoad
      else if value = 0b0100011 then Inr OpStore
      else if value = 0b1100011 then Inr OpBranch
      else if value = 0b1100111 then Inr OpJumpAndLinkRegister
      else if value = 0b1101111 then Inr OpJumpAndLink
      else if value = 0b0110111 then Inr OpLoadUpperImm
      else if value = 0b0010111 then Inr OpAddUpperImmToPc
      else if value = 0b1110011 then Inr OpSystem
      else if value = 0b0001111 then Inr OpFence
      else if value = 0b0011011 then Inr OpArithImm32
      else if value = 0b0111011 then Inr OpArith32
      else Inl (UnknownOpcode value))"

fun instruction_format :: "Opcode \<Rightarrow> InstructionFormat" where
  "instruction_format OpArith = FmtR"
| "instruction_format OpArith32 = FmtR"
| "instruction_format OpArithImm = FmtI"
| "instruction_format OpArithImm32 = FmtI"
| "instruction_format OpLoad = FmtI"
| "instruction_format OpJumpAndLinkRegister = FmtI"
| "instruction_format OpSystem = FmtI"
| "instruction_format OpFence = FmtI"
| "instruction_format OpStore = FmtS"
| "instruction_format OpBranch = FmtB"
| "instruction_format OpJumpAndLink = FmtJ"
| "instruction_format OpLoadUpperImm = FmtU"
| "instruction_format OpAddUpperImmToPc = FmtU"

definition from_func3 :: "u32 \<Rightarrow> (InstructionError, LoadStoreWidth) result" where
  "from_func3 func3 =
     (if func3 = 0 then Inr Byte
      else if func3 = 1 then Inr Half
      else if func3 = 2 then Inr Word
      else if func3 = 3 then Inr DoubleWord
      else if func3 = 4 then Inr ByteUnsigned
      else if func3 = 5 then Inr HalfUnsigned
      else if func3 = 6 then Inr WordUnsigned
      else Inl (InvalidLoadStoreWidth func3))"

definition from_func3_store :: "u32 \<Rightarrow> (InstructionError, LoadStoreWidth) result" where
  "from_func3_store func3 =
     (if func3 = 0 then Inr Byte
      else if func3 = 1 then Inr Half
      else if func3 = 2 then Inr Word
      else if func3 = 3 then Inr DoubleWord
      else Inl (InvalidLoadStoreWidth func3))"

section \<open>Fields\<close>

definition OPCODE_MASK :: u32 where "OPCODE_MASK = 0x0000007f"
definition FUNC7_MASK :: u32 where "FUNC7_MASK = 0xfe000000"
definition FUNC3_MASK :: u32 where "FUNC3_MASK = 0x00007000"
definition RS1_MASK :: u32 where "RS1_MASK = 0x000f8000"
definition RS2_MASK :: u32 where "RS2_MASK = 0x01f00000"
definition RD_MASK :: u32 where "RD_MASK = 0x00000f80"
definition SIGN_MASK :: u32 where "SIGN_MASK = 0x80000000"
definition I_TYPE_IMM_MASK :: u32 where "I_TYPE_IMM_MASK = 0xfff"
definition U_TYPE_IMM_MASK :: u32 where "U_TYPE_IMM_MASK = 0xfffff000"

definition parse_opcode :: "u32 \<Rightarrow> (InstructionError, Opcode) result" where
  "parse_opcode instruction = opcode_try_from (instruction AND OPCODE_MASK)"

section \<open>One parser per format\<close>

text \<open>The match on \<open>(func3, func7)\<close> of the R format.\<close>

definition r_operation :: "u32 \<Rightarrow> u32 \<Rightarrow> ArithOp option" where
  "r_operation func3 func7 =
     (if (func3, func7) = (0x0, 0x00) then Some Add
      else if (func3, func7) = (0x0, 0x20) then Some Sub
      else if (func3, func7) = (0x4, 0x00) then Some Xor
      else if (func3, func7) = (0x6, 0x00) then Some Or
      else if (func3, func7) = (0x7, 0x00) then Some And
      else if (func3, func7) = (0x1, 0x00) then Some ShiftLeftLogical
      else if (func3, func7) = (0x5, 0x00) then Some ShiftRightLogical
      else if (func3, func7) = (0x5, 0x20) then Some ShiftRightArith
      else if (func3, func7) = (0x2, 0x00) then Some SetLessThan
      else if (func3, func7) = (0x3, 0x00) then Some SetLessThanU
      else if (func3, func7) = (0x0, 0x01) then Some Mul
      else if (func3, func7) = (0x1, 0x01) then Some MulHigh
      else if (func3, func7) = (0x2, 0x01) then Some MulHighSignedUnsigned
      else if (func3, func7) = (0x3, 0x01) then Some MulHighUnsigned
      else if (func3, func7) = (0x4, 0x01) then Some Div
      else if (func3, func7) = (0x5, 0x01) then Some DivUnsigned
      else if (func3, func7) = (0x6, 0x01) then Some Remainder
      else if (func3, func7) = (0x7, 0x01) then Some RemainderUnsigned
      else None)"

text \<open>The operations a W-suffix register instruction supports.\<close>

definition w_supported :: "ArithOp \<Rightarrow> bool" where
  "w_supported oper \<longleftrightarrow> oper \<in> {Add, Sub, ShiftLeftLogical, ShiftRightLogical, ShiftRightArith,
     Mul, Div, DivUnsigned, Remainder, RemainderUnsigned}"

definition parse_r_instruction :: "u32 \<Rightarrow> Opcode \<Rightarrow> (InstructionError, Instruction) result" where
  "parse_r_instruction instruction opcode =
     (let func7 = drop_bit 25 (instruction AND FUNC7_MASK);
          func3 = drop_bit 12 (instruction AND FUNC3_MASK);
          rs2 = drop_bit 20 (instruction AND RS2_MASK);
          rs1 = drop_bit 15 (instruction AND RS1_MASK);
          rd = drop_bit 7 (instruction AND RD_MASK)
      in rbind (ok_or (UnknownOpcodeFuncIdentifier opcode func3) (r_operation func3 func7))
         (\<lambda>operation.
           (case opcode of
              OpArith \<Rightarrow> Inr (Arith rd rs1 rs2 operation)
            | OpArith32 \<Rightarrow>
                (if w_supported operation then Inr (ArithW rd rs1 rs2 operation)
                 else Inl InvalidW32Instruction)
            | _ \<Rightarrow> Inl InvalidInstruction)))"

text \<open>The immediate arithmetic instructions: the operation and the immediate, whose function
  bits are checked and removed for shifts.\<close>

definition arith_imm_operation ::
  "Opcode \<Rightarrow> u32 \<Rightarrow> u32 \<Rightarrow> (InstructionError, ArithOp \<times> u32) result" where
  "arith_imm_operation opcode func3 imm =
     (if func3 = 0x0 then Inr (Add, imm)
      else if func3 = 0x4 then Inr (Xor, imm)
      else if func3 = 0x6 then Inr (Or, imm)
      else if func3 = 0x7 then Inr (And, imm)
      else if func3 = 0x1 then
        (let func_id = signed_drop_bit 6 imm
         in if func_id \<noteq> 0 then Inl (UnknownSLVariant func_id)
            else Inr (ShiftLeftLogical, imm AND 0x3F))
      else if func3 = 0x5 then
        (let func_id = signed_drop_bit 6 imm; imm' = imm AND 0x3F
         in if func_id = 0x00 then Inr (ShiftRightLogical, imm')
            else if func_id = 0x10 then Inr (ShiftRightArith, imm')
            else Inl (UnknownSRVariant func_id))
      else if func3 = 0x2 then Inr (SetLessThan, imm)
      else if func3 = 0x3 then Inr (SetLessThanU, imm)
      else Inl (UnknownOpcodeFuncIdentifier opcode func3))"

definition arith_imm32_operation ::
  "u32 \<Rightarrow> u32 \<Rightarrow> (InstructionError, ArithOp \<times> u32) result" where
  "arith_imm32_operation func3 imm =
     (if func3 = 0x0 then Inr (Add, imm)
      else if func3 = 0x1 then
        (let func_id = signed_drop_bit 5 imm
         in if func_id \<noteq> 0 then Inl (UnknownSLVariant func_id)
            else Inr (ShiftLeftLogical, imm AND 0x1F))
      else if func3 = 0x5 then
        (let func_id = signed_drop_bit 5 imm; imm' = imm AND 0x1F
         in if func_id = 0x00 then Inr (ShiftRightLogical, imm')
            else if func_id = 0x20 then Inr (ShiftRightArith, imm')
            else Inl (UnknownSRVariant func_id))
      else Inl InvalidW32Instruction)"

definition parse_i_instruction :: "u32 \<Rightarrow> Opcode \<Rightarrow> (InstructionError, Instruction) result" where
  "parse_i_instruction instruction opcode =
     (let func3 = drop_bit 12 (instruction AND FUNC3_MASK);
          rs1 = drop_bit 15 (instruction AND RS1_MASK);
          csr = drop_bit 20 instruction AND I_TYPE_IMM_MASK;
          imm = (if instruction AND SIGN_MASK \<noteq> 0 then csr - push_bit 12 1 else csr);
          rd = drop_bit 7 (instruction AND RD_MASK)
      in (case opcode of
            OpArithImm \<Rightarrow> rbind (arith_imm_operation opcode func3 imm) (\<lambda>(operation, imm').
              Inr (ArithImm rd rs1 imm' operation))
          | OpArithImm32 \<Rightarrow> rbind (arith_imm32_operation func3 imm) (\<lambda>(operation, imm').
              Inr (ArithImmW rd rs1 imm' operation))
          | OpJumpAndLinkRegister \<Rightarrow>
              (if func3 \<noteq> 0x00 then Inl InvalidJALR else Inr (JumpAndLinkRegister rs1 rd imm))
          | OpLoad \<Rightarrow> rbind (from_func3 func3) (\<lambda>width. Inr (Load rd imm rs1 width))
          | OpSystem \<Rightarrow>
              (if func3 = 0x0 then Inr EcallEbreak
               else if func3 = 0x7 then Inr (CSR csr rs1 rd CSRRCI)
               else if func3 = 0x2 then Inr (CSR csr rs1 rd CSRRS)
               else if func3 = 0x1 then Inr (CSR csr rs1 rd CSRRW)
               else if func3 = 0x3 \<or> func3 = 0x5 \<or> func3 = 0x6
               then Inl (InvalidSystemInstruction func3)
               else Inl (UnknownOpcodeFuncIdentifier opcode func3))
          | OpFence \<Rightarrow> Inr Fence
          | _ \<Rightarrow> Inl InvalidInstruction))"

definition parse_s_instruction :: "u32 \<Rightarrow> Opcode \<Rightarrow> (InstructionError, Instruction) result" where
  "parse_s_instruction instruction opcode =
     (let func7 = push_bit 5 (drop_bit 25 (instruction AND FUNC7_MASK));
          func3 = drop_bit 12 (instruction AND FUNC3_MASK);
          rs2 = drop_bit 20 (instruction AND RS2_MASK);
          rs1 = drop_bit 15 (instruction AND RS1_MASK);
          rd = drop_bit 7 (instruction AND RD_MASK);
          imm = func7 OR rd;
          imm = (if instruction AND SIGN_MASK \<noteq> 0 then imm - push_bit 12 1 else imm)
      in (case opcode of
            OpStore \<Rightarrow> rbind (from_func3_store func3) (\<lambda>width. Inr (Store rs2 imm rs1 width))
          | _ \<Rightarrow> Inl InvalidInstruction))"

definition b_comparison :: "u32 \<Rightarrow> Comparison option" where
  "b_comparison func3 =
     (if func3 = 0x0 then Some Equal
      else if func3 = 0x1 then Some NotEqual
      else if func3 = 0x4 then Some LessThan
      else if func3 = 0x5 then Some GreaterOrEqual
      else if func3 = 0x6 then Some LessThanUnsigned
      else if func3 = 0x7 then Some GreaterOrEqualUnsigned
      else None)"

definition parse_b_instruction :: "u32 \<Rightarrow> Opcode \<Rightarrow> (InstructionError, Instruction) result" where
  "parse_b_instruction instruction opcode =
     (let func3 = drop_bit 12 (instruction AND FUNC3_MASK);
          rs2 = drop_bit 20 (instruction AND RS2_MASK);
          rs1 = drop_bit 15 (instruction AND RS1_MASK);
          imm = (drop_bit 20 instruction AND 0x7e0) OR (drop_bit 7 instruction AND 0x1e)
                OR push_bit 4 (instruction AND 0x80);
          imm = (if instruction AND SIGN_MASK \<noteq> 0 then imm + 0xFFFFF000 else imm)
      in (case opcode of
            OpBranch \<Rightarrow>
              rbind (ok_or (UnknownOpcodeFuncIdentifier opcode func3) (b_comparison func3))
                (\<lambda>comparison. Inr (Branch rs1 rs2 comparison imm))
          | _ \<Rightarrow> Inl InvalidInstruction))"

definition parse_j_instruction :: "u32 \<Rightarrow> Opcode \<Rightarrow> (InstructionError, Instruction) result" where
  "parse_j_instruction instruction opcode =
     (let imm = (instruction AND 0xff000) OR drop_bit 9 (instruction AND 0x100000)
                OR (drop_bit 20 instruction AND 0x7fe);
          imm = (if instruction AND SIGN_MASK \<noteq> 0 then imm - push_bit 20 1 else imm);
          rd = drop_bit 7 (instruction AND RD_MASK)
      in (case opcode of
            OpJumpAndLink \<Rightarrow> Inr (JumpAndLink rd imm)
          | _ \<Rightarrow> Inl InvalidInstruction))"

definition parse_u_instruction :: "u32 \<Rightarrow> Opcode \<Rightarrow> (InstructionError, Instruction) result" where
  "parse_u_instruction instruction opcode =
     (let imm = instruction AND U_TYPE_IMM_MASK;
          rd = drop_bit 7 (instruction AND RD_MASK)
      in (case opcode of
            OpLoadUpperImm \<Rightarrow> Inr (LoadUpperImm rd imm)
          | OpAddUpperImmToPc \<Rightarrow> Inr (AddUpperImmToPc rd imm)
          | _ \<Rightarrow> Inl InvalidInstruction))"

definition parse :: "u32 \<Rightarrow> (InstructionError, Instruction) result" where
  "parse instruction =
     rbind (parse_opcode instruction) (\<lambda>opcode.
       (case instruction_format opcode of
          FmtR \<Rightarrow> parse_r_instruction instruction opcode
        | FmtI \<Rightarrow> parse_i_instruction instruction opcode
        | FmtS \<Rightarrow> parse_s_instruction instruction opcode
        | FmtB \<Rightarrow> parse_b_instruction instruction opcode
        | FmtJ \<Rightarrow> parse_j_instruction instruction opcode
        | FmtU \<Rightarrow> parse_u_instruction instruction opcode))"

section \<open>The encoder of the instruction formats\<close>

text \<open>The RISC-V formats, as the specification of the decoder: six fields of 7, 5, 3, 5, 5 and
  7 bits, or an opcode, a register and a 20-bit field for the U and J formats.\<close>

definition pack :: "u32 \<Rightarrow> u32 \<Rightarrow> u32 \<Rightarrow> u32 \<Rightarrow> u32 \<Rightarrow> u32 \<Rightarrow> u32" where
  "pack opc rd f3 rs1 rs2 f7 =
     opc OR push_bit 7 rd OR push_bit 12 f3 OR push_bit 15 rs1 OR push_bit 20 rs2
       OR push_bit 25 f7"

definition pack_u :: "u32 \<Rightarrow> u32 \<Rightarrow> u32 \<Rightarrow> u32" where
  "pack_u opc rd f20 = opc OR push_bit 7 rd OR push_bit 12 f20"

text \<open>\<open>slice_at k n w\<close>: bits \<open>k\<close> to \<open>k + n - 1\<close> of \<open>w\<close>.\<close>

definition slice_at :: "nat \<Rightarrow> nat \<Rightarrow> u32 \<Rightarrow> u32" where
  "slice_at k n w = take_bit n (drop_bit k w)"

definition enc_i :: "u32 \<Rightarrow> u32 \<Rightarrow> u32 \<Rightarrow> u32 \<Rightarrow> u32 \<Rightarrow> u32" where
  "enc_i opc rd f3 rs1 imm = pack opc rd f3 rs1 (slice_at 0 5 imm) (slice_at 5 7 imm)"

definition enc_s :: "u32 \<Rightarrow> u32 \<Rightarrow> u32 \<Rightarrow> u32 \<Rightarrow> u32 \<Rightarrow> u32" where
  "enc_s opc f3 rs1 rs2 imm = pack opc (slice_at 0 5 imm) f3 rs1 rs2 (slice_at 5 7 imm)"

definition enc_b :: "u32 \<Rightarrow> u32 \<Rightarrow> u32 \<Rightarrow> u32 \<Rightarrow> u32 \<Rightarrow> u32" where
  "enc_b opc f3 rs1 rs2 imm =
     pack opc (push_bit 1 (slice_at 1 4 imm) OR slice_at 11 1 imm) f3 rs1 rs2
       (push_bit 6 (slice_at 12 1 imm) OR slice_at 5 6 imm)"

definition enc_j :: "u32 \<Rightarrow> u32 \<Rightarrow> u32 \<Rightarrow> u32" where
  "enc_j opc rd imm =
     pack_u opc rd (slice_at 12 8 imm OR push_bit 8 (slice_at 11 1 imm)
       OR push_bit 9 (slice_at 1 10 imm) OR push_bit 19 (slice_at 20 1 imm))"

fun r_funcs :: "ArithOp \<Rightarrow> u32 \<times> u32" where
  "r_funcs Add = (0, 0)"
| "r_funcs Sub = (0, 0x20)"
| "r_funcs Xor = (4, 0)"
| "r_funcs Or = (6, 0)"
| "r_funcs And = (7, 0)"
| "r_funcs ShiftLeftLogical = (1, 0)"
| "r_funcs ShiftRightLogical = (5, 0)"
| "r_funcs ShiftRightArith = (5, 0x20)"
| "r_funcs SetLessThan = (2, 0)"
| "r_funcs SetLessThanU = (3, 0)"
| "r_funcs Mul = (0, 1)"
| "r_funcs MulHigh = (1, 1)"
| "r_funcs MulHighSignedUnsigned = (2, 1)"
| "r_funcs MulHighUnsigned = (3, 1)"
| "r_funcs Div = (4, 1)"
| "r_funcs DivUnsigned = (5, 1)"
| "r_funcs Remainder = (6, 1)"
| "r_funcs RemainderUnsigned = (7, 1)"

fun width_func3 :: "LoadStoreWidth \<Rightarrow> u32" where
  "width_func3 Byte = 0"
| "width_func3 Half = 1"
| "width_func3 Word = 2"
| "width_func3 DoubleWord = 3"
| "width_func3 ByteUnsigned = 4"
| "width_func3 HalfUnsigned = 5"
| "width_func3 WordUnsigned = 6"

fun comparison_func3 :: "Comparison \<Rightarrow> u32" where
  "comparison_func3 Equal = 0"
| "comparison_func3 NotEqual = 1"
| "comparison_func3 LessThan = 4"
| "comparison_func3 GreaterOrEqual = 5"
| "comparison_func3 LessThanUnsigned = 6"
| "comparison_func3 GreaterOrEqualUnsigned = 7"

fun csr_func3 :: "CsrOp \<Rightarrow> u32" where
  "csr_func3 CSRRW = 1"
| "csr_func3 CSRRS = 2"
| "csr_func3 CSRRC = 3"
| "csr_func3 CSRRWI = 5"
| "csr_func3 CSRRSI = 6"
| "csr_func3 CSRRCI = 7"

text \<open>Bit 10 of the immediate distinguishes the arithmetic from the logical right shift.\<close>

definition shift_imm :: "ArithOp \<Rightarrow> u32 \<Rightarrow> u32" where
  "shift_imm oper imm = (if oper = ShiftRightArith then imm OR push_bit 10 1 else imm)"

fun encode :: "Instruction \<Rightarrow> u32" where
  "encode (Arith dst src1 src2 oper) =
     (case r_funcs oper of (f3, f7) \<Rightarrow> pack 0x33 dst f3 src1 src2 f7)"
| "encode (ArithW dst src1 src2 oper) =
     (case r_funcs oper of (f3, f7) \<Rightarrow> pack 0x3B dst f3 src1 src2 f7)"
| "encode (ArithImm dst src imm oper) =
     enc_i 0x13 dst (fst (r_funcs oper)) src (shift_imm oper imm)"
| "encode (ArithImmW dst src imm oper) =
     enc_i 0x1B dst (fst (r_funcs oper)) src (shift_imm oper imm)"
| "encode (JumpAndLink dst offset) = enc_j 0x6F dst offset"
| "encode (JumpAndLinkRegister base dst offset) = enc_i 0x67 dst 0 base offset"
| "encode (Store src offset base width) = enc_s 0x23 (width_func3 width) base src offset"
| "encode (Load dst offset base width) = enc_i 0x03 dst (width_func3 width) base offset"
| "encode (Branch src1 src2 cond offset) = enc_b 0x63 (comparison_func3 cond) src1 src2 offset"
| "encode (LoadUpperImm dst imm) = pack_u 0x37 dst (drop_bit 12 imm)"
| "encode (AddUpperImmToPc dst imm) = pack_u 0x17 dst (drop_bit 12 imm)"
| "encode (CSR csr src dst oper) = enc_i 0x73 dst (csr_func3 oper) src csr"
| "encode EcallEbreak = 0x73"
| "encode Fence = 0x0F"

text \<open>A 32-bit word that is the sign extension of its low \<open>Suc n\<close> bits.\<close>

definition sext_of :: "nat \<Rightarrow> u32 \<Rightarrow> bool" where
  "sext_of n w \<longleftrightarrow> signed_take_bit n w = w"

definition is_shift :: "ArithOp \<Rightarrow> bool" where
  "is_shift oper \<longleftrightarrow> oper \<in> {ShiftLeftLogical, ShiftRightLogical, ShiftRightArith}"

fun instr_valid :: "Instruction \<Rightarrow> bool" where
  "instr_valid (Arith dst src1 src2 oper) \<longleftrightarrow> dst < 32 \<and> src1 < 32 \<and> src2 < 32"
| "instr_valid (ArithW dst src1 src2 oper) \<longleftrightarrow> dst < 32 \<and> src1 < 32 \<and> src2 < 32 \<and> w_supported oper"
| "instr_valid (ArithImm dst src imm oper) \<longleftrightarrow> dst < 32 \<and> src < 32
     \<and> oper \<in> {Add, Xor, Or, And, ShiftLeftLogical, ShiftRightLogical, ShiftRightArith,
        SetLessThan, SetLessThanU}
     \<and> (if is_shift oper then imm < 64 else sext_of 11 imm)"
| "instr_valid (ArithImmW dst src imm oper) \<longleftrightarrow> dst < 32 \<and> src < 32
     \<and> oper \<in> {Add, ShiftLeftLogical, ShiftRightLogical, ShiftRightArith}
     \<and> (if is_shift oper then imm < 32 else sext_of 11 imm)"
| "instr_valid (JumpAndLink dst offset) \<longleftrightarrow> dst < 32 \<and> sext_of 20 offset \<and> even offset"
| "instr_valid (JumpAndLinkRegister base dst offset) \<longleftrightarrow> base < 32 \<and> dst < 32 \<and> sext_of 11 offset"
| "instr_valid (Store src offset base width) \<longleftrightarrow> src < 32 \<and> base < 32 \<and> sext_of 11 offset
     \<and> width \<in> {Byte, Half, Word, DoubleWord}"
| "instr_valid (Load dst offset base width) \<longleftrightarrow> dst < 32 \<and> base < 32 \<and> sext_of 11 offset"
| "instr_valid (Branch src1 src2 cond offset) \<longleftrightarrow> src1 < 32 \<and> src2 < 32 \<and> sext_of 12 offset
     \<and> even offset"
| "instr_valid (LoadUpperImm dst imm) \<longleftrightarrow> dst < 32 \<and> take_bit 12 imm = 0"
| "instr_valid (AddUpperImmToPc dst imm) \<longleftrightarrow> dst < 32 \<and> take_bit 12 imm = 0"
| "instr_valid (CSR csr src dst oper) \<longleftrightarrow> csr < 4096 \<and> src < 32 \<and> dst < 32
     \<and> oper \<in> {CSRRW, CSRRS, CSRRCI}"
| "instr_valid EcallEbreak \<longleftrightarrow> True"
| "instr_valid Fence \<longleftrightarrow> True"

section \<open>Fields of packed words\<close>

lemma drop_and_mask: "drop_bit k (w AND push_bit k (mask n)) = slice_at k n w"
  by (rule bit_word_eqI) (auto simp: slice_at_def bit_simps dest: bit_imp_le_length)

lemma and_mask_drop: "drop_bit k w AND mask n = slice_at k n w"
  by (rule bit_word_eqI) (auto simp: slice_at_def bit_simps)

lemma mask_fields:
  "drop_bit 25 (w AND FUNC7_MASK) = slice_at 25 7 w"
  "drop_bit 12 (w AND FUNC3_MASK) = slice_at 12 3 w"
  "drop_bit 20 (w AND RS2_MASK) = slice_at 20 5 w"
  "drop_bit 15 (w AND RS1_MASK) = slice_at 15 5 w"
  "drop_bit 7 (w AND RD_MASK) = slice_at 7 5 w"
  "w AND OPCODE_MASK = slice_at 0 7 w"
  "drop_bit 20 w AND I_TYPE_IMM_MASK = slice_at 20 12 w"
  using drop_and_mask [of 25 w 7] drop_and_mask [of 12 w 3] drop_and_mask [of 20 w 5]
    drop_and_mask [of 15 w 5] drop_and_mask [of 7 w 5] drop_and_mask [of 0 w 7]
    and_mask_drop [of 20 w 12]
  by (simp_all add: FUNC7_MASK_def FUNC3_MASK_def RS2_MASK_def RS1_MASK_def RD_MASK_def
      OPCODE_MASK_def I_TYPE_IMM_MASK_def mask_eq_exp_minus_1 push_bit_eq_mult)

lemma sign_mask: "w AND SIGN_MASK \<noteq> 0 \<longleftrightarrow> bit w 31" for w :: u32
  using and_exp_eq_0_iff_not_bit [of w 31] by (simp add: SIGN_MASK_def)

lemma less_exp_bit: "w < 2 ^ n \<Longrightarrow> n < 32 \<Longrightarrow> bit w i \<Longrightarrow> i < n" for w :: u32
proof -
  assume w: "w < 2 ^ n" and n: "n < 32" and b: "bit w i"
  have "unat (2 ^ n :: u32) = 2 ^ n" using n by (simp add: unat_2p)
  then have "unat w < 2 ^ n" using w by (simp add: word_less_nat_alt)
  then have "take_bit n (unat w) = unat w" by (rule take_bit_nat_eq_self)
  moreover have "bit (unat w) i" using b by (simp add: bit_unsigned_iff)
  ultimately show "i < n" by (metis bit_take_bit_iff)
qed

lemma slice_at_less: "n < 32 \<Longrightarrow> slice_at k n w < 2 ^ n"
proof -
  assume n: "n < 32"
  have "unat (slice_at k n w) < 2 ^ n"
    unfolding slice_at_def by (simp add: unsigned_take_bit_eq take_bit_nat_less_exp)
  then show ?thesis using n by (simp add: word_less_nat_alt unat_2p)
qed

lemma bit_pack:
  assumes "opc < 128" "rd < 32" "f3 < 8" "rs1 < 32" "rs2 < 32" "f7 < 128"
  shows "bit (pack opc rd f3 rs1 rs2 f7) n \<longleftrightarrow>
    (if n < 7 then bit opc n else if n < 12 then bit rd (n - 7) else if n < 15 then bit f3 (n - 12)
     else if n < 20 then bit rs1 (n - 15) else if n < 25 then bit rs2 (n - 20)
     else n < 32 \<and> bit f7 (n - 25))"
proof -
  have "7 \<le> i \<Longrightarrow> \<not> bit opc i" "5 \<le> i \<Longrightarrow> \<not> bit rd i" "3 \<le> i \<Longrightarrow> \<not> bit f3 i"
    "5 \<le> i \<Longrightarrow> \<not> bit rs1 i" "5 \<le> i \<Longrightarrow> \<not> bit rs2 i" for i
    using less_exp_bit [of opc 7 i] less_exp_bit [of rd 5 i] less_exp_bit [of f3 3 i]
      less_exp_bit [of rs1 5 i] less_exp_bit [of rs2 5 i] assms by auto
  then show ?thesis by (auto simp: pack_def bit_simps)
qed

lemma slice_pack:
  assumes "opc < 128" "rd < 32" "f3 < 8" "rs1 < 32" "rs2 < 32" "f7 < 128"
  shows "slice_at 0 7 (pack opc rd f3 rs1 rs2 f7) = opc"
    "slice_at 7 5 (pack opc rd f3 rs1 rs2 f7) = rd"
    "slice_at 12 3 (pack opc rd f3 rs1 rs2 f7) = f3"
    "slice_at 15 5 (pack opc rd f3 rs1 rs2 f7) = rs1"
    "slice_at 20 5 (pack opc rd f3 rs1 rs2 f7) = rs2"
    "slice_at 25 7 (pack opc rd f3 rs1 rs2 f7) = f7"
    "slice_at 20 12 (pack opc rd f3 rs1 rs2 f7) = rs2 OR push_bit 5 f7"
    "bit (pack opc rd f3 rs1 rs2 f7) 31 = bit f7 6"
proof -
  have no: "7 \<le> i \<Longrightarrow> \<not> bit opc i" "5 \<le> i \<Longrightarrow> \<not> bit rd i" "3 \<le> i \<Longrightarrow> \<not> bit f3 i"
    "5 \<le> i \<Longrightarrow> \<not> bit rs1 i" "5 \<le> i \<Longrightarrow> \<not> bit rs2 i" "7 \<le> i \<Longrightarrow> \<not> bit f7 i" for i
    using less_exp_bit [of opc 7 i] less_exp_bit [of rd 5 i] less_exp_bit [of f3 3 i]
      less_exp_bit [of rs1 5 i] less_exp_bit [of rs2 5 i] less_exp_bit [of f7 7 i] assms by auto
  have lt7: "5 \<le> n \<Longrightarrow> bit f7 (n - 5) \<Longrightarrow> n < 12" for n
    using less_exp_bit [of f7 7 "n - 5"] assms by simp
  note bits = slice_at_def bit_simps bit_pack [OF assms]
  show "slice_at 0 7 (pack opc rd f3 rs1 rs2 f7) = opc"
    by (rule bit_word_eqI) (use no(1) in \<open>auto simp: bits not_less\<close>)
  show "slice_at 7 5 (pack opc rd f3 rs1 rs2 f7) = rd"
    by (rule bit_word_eqI) (use no(2) in \<open>auto simp: bits not_less\<close>)
  show "slice_at 12 3 (pack opc rd f3 rs1 rs2 f7) = f3"
    by (rule bit_word_eqI) (use no(3) in \<open>auto simp: bits not_less\<close>)
  show "slice_at 15 5 (pack opc rd f3 rs1 rs2 f7) = rs1"
    by (rule bit_word_eqI) (use no(4) in \<open>auto simp: bits not_less\<close>)
  show "slice_at 20 5 (pack opc rd f3 rs1 rs2 f7) = rs2"
    by (rule bit_word_eqI) (use no(5) in \<open>auto simp: bits not_less\<close>)
  show "slice_at 25 7 (pack opc rd f3 rs1 rs2 f7) = f7"
    by (rule bit_word_eqI) (use less_exp_bit [of f7 7] assms in \<open>auto simp: bits\<close>)
  show "slice_at 20 12 (pack opc rd f3 rs1 rs2 f7) = rs2 OR push_bit 5 f7"
    by (rule bit_word_eqI) (use no(5) in \<open>auto simp: bits not_less dest: lt7\<close>)
  show "bit (pack opc rd f3 rs1 rs2 f7) 31 = bit f7 6"
    by (simp add: bits)
qed

text \<open>Sign extension of a 12, 13 or 21-bit immediate by subtraction.\<close>

lemma sext_by_sub:
  fixes w :: u32
  assumes "n < 31"
  shows "(if bit w n then take_bit (Suc n) w - push_bit (Suc n) 1 else take_bit (Suc n) w) =
    signed_take_bit n w"
proof (cases "bit w n")
  case True
  have "take_bit (Suc n) w - push_bit (Suc n) 1 = take_bit (Suc n) w + NOT (mask (Suc n))"
    by (simp only: push_bit_of_1 diff_conv_add_uminus minus_exp_eq_not_mask)
  also have "\<dots> = take_bit (Suc n) w OR NOT (mask (Suc n))"
    by (rule disjunctive_add) (simp add: bit_simps)
  also have "\<dots> = signed_take_bit n w"
    by (rule bit_word_eqI) (use True assms in \<open>auto simp: bit_simps min_def less_Suc_eq\<close>)
  finally show ?thesis using True by simp
next
  case False
  then have "take_bit (Suc n) w = signed_take_bit n w"
    by (intro bit_word_eqI) (auto simp: bit_simps min_def less_Suc_eq)
  then show ?thesis using False by simp
qed

lemma sext_by_sub_low:
  fixes w :: u32
  assumes "n < 31"
  shows "(if bit w n then take_bit n w - push_bit n 1 else take_bit n w) = signed_take_bit n w"
proof (cases "bit w n")
  case True
  have "take_bit n w - push_bit n 1 = take_bit n w + NOT (mask n)"
    by (simp only: push_bit_of_1 diff_conv_add_uminus minus_exp_eq_not_mask)
  also have "\<dots> = take_bit n w OR NOT (mask n)"
    by (rule disjunctive_add) (simp add: bit_simps)
  also have "\<dots> = signed_take_bit n w"
    by (rule bit_word_eqI) (use True assms in \<open>auto simp: bit_simps min_def not_less le_less\<close>)
  finally show ?thesis using True by simp
next
  case False
  then have "take_bit n w = signed_take_bit n w"
    by (intro bit_word_eqI) (auto simp: bit_simps min_def not_less le_less)
  then show ?thesis using False by simp
qed

lemma slice_bounds [simp]:
  "slice_at k 5 w < 32" "slice_at k 7 w < 128" "slice_at k 3 w < 8" "slice_at k 12 w < 4096"
  using slice_at_less [of 5 k w] slice_at_less [of 7 k w] slice_at_less [of 3 k w]
    slice_at_less [of 12 k w] by simp_all

lemma imm12_split:
  "slice_at 0 5 w OR push_bit 5 (slice_at 5 7 w) = take_bit 12 w"
  "push_bit 5 (slice_at 5 7 w) OR slice_at 0 5 w = take_bit 12 w"
  "bit (slice_at 5 7 w) 6 = bit w 11"
  by (auto intro!: bit_word_eqI simp: slice_at_def bit_simps not_less)

lemma enc_i_fields:
  assumes "opc < 128" "rd < 32" "f3 < 8" "rs1 < 32"
  shows "slice_at 0 7 (enc_i opc rd f3 rs1 imm) = opc"
    "slice_at 7 5 (enc_i opc rd f3 rs1 imm) = rd"
    "slice_at 12 3 (enc_i opc rd f3 rs1 imm) = f3"
    "slice_at 15 5 (enc_i opc rd f3 rs1 imm) = rs1"
    "slice_at 20 12 (enc_i opc rd f3 rs1 imm) = take_bit 12 imm"
    "bit (enc_i opc rd f3 rs1 imm) 31 = bit imm 11"
  using assms by (simp_all add: enc_i_def slice_pack imm12_split)

lemma enc_s_fields:
  assumes "opc < 128" "f3 < 8" "rs1 < 32" "rs2 < 32"
  shows "slice_at 0 7 (enc_s opc f3 rs1 rs2 imm) = opc"
    "slice_at 12 3 (enc_s opc f3 rs1 rs2 imm) = f3"
    "slice_at 15 5 (enc_s opc f3 rs1 rs2 imm) = rs1"
    "slice_at 20 5 (enc_s opc f3 rs1 rs2 imm) = rs2"
    "push_bit 5 (slice_at 25 7 (enc_s opc f3 rs1 rs2 imm)) OR
       slice_at 7 5 (enc_s opc f3 rs1 rs2 imm) = take_bit 12 imm"
    "bit (enc_s opc f3 rs1 rs2 imm) 31 = bit imm 11"
  using assms by (simp_all add: enc_s_def slice_pack imm12_split)

text \<open>The scattered immediates of the B and J formats, gathered from the word.\<close>

definition b_imm :: "u32 \<Rightarrow> u32" where
  "b_imm w = (drop_bit 20 w AND 0x7e0) OR (drop_bit 7 w AND 0x1e) OR push_bit 4 (w AND 0x80)"

definition j_imm :: "u32 \<Rightarrow> u32" where
  "j_imm w = (w AND 0xff000) OR drop_bit 9 (w AND 0x100000) OR (drop_bit 20 w AND 0x7fe)"

lemma bit_field_const:
  "c = push_bit k (mask n) \<Longrightarrow> k + n \<le> 32 \<Longrightarrow> bit c i \<longleftrightarrow> k \<le> i \<and> i < k + n" for c :: u32
  by (auto simp: bit_simps)

lemma imm_masks:
  "bit (0x7e0 :: u32) i \<longleftrightarrow> 5 \<le> i \<and> i < 11" "bit (0x1e :: u32) i \<longleftrightarrow> 1 \<le> i \<and> i < 5"
  "bit (0x80 :: u32) i \<longleftrightarrow> i = 7" "bit (0xff000 :: u32) i \<longleftrightarrow> 12 \<le> i \<and> i < 20"
  "bit (0x100000 :: u32) i \<longleftrightarrow> i = 20" "bit (0x7fe :: u32) i \<longleftrightarrow> 1 \<le> i \<and> i < 11"
  "bit U_TYPE_IMM_MASK i \<longleftrightarrow> 12 \<le> i \<and> i < 32"
  by (subst bit_field_const [of _ 5 6] bit_field_const [of _ 1 4] bit_field_const [of _ 7 1]
      bit_field_const [of _ 12 8] bit_field_const [of _ 20 1] bit_field_const [of _ 1 10]
      bit_field_const [of _ 12 20],
      (simp add: mask_eq_exp_minus_1 push_bit_eq_mult U_TYPE_IMM_MASK_def; fail), simp, arith)+

lemma bit_b_imm:
  "bit (b_imm w) n \<longleftrightarrow> (5 \<le> n \<and> n < 11 \<and> bit w (n + 20)) \<or> (1 \<le> n \<and> n < 5 \<and> bit w (n + 7))
     \<or> (n = 11 \<and> bit w 7)"
  unfolding b_imm_def bit_or_iff bit_and_iff bit_drop_bit_eq bit_push_bit_iff imm_masks comp_def
  by (auto simp: add.commute)

lemma bit_j_imm:
  "bit (j_imm w) n \<longleftrightarrow> (12 \<le> n \<and> n < 20 \<and> bit w n) \<or> (n = 11 \<and> bit w 20)
     \<or> (1 \<le> n \<and> n < 11 \<and> bit w (n + 20))"
  unfolding j_imm_def bit_or_iff bit_and_iff bit_drop_bit_eq bit_push_bit_iff imm_masks comp_def
  by (auto simp: add.commute)

lemma bit_slice_at: "bit (slice_at k n w) i \<longleftrightarrow> i < n \<and> bit w (k + i)"
  by (simp add: slice_at_def bit_take_bit_iff bit_drop_bit_eq)

lemma Suc_shift: "8 \<le> n \<Longrightarrow> Suc (n - 8) = n - 7" "21 \<le> n \<Longrightarrow> Suc (n - 21) = n - 20"
  by arith+

lemma bits_less:
  fixes w :: u32
  assumes "\<And>i. bit w i \<Longrightarrow> i < n" and "n < 32"
  shows "w < 2 ^ n"
proof -
  have "slice_at 0 n w = w"
    by (rule bit_word_eqI) (use assms(1) in \<open>auto simp: slice_at_def bit_simps\<close>)
  then show ?thesis using slice_at_less [OF assms(2), of 0 w] by simp
qed

lemma even_bit_pos: "even w \<Longrightarrow> bit w i \<Longrightarrow> 1 \<le> i" for w :: u32
  by (cases i) (auto simp: bit_0)

lemma bit_of_wrapped: "n < 32 \<Longrightarrow> bit (take_bit n w) i \<longleftrightarrow> i < n \<and> bit w i" for w :: u32
  by (simp add: bit_simps)

lemma enc_b_fields:
  assumes "opc < 128" "f3 < 8" "rs1 < 32" "rs2 < 32" "even imm"
  shows "slice_at 0 7 (enc_b opc f3 rs1 rs2 imm) = opc"
    "slice_at 12 3 (enc_b opc f3 rs1 rs2 imm) = f3"
    "slice_at 15 5 (enc_b opc f3 rs1 rs2 imm) = rs1"
    "slice_at 20 5 (enc_b opc f3 rs1 rs2 imm) = rs2"
    "b_imm (enc_b opc f3 rs1 rs2 imm) = take_bit 12 imm"
    "bit (enc_b opc f3 rs1 rs2 imm) 31 = bit imm 12"
proof -
  let ?rd = "push_bit 1 (slice_at 1 4 imm) OR slice_at 11 1 imm"
  let ?f7 = "push_bit 6 (slice_at 12 1 imm) OR slice_at 5 6 imm"
  have "?rd < 2 ^ 5"
    by (rule bits_less, unfold bit_or_iff bit_push_bit_iff bit_slice_at) auto
  then have rd: "?rd < 32" by simp
  have "?f7 < 2 ^ 7"
    by (rule bits_less, unfold bit_or_iff bit_push_bit_iff bit_slice_at) auto
  then have f7: "?f7 < 128" by simp
  note sl = slice_pack [OF assms(1) rd assms(2-4) f7, folded enc_b_def]
  show "slice_at 0 7 (enc_b opc f3 rs1 rs2 imm) = opc"
    "slice_at 12 3 (enc_b opc f3 rs1 rs2 imm) = f3"
    "slice_at 15 5 (enc_b opc f3 rs1 rs2 imm) = rs1"
    "slice_at 20 5 (enc_b opc f3 rs1 rs2 imm) = rs2"
    by (rule sl)+
  have bp: "bit (enc_b opc f3 rs1 rs2 imm) n \<longleftrightarrow>
    (if n < 7 then bit opc n else if n = 7 then bit imm 11 else if n < 12 then bit imm (n - 7)
     else if n < 15 then bit f3 (n - 12) else if n < 20 then bit rs1 (n - 15)
     else if n < 25 then bit rs2 (n - 20) else if n < 31 then bit imm (n - 20)
     else n = 31 \<and> bit imm 12)" for n
    unfolding enc_b_def bit_pack [OF assms(1) rd assms(2-4) f7] bit_or_iff bit_push_bit_iff
      bit_slice_at by (auto simp: Suc_shift)
  show "bit (enc_b opc f3 rs1 rs2 imm) 31 = bit imm 12" by (simp add: bp)
  have e: "\<not> bit imm 0" using assms(5) by (simp add: bit_0)
  show "b_imm (enc_b opc f3 rs1 rs2 imm) = take_bit 12 imm"
  proof (rule bit_word_eqI)
    fix n assume "n < LENGTH(32)"
    consider "n = 0" | "1 \<le> n" "n < 5" | "5 \<le> n" "n < 11" | "n = 11" | "11 < n" by linarith
    then show "bit (b_imm (enc_b opc f3 rs1 rs2 imm)) n = bit (take_bit 12 imm) n"
      unfolding bit_b_imm bp bit_take_bit_iff by cases (use e in auto)
  qed
qed

lemma bit_pack_u:
  assumes "opc < 128" "rd < 32"
  shows "bit (pack_u opc rd f20) n \<longleftrightarrow>
    (if n < 7 then bit opc n else if n < 12 then bit rd (n - 7) else n < 32 \<and> bit f20 (n - 12))"
proof -
  have "7 \<le> i \<Longrightarrow> \<not> bit opc i" "5 \<le> i \<Longrightarrow> \<not> bit rd i" for i
    using less_exp_bit [of opc 7 i] less_exp_bit [of rd 5 i] assms by auto
  then show ?thesis by (auto simp: pack_u_def bit_simps)
qed

lemma pack_u_fields:
  assumes "opc < 128" "rd < 32"
  shows "slice_at 0 7 (pack_u opc rd f20) = opc" "slice_at 7 5 (pack_u opc rd f20) = rd"
    "pack_u opc rd f20 AND U_TYPE_IMM_MASK = push_bit 12 f20"
proof -
  note bits = slice_at_def bit_take_bit_iff bit_drop_bit_eq comp_def bit_pack_u [OF assms]
  show "slice_at 0 7 (pack_u opc rd f20) = opc"
    by (rule bit_word_eqI) (use less_exp_bit [of opc 7] assms in \<open>auto simp: bits\<close>)
  show "slice_at 7 5 (pack_u opc rd f20) = rd"
    by (rule bit_word_eqI) (use less_exp_bit [of rd 5] assms in \<open>auto simp: bits\<close>)
  show "pack_u opc rd f20 AND U_TYPE_IMM_MASK = push_bit 12 f20"
    by (rule bit_word_eqI, unfold bit_and_iff imm_masks) (auto simp: bits bit_push_bit_iff)
qed

lemma enc_j_fields:
  assumes "opc < 128" "rd < 32" "even imm"
  shows "slice_at 0 7 (enc_j opc rd imm) = opc" "slice_at 7 5 (enc_j opc rd imm) = rd"
    "j_imm (enc_j opc rd imm) = take_bit 20 imm" "bit (enc_j opc rd imm) 31 = bit imm 20"
proof -
  have bp: "bit (enc_j opc rd imm) n \<longleftrightarrow>
    (if n < 7 then bit opc n else if n < 12 then bit rd (n - 7) else if n < 20 then bit imm n
     else if n = 20 then bit imm 11 else if n < 31 then bit imm (n - 20)
     else n = 31 \<and> bit imm 20)" for n
    unfolding enc_j_def bit_pack_u [OF assms(1,2)] bit_or_iff bit_push_bit_iff bit_slice_at
    by (auto simp: Suc_shift)
  show "slice_at 0 7 (enc_j opc rd imm) = opc" "slice_at 7 5 (enc_j opc rd imm) = rd"
    using assms by (simp_all add: enc_j_def pack_u_fields)
  show "bit (enc_j opc rd imm) 31 = bit imm 20" by (simp add: bp)
  have e: "\<not> bit imm 0" using assms(3) by (simp add: bit_0)
  show "j_imm (enc_j opc rd imm) = take_bit 20 imm"
  proof (rule bit_word_eqI)
    fix n assume "n < LENGTH(32)"
    consider "n = 0" | "1 \<le> n" "n < 11" | "n = 11" | "12 \<le> n" "n < 20" | "20 \<le> n" by linarith
    then show "bit (j_imm (enc_j opc rd imm)) n = bit (take_bit 20 imm) n"
      unfolding bit_j_imm bp bit_take_bit_iff by cases (use e in auto)
  qed
qed

section \<open>Decoding an encoded instruction\<close>

lemma parse_cases:
  "parse w = rbind (opcode_try_from (slice_at 0 7 w)) (\<lambda>opcode.
       (case instruction_format opcode of
          FmtR \<Rightarrow> parse_r_instruction w opcode
        | FmtI \<Rightarrow> parse_i_instruction w opcode
        | FmtS \<Rightarrow> parse_s_instruction w opcode
        | FmtB \<Rightarrow> parse_b_instruction w opcode
        | FmtJ \<Rightarrow> parse_j_instruction w opcode
        | FmtU \<Rightarrow> parse_u_instruction w opcode))"
  by (simp only: parse_def parse_opcode_def mask_fields)

text \<open>The immediate of the I and S formats, sign-extended from its 12 bits.\<close>

definition sext12 :: "bool \<Rightarrow> u32 \<Rightarrow> u32" where
  "sext12 s w = (if s then w - push_bit 12 1 else w)"

lemma sext12_take_bit: "sext12 (bit w 11) (take_bit 12 w) = signed_take_bit 11 w"
proof -
  have "Suc 11 = 12" by simp
  then show ?thesis using sext_by_sub [of 11 w] by (simp only: sext12_def)
qed

lemma parse_i_cases:
  "parse_i_instruction w OpArithImm =
     rbind (arith_imm_operation OpArithImm (slice_at 12 3 w) (sext12 (bit w 31) (slice_at 20 12 w)))
       (\<lambda>(oper, imm). Inr (ArithImm (slice_at 7 5 w) (slice_at 15 5 w) imm oper))"
  "parse_i_instruction w OpArithImm32 =
     rbind (arith_imm32_operation (slice_at 12 3 w) (sext12 (bit w 31) (slice_at 20 12 w)))
       (\<lambda>(oper, imm). Inr (ArithImmW (slice_at 7 5 w) (slice_at 15 5 w) imm oper))"
  "parse_i_instruction w OpJumpAndLinkRegister =
     (if slice_at 12 3 w \<noteq> 0 then Inl InvalidJALR
      else Inr (JumpAndLinkRegister (slice_at 15 5 w) (slice_at 7 5 w)
             (sext12 (bit w 31) (slice_at 20 12 w))))"
  "parse_i_instruction w OpLoad =
     rbind (from_func3 (slice_at 12 3 w)) (\<lambda>width.
       Inr (Load (slice_at 7 5 w) (sext12 (bit w 31) (slice_at 20 12 w)) (slice_at 15 5 w) width))"
  "parse_i_instruction w OpFence = Inr Fence"
  unfolding parse_i_instruction_def Let_def mask_fields sign_mask sext12_def by simp_all

lemma parse_i_system:
  "parse_i_instruction w OpSystem =
     (let func3 = slice_at 12 3 w;
          csr = CSR (slice_at 20 12 w) (slice_at 15 5 w) (slice_at 7 5 w)
      in if func3 = 0 then Inr EcallEbreak
         else if func3 = 7 then Inr (csr CSRRCI)
         else if func3 = 2 then Inr (csr CSRRS)
         else if func3 = 1 then Inr (csr CSRRW)
         else if func3 = 3 \<or> func3 = 5 \<or> func3 = 6 then Inl (InvalidSystemInstruction func3)
         else Inl (UnknownOpcodeFuncIdentifier OpSystem func3))"
  unfolding parse_i_instruction_def Let_def mask_fields by simp

lemma parse_s_store:
  "parse_s_instruction w OpStore =
     rbind (from_func3_store (slice_at 12 3 w)) (\<lambda>width.
       Inr (Store (slice_at 20 5 w)
         (sext12 (bit w 31) (push_bit 5 (slice_at 25 7 w) OR slice_at 7 5 w)) (slice_at 15 5 w)
         width))"
  unfolding parse_s_instruction_def Let_def mask_fields sign_mask sext12_def by simp

lemma add_fffff000: "w + 0xFFFFF000 = w - push_bit 12 1" for w :: u32
proof -
  have "(0xFFFFF000 :: u32) = - push_bit 12 1" by simp
  then show ?thesis by (simp only: diff_conv_add_uminus)
qed

lemma parse_b_branch:
  "parse_b_instruction w OpBranch =
     rbind (ok_or (UnknownOpcodeFuncIdentifier OpBranch (slice_at 12 3 w))
              (b_comparison (slice_at 12 3 w)))
       (\<lambda>c. Inr (Branch (slice_at 15 5 w) (slice_at 20 5 w) c
                   (if bit w 31 then b_imm w - push_bit 12 1 else b_imm w)))"
  unfolding parse_b_instruction_def Let_def mask_fields sign_mask b_imm_def [symmetric]
    add_fffff000 by simp

lemma parse_j_jal:
  "parse_j_instruction w OpJumpAndLink =
     Inr (JumpAndLink (slice_at 7 5 w) (if bit w 31 then j_imm w - push_bit 20 1 else j_imm w))"
  unfolding parse_j_instruction_def Let_def mask_fields sign_mask j_imm_def [symmetric] by simp

lemma parse_u_cases:
  "parse_u_instruction w OpLoadUpperImm = Inr (LoadUpperImm (slice_at 7 5 w) (w AND U_TYPE_IMM_MASK))"
  "parse_u_instruction w OpAddUpperImmToPc =
     Inr (AddUpperImmToPc (slice_at 7 5 w) (w AND U_TYPE_IMM_MASK))"
  unfolding parse_u_instruction_def Let_def mask_fields by simp_all

lemma parse_r_cases:
  "parse_r_instruction w OpArith =
     rbind (ok_or (UnknownOpcodeFuncIdentifier OpArith (slice_at 12 3 w))
              (r_operation (slice_at 12 3 w) (slice_at 25 7 w)))
       (\<lambda>oper. Inr (Arith (slice_at 7 5 w) (slice_at 15 5 w) (slice_at 20 5 w) oper))"
  "parse_r_instruction w OpArith32 =
     rbind (ok_or (UnknownOpcodeFuncIdentifier OpArith32 (slice_at 12 3 w))
              (r_operation (slice_at 12 3 w) (slice_at 25 7 w)))
       (\<lambda>oper. if w_supported oper
          then Inr (ArithW (slice_at 7 5 w) (slice_at 15 5 w) (slice_at 20 5 w) oper)
          else Inl InvalidW32Instruction)"
  unfolding parse_r_instruction_def Let_def mask_fields by simp_all

lemmas parse_format_cases =
  parse_r_cases parse_i_cases parse_i_system parse_s_store parse_b_branch parse_j_jal parse_u_cases

lemma opcode_values:
  "opcode_try_from 0x33 = Inr OpArith" "opcode_try_from 0x13 = Inr OpArithImm"
  "opcode_try_from 0x03 = Inr OpLoad" "opcode_try_from 0x23 = Inr OpStore"
  "opcode_try_from 0x63 = Inr OpBranch" "opcode_try_from 0x67 = Inr OpJumpAndLinkRegister"
  "opcode_try_from 0x6F = Inr OpJumpAndLink" "opcode_try_from 0x37 = Inr OpLoadUpperImm"
  "opcode_try_from 0x17 = Inr OpAddUpperImmToPc" "opcode_try_from 0x73 = Inr OpSystem"
  "opcode_try_from 0x0F = Inr OpFence" "opcode_try_from 0x1B = Inr OpArithImm32"
  "opcode_try_from 0x3B = Inr OpArith32"
  by (simp_all add: opcode_try_from_def)

lemma r_funcs_roundtrip: "r_operation (fst (r_funcs oper)) (snd (r_funcs oper)) = Some oper"
  by (cases oper) (simp_all add: r_operation_def)

lemma r_funcs_bounds: "fst (r_funcs oper) < 8" "snd (r_funcs oper) < 128"
  by (cases oper; simp)+

lemma width_roundtrip: "from_func3 (width_func3 width) = Inr width" "width_func3 width < 8"
  by (cases width; simp add: from_func3_def)+

lemma width_store_roundtrip:
  "width \<in> {Byte, Half, Word, DoubleWord} \<Longrightarrow> from_func3_store (width_func3 width) = Inr width"
  by (auto simp: from_func3_store_def)

lemma comparison_roundtrip: "b_comparison (comparison_func3 c) = Some c" "comparison_func3 c < 8"
  by (cases c; simp add: b_comparison_def)+

lemma sext12_of: "sext_of 11 imm \<Longrightarrow> sext12 (bit imm 11) (take_bit 12 imm) = imm"
  by (simp only: sext12_take_bit sext_of_def)

lemma sext_low_of:
  "sext_of 12 imm \<Longrightarrow> (if bit imm 12 then take_bit 12 imm - push_bit 12 1 else take_bit 12 imm) = imm"
  "sext_of 20 imm \<Longrightarrow> (if bit imm 20 then take_bit 20 imm - push_bit 20 1 else take_bit 20 imm) = imm"
  using sext_by_sub_low [of 12 imm] sext_by_sub_low [of 20 imm] by (simp_all only: sext_of_def)

lemma parse_encode_r:
  assumes "dst < 32" "src1 < 32" "src2 < 32"
  shows "parse (encode (Arith dst src1 src2 oper)) = Inr (Arith dst src1 src2 oper)"
    "w_supported oper \<Longrightarrow>
       parse (encode (ArithW dst src1 src2 oper)) = Inr (ArithW dst src1 src2 oper)"
  using assms r_funcs_bounds [of oper] r_funcs_roundtrip [of oper]
  by (simp_all add: parse_cases slice_pack opcode_values parse_r_cases case_prod_beta)

lemma parse_encode_i:
  assumes "rd < 32" "rs1 < 32" "sext_of 11 imm"
  shows "parse (encode (JumpAndLinkRegister rs1 rd imm)) = Inr (JumpAndLinkRegister rs1 rd imm)"
    "parse (encode (Load rd imm rs1 width)) = Inr (Load rd imm rs1 width)"
  using assms width_roundtrip [of width]
  by (simp_all add: parse_cases enc_i_fields opcode_values parse_i_cases sext12_of)

lemma parse_encode_store:
  assumes "src < 32" "base < 32" "sext_of 11 imm" "width \<in> {Byte, Half, Word, DoubleWord}"
  shows "parse (encode (Store src imm base width)) = Inr (Store src imm base width)"
  using assms(1-3) width_roundtrip [of width] width_store_roundtrip [OF assms(4)]
  by (simp add: parse_cases enc_s_fields opcode_values parse_s_store sext12_of)

lemma parse_encode_branch:
  assumes "src1 < 32" "src2 < 32" "sext_of 12 imm" "even imm"
  shows "parse (encode (Branch src1 src2 cond imm)) = Inr (Branch src1 src2 cond imm)"
  using assms comparison_roundtrip [of cond] sext_low_of(1) [of imm]
  by (simp add: parse_cases enc_b_fields opcode_values parse_b_branch split: if_splits)

lemma parse_encode_jal:
  assumes "dst < 32" "sext_of 20 imm" "even imm"
  shows "parse (encode (JumpAndLink dst imm)) = Inr (JumpAndLink dst imm)"
  using assms sext_low_of(2) [of imm]
  by (simp add: parse_cases enc_j_fields opcode_values parse_j_jal split: if_splits)

lemma push_drop_12: "take_bit 12 imm = 0 \<Longrightarrow> push_bit 12 (drop_bit 12 imm) = imm" for imm :: u32
  using bits_ident [of 12 imm] by simp

lemma parse_encode_u:
  assumes "dst < 32" "take_bit 12 imm = 0"
  shows "parse (encode (LoadUpperImm dst imm)) = Inr (LoadUpperImm dst imm)"
    "parse (encode (AddUpperImmToPc dst imm)) = Inr (AddUpperImmToPc dst imm)"
  using assms push_drop_12 [OF assms(2)]
  by (simp_all add: parse_cases pack_u_fields opcode_values parse_u_cases)

lemma parse_encode_csr:
  assumes "csr < 4096" "src < 32" "dst < 32" "oper \<in> {CSRRW, CSRRS, CSRRCI}"
  shows "parse (encode (CSR csr src dst oper)) = Inr (CSR csr src dst oper)"
proof -
  have "take_bit 12 csr = csr"
    by (rule bit_word_eqI) (use less_exp_bit [of csr 12] assms(1) in \<open>auto simp: bit_simps\<close>)
  moreover have "csr_func3 oper < 8" using assms(4) by auto
  ultimately show ?thesis
    using assms(2-4) by (auto simp: parse_cases enc_i_fields opcode_values parse_i_system Let_def)
qed

text \<open>A shift amount with the function bits above it.\<close>

lemma shift_fields:
  fixes imm :: u32
  assumes "imm < 2 ^ k" and "k = 5 \<or> k = 6"
  shows "signed_drop_bit k imm = 0" "take_bit 12 imm = imm" "\<not> bit imm 11" "imm AND mask k = imm"
    "signed_drop_bit k (imm OR push_bit 10 1) = push_bit (10 - k) 1"
    "take_bit 12 (imm OR push_bit 10 1) = imm OR push_bit 10 1" "\<not> bit (imm OR push_bit 10 1) 11"
    "(imm OR push_bit 10 1) AND mask k = imm"
proof -
  have b: "bit imm i \<Longrightarrow> i < k" for i
    using less_exp_bit [OF assms(1), of i] assms(2) by auto
  note bs = bit_signed_drop_bit_iff bit_take_bit_iff bit_and_iff bit_or_iff bit_push_bit_iff
    bit_mask_iff bit_1_iff
  have k: "5 \<le> k" "k \<le> 6" using assms(2) by auto
  show "signed_drop_bit k imm = 0" "take_bit 12 imm = imm" "imm AND mask k = imm"
    "signed_drop_bit k (imm OR push_bit 10 1) = push_bit (10 - k) 1"
    "take_bit 12 (imm OR push_bit 10 1) = imm OR push_bit 10 1"
    "(imm OR push_bit 10 1) AND mask k = imm"
    by (rule bit_word_eqI, unfold bs, (use k in \<open>force dest: b\<close>)[1])+
  show "\<not> bit imm 11" "\<not> bit (imm OR push_bit 10 1) 11"
    using k by (auto simp only: bs dest!: b)
qed

lemma mask_5_6: "(0x1F :: u32) = mask 5" "(0x3F :: u32) = mask 6"
  by (simp_all add: mask_eq_exp_minus_1)

lemma shift6_fields:
  "imm < 64 \<Longrightarrow> signed_drop_bit 6 imm = 0" "imm < 64 \<Longrightarrow> imm AND 0x3F = imm"
  "imm < 64 \<Longrightarrow> signed_drop_bit 6 (imm OR 0x400) = 0x10" "imm < 64 \<Longrightarrow> (imm OR 0x400) AND 0x3F = imm"
  for imm :: u32
  using shift_fields [of imm 6] by (simp_all add: mask_5_6)

lemma shift5_fields:
  "imm < 32 \<Longrightarrow> signed_drop_bit 5 imm = 0" "imm < 32 \<Longrightarrow> imm AND 0x1F = imm"
  "imm < 32 \<Longrightarrow> signed_drop_bit 5 (imm OR 0x400) = 0x20" "imm < 32 \<Longrightarrow> (imm OR 0x400) AND 0x1F = imm"
  for imm :: u32
  using shift_fields [of imm 5] by (simp_all add: mask_5_6)

lemma sext12_shift:
  fixes imm :: u32
  assumes "imm < 2 ^ k" and "k = 5 \<or> k = 6"
  shows "sext12 (bit (shift_imm oper imm) 11) (take_bit 12 (shift_imm oper imm)) = shift_imm oper imm"
proof -
  note f = shift_fields [OF assms]
  show ?thesis
    by (cases "oper = ShiftRightArith") (simp_all only: shift_imm_def sext12_def f if_True if_False simp_thms)
qed

lemma arith_imm_encode:
  assumes "oper \<in> {Add, Xor, Or, And, ShiftLeftLogical, ShiftRightLogical, ShiftRightArith,
        SetLessThan, SetLessThanU}"
    and "if is_shift oper then imm < 64 else sext_of 11 imm"
  shows "arith_imm_operation opcode (fst (r_funcs oper))
    (sext12 (bit (shift_imm oper imm) 11) (take_bit 12 (shift_imm oper imm))) = Inr (oper, imm)"
proof (cases "is_shift oper")
  case True
  then have lt: "imm < 2 ^ 6" using assms(2) by simp
  from True show ?thesis
    unfolding sext12_shift [OF lt disjI2 [OF refl]]
    using lt by (auto simp: is_shift_def arith_imm_operation_def shift_imm_def shift6_fields Let_def)
next
  case False
  then show ?thesis
    using assms sext12_of [of imm]
    by (auto simp: is_shift_def arith_imm_operation_def shift_imm_def)
qed

lemma arith_imm32_encode:
  assumes "oper \<in> {Add, ShiftLeftLogical, ShiftRightLogical, ShiftRightArith}"
    and "if is_shift oper then imm < 32 else sext_of 11 imm"
  shows "arith_imm32_operation (fst (r_funcs oper))
    (sext12 (bit (shift_imm oper imm) 11) (take_bit 12 (shift_imm oper imm))) = Inr (oper, imm)"
proof (cases "is_shift oper")
  case True
  then have lt: "imm < 2 ^ 5" using assms(2) by simp
  from True show ?thesis
    unfolding sext12_shift [OF lt disjI1 [OF refl]]
    using lt by (auto simp: is_shift_def arith_imm32_operation_def shift_imm_def shift5_fields Let_def)
next
  case False
  then show ?thesis
    using assms sext12_of [of imm]
    by (auto simp: is_shift_def arith_imm32_operation_def shift_imm_def)
qed

lemma parse_encode_imm:
  assumes "dst < 32" "src < 32"
  shows "instr_valid (ArithImm dst src imm oper) \<Longrightarrow>
      parse (encode (ArithImm dst src imm oper)) = Inr (ArithImm dst src imm oper)"
    "instr_valid (ArithImmW dst src imm oper) \<Longrightarrow>
      parse (encode (ArithImmW dst src imm oper)) = Inr (ArithImmW dst src imm oper)"
  using assms r_funcs_bounds [of oper] arith_imm_encode [of oper imm]
    arith_imm32_encode [of oper imm]
  by (simp_all add: parse_cases enc_i_fields opcode_values parse_i_cases)

text \<open>C5: the decoder inverts the encoding of the RISC-V format tables. Every instruction whose
  register numbers are below 32, whose immediate is in the range of its format and whose
  operation has an encoding of its format (\<open>instr_valid\<close>) is decoded from its encoding to
  itself.\<close>

theorem parse_encode: "instr_valid i \<Longrightarrow> parse (encode i) = Inr i"
proof (induction i rule: instr_valid.induct)
  case 13
  show ?case by (simp add: parse_def parse_opcode_def OPCODE_MASK_def opcode_values
        parse_i_instruction_def FUNC3_MASK_def Let_def)
next
  case 14
  show ?case by (simp add: parse_def parse_opcode_def OPCODE_MASK_def opcode_values
        parse_i_instruction_def Let_def)
next
  case 3
  then show ?case by (intro parse_encode_imm) auto
next
  case 4
  then show ?case by (intro parse_encode_imm) auto
qed (simp_all only: instr_valid.simps parse_encode_r parse_encode_i parse_encode_store
    parse_encode_branch parse_encode_jal parse_encode_u parse_encode_csr)

theorem parse_encode_witness:
  "instr_valid (Branch 5 31 LessThan (- 4096)) \<and> parse 0x81F2C063 = Inr (Branch 5 31 LessThan (- 4096))"
proof -
  have v: "instr_valid (Branch 5 31 LessThan (- 4096))" by (simp add: sext_of_def) 
  moreover have "encode (Branch 5 31 LessThan (- 4096)) = 0x81F2C063"
    by (simp add: enc_b_def pack_def slice_at_def)
  ultimately show ?thesis using parse_encode [OF v] by simp
qed

section \<open>What the decoder accepts\<close>

lemma opcode_try_from_cases:
  assumes "opcode_try_from v = Inr opc"
  shows "(opc, v) \<in> {(OpArith, 0x33), (OpArithImm, 0x13), (OpLoad, 0x03), (OpStore, 0x23),
    (OpBranch, 0x63), (OpJumpAndLinkRegister, 0x67), (OpJumpAndLink, 0x6F),
    (OpLoadUpperImm, 0x37), (OpAddUpperImmToPc, 0x17), (OpSystem, 0x73), (OpFence, 0x0F),
    (OpArithImm32, 0x1B), (OpArith32, 0x3B)}"
  using assms by (auto simp: opcode_try_from_def split: if_splits)

lemma sext_signed_take_bit [simp]: "sext_of n (signed_take_bit n w)"
  by (simp add: sext_of_def)

lemma sext12_sext: "sext_of 11 (sext12 (bit w 11) (take_bit 12 w))"
  by (simp only: sext12_take_bit sext_signed_take_bit)

lemma sext12_slice: "sext12 (bit w 31) (slice_at 20 12 w) = signed_take_bit 11 (drop_bit 20 w)"
  using sext12_take_bit [of "drop_bit 20 w"] by (simp add: slice_at_def bit_simps)

lemma store_imm_slice:
  "push_bit 5 (slice_at 25 7 w) OR slice_at 7 5 w = take_bit 12 (push_bit 5 (drop_bit 25 w) OR slice_at 7 5 w)"
  by (rule bit_word_eqI, unfold bit_or_iff bit_push_bit_iff bit_slice_at bit_take_bit_iff bit_drop_bit_eq)
    auto

lemma b_imm_shape: "even (b_imm w)" "b_imm w = take_bit 12 (b_imm w)" "even (j_imm w)"
    "j_imm w = take_bit 20 (j_imm w)"
proof -
  show "even (b_imm w)" "even (j_imm w)"
    using bit_b_imm [of w 0] bit_j_imm [of w 0] by (simp_all add: bit_0)
  show "b_imm w = take_bit 12 (b_imm w)" "j_imm w = take_bit 20 (j_imm w)"
    by (rule bit_word_eqI, unfold bit_take_bit_iff bit_b_imm bit_j_imm, force)+
qed

text \<open>The immediates of the B and J formats with their sign bit: sign-extended and even.\<close>

lemma signed_imm_shape:
  fixes v :: u32
  assumes "v = take_bit n v" "even v" "0 < n" "n < 31"
  shows "sext_of n (if s then v - push_bit n 1 else v)" "even (if s then v - push_bit n 1 else v)"
proof -
  define u where "u = (if s then v OR push_bit n 1 else v)"
  have b: "bit u n = s" "take_bit n u = v"
    using assms by (auto simp: u_def bit_simps intro: bit_word_eqI)
      (metis bit_take_bit_iff less_irrefl)+
  have e: "(if s then v - push_bit n 1 else v) = signed_take_bit n u"
    using sext_by_sub_low [OF assms(4), of u] by (simp only: b)
  then show "sext_of n (if s then v - push_bit n 1 else v)" by simp
  have "bit (signed_take_bit n u) 0 = bit (take_bit n u) 0"
    using assms(3) by (simp add: bit_simps)
  then show "even (if s then v - push_bit n 1 else v)"
    unfolding e using assms(2) b(2) by (simp add: bit_0)
qed

lemma sext12_store:
  "sext_of 11 (sext12 (bit w 31) (push_bit 5 (slice_at 25 7 w) OR slice_at 7 5 w))"
proof -
  let ?x = "push_bit 5 (drop_bit 25 w) OR slice_at 7 5 w"
  have "bit ?x 11 = bit w 31"
    by (simp only: bit_or_iff bit_push_bit_iff bit_slice_at bit_drop_bit_eq comp_def) auto
  then show ?thesis unfolding store_imm_slice using sext12_sext [of ?x] by simp
qed

lemma and_mask_bounds: "w AND 0x3F < 64" "w AND 0x1F < 32" for w :: u32
proof -
  have "slice_at 0 6 w < 2 ^ 6" "slice_at 0 5 w < 2 ^ 5" by (rule slice_at_less, simp)+
  then show "w AND 0x3F < 64" "w AND 0x1F < 32"
    by (simp_all add: slice_at_def mask_5_6 take_bit_eq_mask)
qed

lemma arith_imm_valid:
  assumes "arith_imm_operation opcode f3 v = Inr (oper, imm)" "sext_of 11 v" "dst < 32" "src < 32"
  shows "instr_valid (ArithImm dst src imm oper)"
  using assms by (auto simp: arith_imm_operation_def is_shift_def Let_def and_mask_bounds
      split: if_splits)

lemma arith_imm32_valid:
  assumes "arith_imm32_operation f3 v = Inr (oper, imm)" "sext_of 11 v" "dst < 32" "src < 32"
  shows "instr_valid (ArithImmW dst src imm oper)"
  using assms by (auto simp: arith_imm32_operation_def is_shift_def Let_def and_mask_bounds
      split: if_splits)

lemma u_imm_low: "take_bit 12 (w AND U_TYPE_IMM_MASK) = 0"
  by (rule bit_word_eqI, unfold bit_take_bit_iff bit_and_iff imm_masks) auto

lemma from_func3_store_cases:
  "from_func3_store f3 = Inr width \<Longrightarrow> width \<in> {Byte, Half, Word, DoubleWord}"
  by (auto simp: from_func3_store_def split: if_splits)

lemma parse_i_valid: "parse_i_instruction w opc = Inr i \<Longrightarrow> instruction_format opc = FmtI \<Longrightarrow> instr_valid i"
proof (cases opc)
  assume p: "parse_i_instruction w opc = Inr i"
  have s: "sext_of 11 (sext12 (bit w 31) (slice_at 20 12 w))"
    by (simp only: sext12_slice sext_signed_take_bit)
  {
    case OpArithImm
    then show ?thesis using p s by (auto simp: parse_i_cases result_simps intro: arith_imm_valid)
  next
    case OpArithImm32
    then show ?thesis using p s by (auto simp: parse_i_cases result_simps intro: arith_imm32_valid)
  }
qed (auto simp: parse_format_cases result_simps Let_def sext12_slice split: if_splits)

lemma decoded_valid: "parse w = Inr i \<Longrightarrow> instr_valid i"
proof -
  assume p: "parse w = Inr i"
  then obtain opc where o: "opcode_try_from (slice_at 0 7 w) = Inr opc"
    by (auto simp: parse_cases result_simps)
  show ?thesis
  proof (cases "instruction_format opc = FmtI")
    case True
    then show ?thesis using p o by (auto simp: parse_cases intro: parse_i_valid)
  next
    case False
    define bo where "bo = (if bit w 31 then b_imm w - push_bit 12 1 else b_imm w)"
    define jo where "jo = (if bit w 31 then j_imm w - push_bit 20 1 else j_imm w)"
    have b: "sext_of 12 bo" "even bo" "sext_of 20 jo" "even jo"
      unfolding bo_def jo_def
      using signed_imm_shape [of "b_imm w" 12] signed_imm_shape [of "j_imm w" 20] b_imm_shape
      by (simp_all only: simp_thms)
    show ?thesis using False p o
      by (cases opc) (auto simp: parse_cases parse_r_cases parse_s_store parse_u_cases
          parse_b_branch [of w, folded bo_def] parse_j_jal [of w, folded jo_def] result_simps b u_imm_low
          sext12_store simp del: take_bit_and split: if_splits dest: from_func3_store_cases)
  qed
qed

text \<open>C6: the decoder only produces well-formed instructions. Register numbers are below 32,
  immediates are in the range of their format (sign-extended, even for jump and branch
  offsets), a store has a store width, a W-suffix instruction one of the ten operations that
  have a word form and a CSR instruction one of the three supported operations.\<close>

theorem parse_valid: "parse w = Inr i \<Longrightarrow> instr_valid i"
  by (rule decoded_valid)

theorem parse_valid_witness: "instr_valid (Load 10 (- 8) 2 DoubleWord)"
proof -
  have "parse 0xFF813503 = Inr (Load 10 (- 8) 2 DoubleWord)"
    by (simp add: parse_def parse_opcode_def OPCODE_MASK_def opcode_values parse_i_instruction_def
        FUNC3_MASK_def RS1_MASK_def RD_MASK_def SIGN_MASK_def I_TYPE_IMM_MASK_def Let_def
        from_func3_def)
  then show ?thesis by (rule parse_valid)
qed

end
