(* ===== verification/Ecsm_Curve.thy ===== *)
theory Ecsm_Curve
  imports Vm_Prelude
begin

text \<open>
  The reference secp256k1 arithmetic of the elliptic-curve accelerator
  (\<^verbatim>\<open>crypto/ecsm/src/lib.rs\<close> and \<^verbatim>\<open>crypto/ecsm/src/curve.rs\<close>).  Big integers (\<open>BigUint\<close>) are
  natural numbers.  The curve arithmetic of the third-party crate \<open>k256\<close> is a parameter: a record
  of the functions the sources call, over abstract field elements, scalars, encoded points and
  affine points.  The operations of \<open>k256\<close> field elements that \<^verbatim>\<open>curve.rs\<close> uses through operators
  (\<open>+\<close>, \<open>-\<close>, \<open>*\<close>) are the operations of a type of class \<open>field\<close>.
  A call of \<open>expect\<close> that can panic gives an option, with \<open>None\<close> for the panic.
\<close>

section \<open>Constants and errors\<close>

definition CURVE_B :: nat where "CURVE_B = 7"

definition P_BYTES :: "u8 list" where
  "P_BYTES = [0x2F, 0xFC, 0xFF, 0xFF, 0xFE] @ replicate 27 0xFF"

definition N_BYTES :: "u8 list" where
  "N_BYTES = [0x41, 0x41, 0x36, 0xD0, 0x8C, 0x5E, 0xD2, 0xBF, 0x3B, 0xA0, 0x48, 0xAF, 0xE6, 0xDC,
     0xAE, 0xBA, 0xFE] @ replicate 15 0xFF"

definition R_BYTES :: "u8 list" where
  "R_BYTES = [0x8D, 0xF4, 0xFF, 0xFF, 0xFC] @ replicate 27 0xFF @ [0x02]"

datatype EcsmError = ScalarIsZero | ScalarOutOfRange | NotOnCurve | CoordinateOutOfRange

record AffinePoint =
  x_coord :: nat
  y_coord :: nat

section \<open>Big integers and bytes\<close>

text \<open>\<open>BigUint::from_bytes_le\<close> and \<open>BigUint::to_bytes_le\<close>; the latter has no trailing zero bytes,
  and a single zero byte for zero.\<close>

fun from_bytes_le :: "u8 list \<Rightarrow> nat" where
  "from_bytes_le [] = 0"
| "from_bytes_le (b # bs) = unat b + 256 * from_bytes_le bs"

fun le_digits :: "nat \<Rightarrow> u8 list" where
  "le_digits v = (if v = 0 then [] else of_nat (v mod 256) # le_digits (v div 256))"

declare le_digits.simps [simp del]

definition to_bytes_le :: "nat \<Rightarrow> u8 list" where
  "to_bytes_le v = (if v = 0 then [0] else le_digits v)"

definition from_bytes_be :: "u8 list \<Rightarrow> nat" where
  "from_bytes_be bs = from_bytes_le (rev bs)"

definition to_bytes_be :: "nat \<Rightarrow> u8 list" where
  "to_bytes_be v = rev (to_bytes_le v)"

definition secp_p :: nat where "secp_p = from_bytes_le P_BYTES"

definition secp_n :: nat where "secp_n = from_bytes_le N_BYTES"

definition vec_resize :: "nat \<Rightarrow> 'a \<Rightarrow> 'a list \<Rightarrow> 'a list" where
  "vec_resize len v xs = take len xs @ replicate (len - length xs) v"

definition to_le_32 :: "nat \<Rightarrow> u8 list" where
  "to_le_32 v = take 32 (vec_resize 32 0 (to_bytes_le v))"

text \<open>\<open>32 - b.len()\<close> underflows, and the slice panics, for a value of more than 32 bytes.\<close>

definition be32 :: "nat \<Rightarrow> u8 list option" where
  "be32 v = (let b = to_bytes_be v
     in if length b \<le> 32 then Some (replicate (32 - length b) 0 @ b) else None)"

section \<open>The \<open>k256\<close> crate\<close>

record ('fe, 'sc, 'ep, 'pt) k256 =
  fe_from_bytes :: "u8 list \<Rightarrow> 'fe option"
  fe_to_bytes :: "'fe \<Rightarrow> u8 list"
  fe_invert :: "'fe \<Rightarrow> 'fe option"
  fe_sqrt :: "'fe \<Rightarrow> 'fe option"
  sc_from_repr :: "u8 list \<Rightarrow> 'sc option"
  sc_to_bytes :: "'sc \<Rightarrow> u8 list"
  sc_invert :: "'sc \<Rightarrow> 'sc option"
  ep_from_bytes :: "u8 list \<Rightarrow> 'ep option"
  ep_from_affine_coordinates :: "u8 list \<Rightarrow> u8 list \<Rightarrow> 'ep"
  ep_x :: "'ep \<Rightarrow> u8 list option"
  ep_y :: "'ep \<Rightarrow> u8 list option"
  affine_from_encoded_point :: "'ep \<Rightarrow> 'pt option"
  affine_to_encoded_point :: "'pt \<Rightarrow> 'ep"
  point_mul :: "'pt \<Rightarrow> 'sc \<Rightarrow> 'pt"

definition fe_from_biguint :: "('fe, 'sc, 'ep, 'pt) k256 \<Rightarrow> nat \<Rightarrow> 'fe option" where
  "fe_from_biguint K v = Option.bind (be32 v) (fe_from_bytes K)"

definition biguint_from_fe :: "('fe, 'sc, 'ep, 'pt) k256 \<Rightarrow> 'fe \<Rightarrow> nat" where
  "biguint_from_fe K f = from_bytes_be (fe_to_bytes K f)"

definition to_k256_affine :: "('fe, 'sc, 'ep, 'pt) k256 \<Rightarrow> AffinePoint \<Rightarrow> 'pt option" where
  "to_k256_affine K a =
     Option.bind (be32 (x_coord a)) (\<lambda>x. Option.bind (be32 (y_coord a)) (\<lambda>y.
       affine_from_encoded_point K (ep_from_affine_coordinates K x y)))"

definition from_k256_affine :: "('fe, 'sc, 'ep, 'pt) k256 \<Rightarrow> 'pt \<Rightarrow> AffinePoint option" where
  "from_k256_affine K q =
     (let ep = affine_to_encoded_point K q
      in Option.bind (ep_x K ep) (\<lambda>x. Option.bind (ep_y K ep) (\<lambda>y.
           Some \<lparr>x_coord = from_bytes_be x, y_coord = from_bytes_be y\<rparr>)))"

text \<open>\<open>recover_y_canonical\<close> returns an option itself: the outer option is the panic.\<close>

definition recover_y_canonical :: "('fe, 'sc, 'ep, 'pt) k256 \<Rightarrow> nat \<Rightarrow> nat option option" where
  "recover_y_canonical K x =
     Option.bind (be32 x) (\<lambda>xb.
       (case ep_from_bytes K (0x02 # xb) of
          None \<Rightarrow> Some None
        | Some ep \<Rightarrow>
            (case affine_from_encoded_point K ep of
               None \<Rightarrow> Some None
             | Some affine \<Rightarrow> map_option (\<lambda>a. Some (y_coord a)) (from_k256_affine K affine))))"

definition scalar_mul_affine_x ::
  "('fe, 'sc, 'ep, 'pt) k256 \<Rightarrow> nat \<Rightarrow> AffinePoint \<Rightarrow> nat option" where
  "scalar_mul_affine_x K k g =
     Option.bind (Option.bind (be32 k) (sc_from_repr K)) (\<lambda>scalar.
       Option.bind (to_k256_affine K g) (\<lambda>g_proj.
         map_option x_coord (from_k256_affine K (point_mul K g_proj scalar))))"

section \<open>The entry points\<close>

definition prepare :: "('fe, 'sc, 'ep, 'pt) k256 \<Rightarrow> u8 list \<Rightarrow> u8 list
    \<Rightarrow> (EcsmError, nat \<times> AffinePoint) result option" where
  "prepare K k_le xg_le =
     (let k = from_bytes_le k_le; xg = from_bytes_le xg_le
      in if k = 0 then Some (Inl ScalarIsZero)
         else if k \<ge> secp_n then Some (Inl ScalarOutOfRange)
         else if xg \<ge> secp_p then Some (Inl CoordinateOutOfRange)
         else map_option
                (\<lambda>y. rbind (ok_or NotOnCurve y) (\<lambda>yg. Inr (k, \<lparr>x_coord = xg, y_coord = yg\<rparr>)))
                (recover_y_canonical K xg))"

definition scalar_mul_x ::
  "('fe, 'sc, 'ep, 'pt) k256 \<Rightarrow> u8 list \<Rightarrow> u8 list \<Rightarrow> (EcsmError, u8 list) result option" where
  "scalar_mul_x K k_le xg_le =
     Option.bind (prepare K k_le xg_le) (\<lambda>r.
       (case r of
          Inl e \<Rightarrow> Some (Inl e)
        | Inr (k, g) \<Rightarrow> map_option (\<lambda>v. Inr (to_le_32 v)) (scalar_mul_affine_x K k g)))"

section \<open>Byte conversions\<close>

lemma from_bytes_le_append: "from_bytes_le (xs @ ys) = from_bytes_le xs + 256 ^ length xs * from_bytes_le ys"
  by (induction xs) (auto simp: algebra_simps)

lemma from_bytes_le_zeros [simp]: "from_bytes_le (replicate n 0) = 0"
  by (induction n) auto

lemma from_bytes_le_digits [simp]: "from_bytes_le (le_digits v) = v"
proof (induction v rule: le_digits.induct)
  case (1 v)
  then show ?case
    by (subst le_digits.simps) (simp add: unat_of_nat_less [of "v mod 256", where 'a = 8])
qed

lemma length_le_digits: "length (le_digits v) \<le> n \<longleftrightarrow> v < 256 ^ n"
proof (induction v arbitrary: n rule: le_digits.induct)
  case (1 v)
  show ?case
  proof (cases "v = 0")
    case False
    then show ?thesis
      using 1 [of "n - 1"] by (subst le_digits.simps, cases n) (auto simp: div_less_iff_less_mult algebra_simps)
  qed (simp add: le_digits.simps)
qed

lemma from_to_bytes_le [simp]: "from_bytes_le (to_bytes_le v) = v"
  by (simp add: to_bytes_le_def)

lemma length_to_bytes_le: "length (to_bytes_le v) \<le> 32 \<longleftrightarrow> v < 2 ^ 256"
  using length_le_digits [of v 32] by (simp add: to_bytes_le_def)

lemma be32_eq:
  "be32 v = (if v < 2 ^ 256 then Some (replicate (32 - length (to_bytes_le v)) 0 @ rev (to_bytes_le v)) else None)"
  using length_to_bytes_le [of v] by (simp add: be32_def to_bytes_be_def Let_def)

lemma be32_Some:
  assumes "be32 v = Some bs"
  shows "from_bytes_be bs = v" "length bs = 32"
  using assms length_to_bytes_le [of v]
  by (auto simp: be32_eq from_bytes_be_def from_bytes_le_append split: if_splits)

lemma from_bytes_le_inj:
  "length xs = length ys \<Longrightarrow> from_bytes_le xs = from_bytes_le ys \<Longrightarrow> xs = ys"
proof (induction xs ys rule: list_induct2)
  case (Cons x xs y ys)
  have "unat x < 256" "unat y < 256" using unat_lt2p [of x] unat_lt2p [of y] by simp_all
  then have e: "(unat x + 256 * from_bytes_le xs) mod 256 = unat x" "(unat x + 256 * from_bytes_le xs) div 256 = from_bytes_le xs"
    "(unat y + 256 * from_bytes_le ys) mod 256 = unat y" "(unat y + 256 * from_bytes_le ys) div 256 = from_bytes_le ys"
    by auto
  then have "unat x = unat y" "from_bytes_le xs = from_bytes_le ys" using Cons.prems by (metis from_bytes_le.simps(2))+
  then show ?case using Cons.IH by (metis of_nat_unat_id)
qed simp

lemma from_bytes_le_less: "from_bytes_le xs < 256 ^ length xs"
proof (induction xs)
  case (Cons x xs)
  have "unat x < 256" using unat_lt2p [of x] by simp
  then show ?case using Cons by simp
qed simp

lemma be32_from_bytes_be: "length bs = 32 \<Longrightarrow> be32 (from_bytes_be bs) = Some bs"
proof -
  assume l: "length bs = 32"
  then have "from_bytes_be bs < 2 ^ 256" using from_bytes_le_less [of "rev bs"] by (simp add: from_bytes_be_def)
  then obtain cs where cs: "be32 (from_bytes_be bs) = Some cs" by (simp add: be32_eq)
  have "rev cs = rev bs"
    using be32_Some [OF cs] l by (intro from_bytes_le_inj) (simp_all add: from_bytes_be_def)
  then show ?thesis using cs by simp
qed

lemma to_le_32_from_bytes_be: "length bs = 32 \<Longrightarrow> to_le_32 (from_bytes_be bs) = rev bs"
proof -
  assume l: "length bs = 32"
  let ?v = "from_bytes_be bs"
  have "length (to_bytes_le ?v) \<le> 32"
    using from_bytes_le_less [of "rev bs"] l by (simp add: length_to_bytes_le from_bytes_be_def)
  then have "length (to_le_32 ?v) = length (rev bs) \<and> from_bytes_le (to_le_32 ?v) = from_bytes_le (rev bs)"
    using l by (simp add: to_le_32_def vec_resize_def from_bytes_le_append) (simp add: from_bytes_be_def)
  then show ?thesis using from_bytes_le_inj by blast
qed

lemma from_bytes_le_ones: "from_bytes_le (replicate n 0xFF) = 256 ^ n - 1"
proof (induction n)
  case (Suc n)
  have "(0::nat) < 256 ^ n" by simp
  then have "255 + 256 * (256 ^ n - 1) = (256::nat) ^ Suc n - 1" unfolding power_Suc by linarith
  then show ?case using Suc by simp
qed simp

lemma secp_p_value: "secp_p = 2 ^ 256 - 2 ^ 32 - 977"
  by (simp add: secp_p_def P_BYTES_def from_bytes_le_append from_bytes_le_ones)

lemma secp_n_value: "secp_n = 0xFFFFFFFFFFFFFFFFFFFFFFFFFFFFFFFEBAAEDCE6AF48A03BBFD25E8CD0364141"
  by (simp add: secp_n_def N_BYTES_def from_bytes_le_append from_bytes_le_ones)

lemma R_BYTES_value: "from_bytes_le R_BYTES = 3 * secp_p"
  by (simp add: secp_p_value R_BYTES_def from_bytes_le_append from_bytes_le_ones)

section \<open>The entry points never panic\<close>

text \<open>What the sources rely on of the curve points of \<open>k256\<close>.  A point that is not the identity has
  two coordinates of 32 bytes.  Well-formed compressed encodings are accepted as encodings; a point
  decompressed from one has the encoded abscissa; a point is recovered from its coordinates; scalars
  below the group order decode; and a point times a non-zero scalar is not the identity, because the
  group has prime order.\<close>

definition point_coords :: "('fe, 'sc, 'ep, 'pt) k256 \<Rightarrow> 'pt \<Rightarrow> u8 list \<Rightarrow> u8 list \<Rightarrow> bool" where
  "point_coords K q xb yb \<longleftrightarrow> ep_x K (affine_to_encoded_point K q) = Some xb
     \<and> ep_y K (affine_to_encoded_point K q) = Some yb \<and> length xb = 32 \<and> length yb = 32"

definition decompress :: "('fe, 'sc, 'ep, 'pt) k256 \<Rightarrow> u8 list \<Rightarrow> 'pt option" where
  "decompress K xb = Option.bind (ep_from_bytes K (0x02 # xb)) (affine_from_encoded_point K)"

definition k256_curve_laws :: "('fe, 'sc, 'ep, 'pt) k256 \<Rightarrow> bool" where
  "k256_curve_laws K \<longleftrightarrow>
     (\<forall>xb q. length xb = 32 \<longrightarrow> decompress K xb = Some q \<longrightarrow> (\<exists>yb. point_coords K q xb yb))
   \<and> (\<forall>q xb yb. point_coords K q xb yb \<longrightarrow>
        affine_from_encoded_point K (ep_from_affine_coordinates K xb yb) = Some q)
   \<and> (\<forall>bs. length bs = 32 \<longrightarrow> from_bytes_be bs < secp_n \<longrightarrow> (\<exists>s. sc_from_repr K bs = Some s))
   \<and> (\<forall>q xb yb bs s. point_coords K q xb yb \<longrightarrow> length bs = 32 \<longrightarrow> 0 < from_bytes_be bs \<longrightarrow>
        sc_from_repr K bs = Some s \<longrightarrow> (\<exists>xr yr. point_coords K (point_mul K q s) xr yr))"

lemma recover_y_decompress:
  assumes "k256_curve_laws K" "length xb = 32"
  shows "recover_y_canonical K (from_bytes_be xb) =
    Some (map_option (\<lambda>q. from_bytes_be (the (ep_y K (affine_to_encoded_point K q)))) (decompress K xb))"
proof -
  have "\<exists>yb. point_coords K q xb yb" if "decompress K xb = Some q" for q
    using assms that by (auto simp: k256_curve_laws_def)
  then show ?thesis
    by (auto simp: recover_y_canonical_def be32_from_bytes_be [OF assms(2)] decompress_def point_coords_def
        from_k256_affine_def Let_def split: option.splits)
qed

lemma scalar_mul_affine_x_eq:
  assumes "k256_curve_laws K" "length kb = 32" "0 < from_bytes_be kb" "from_bytes_be kb < secp_n"
    "point_coords K q xb yb"
  shows "\<exists>s xr yr. sc_from_repr K kb = Some s \<and> point_coords K (point_mul K q s) xr yr
    \<and> scalar_mul_affine_x K (from_bytes_be kb) \<lparr>x_coord = from_bytes_be xb, y_coord = from_bytes_be yb\<rparr>
        = Some (from_bytes_be xr)"
proof -
  obtain s where s: "sc_from_repr K kb = Some s" using assms(1,2,4) by (auto simp: k256_curve_laws_def)
  obtain xr yr where r: "point_coords K (point_mul K q s) xr yr"
    using assms(1,2,3,5) s unfolding k256_curve_laws_def by blast
  have "affine_from_encoded_point K (ep_from_affine_coordinates K xb yb) = Some q"
    using assms(1,5) by (auto simp: k256_curve_laws_def)
  moreover have "length xb = 32" "length yb = 32" using assms(5) by (auto simp: point_coords_def)
  ultimately show ?thesis
    using s r assms(2) by (auto simp: scalar_mul_affine_x_def to_k256_affine_def be32_from_bytes_be
        from_k256_affine_def Let_def point_coords_def)
qed

lemma scalar_mul_x_cases:
  assumes "k256_curve_laws K" "length k_le = 32" "length xg_le = 32"
  shows "\<exists>r. scalar_mul_x K k_le xg_le = Some r \<and>
    (let k = from_bytes_le k_le; x = from_bytes_le xg_le
     in if k = 0 then r = Inl ScalarIsZero
        else if secp_n \<le> k then r = Inl ScalarOutOfRange
        else if secp_p \<le> x then r = Inl CoordinateOutOfRange
        else case decompress K (rev xg_le) of
            None \<Rightarrow> r = Inl NotOnCurve
          | Some q \<Rightarrow> \<exists>xr s yr. r = Inr xr \<and> sc_from_repr K (rev k_le) = Some s \<and> point_coords K (point_mul K q s) (rev xr) yr)"
proof -
  let ?k = "from_bytes_le k_le" and ?x = "from_bytes_le xg_le"
  have e: "from_bytes_be (rev k_le) = ?k" "from_bytes_be (rev xg_le) = ?x" by (simp_all add: from_bytes_be_def)
  show ?thesis
  proof (cases "0 < ?k \<and> ?k < secp_n \<and> ?x < secp_p")
    case False
    then show ?thesis
      by (auto simp: scalar_mul_x_def prepare_def Let_def)
  next
    case True
    note y = recover_y_decompress [OF assms(1), of "rev xg_le", unfolded e]
    show ?thesis
    proof (cases "decompress K (rev xg_le)")
      case None
      then have "scalar_mul_x K k_le xg_le = Some (Inl NotOnCurve)"
        using True y assms(3) by (simp add: scalar_mul_x_def prepare_def)
      then show ?thesis
        using True None by simp
    next
      case (Some q)
      then obtain yb where c: "point_coords K q (rev xg_le) yb"
        using assms(1,3) unfolding k256_curve_laws_def by (metis length_rev)
      obtain s xr yr where s: "sc_from_repr K (rev k_le) = Some s" "point_coords K (point_mul K q s) xr yr"
        "scalar_mul_affine_x K ?k \<lparr>x_coord = ?x, y_coord = from_bytes_be yb\<rparr> = Some (from_bytes_be xr)"
        using scalar_mul_affine_x_eq [OF assms(1) _ _ _ c, of "rev k_le"] True assms(2) unfolding e by auto
      have "length xr = 32" using s(2) by (simp add: point_coords_def)
      then have "scalar_mul_x K k_le xg_le = Some (Inr (rev xr))"
        using True Some y assms(3) s(3) c
        by (simp add: scalar_mul_x_def prepare_def point_coords_def to_le_32_from_bytes_be)
      then show ?thesis
        using True Some s by auto
    qed
  qed
qed

text \<open>C26: the scalar multiplication of the accelerator is total. For 32-byte operands it never
  panics, given the documented behaviour of the curve library. It checks in this order, and reports
  the first violated condition: the scalar is not zero, it is below the group order of secp256k1,
  the abscissa is below \<open>2\<^sup>2\<^sup>5\<^sup>6 - 2\<^sup>3\<^sup>2 - 977\<close>, a curve point has it; otherwise it returns the 32
  little-endian bytes of the abscissa of the product of the scalar and the point with the given
  abscissa.\<close>

theorem scalar_mul_x_total:
  assumes "k256_curve_laws K" "length k_le = 32" "length xg_le = 32"
  shows "\<exists>r. scalar_mul_x K k_le xg_le = Some r \<and>
    (let k = from_bytes_le k_le; x = from_bytes_le xg_le
     in if k = 0 then r = Inl ScalarIsZero
        else if 0xFFFFFFFFFFFFFFFFFFFFFFFFFFFFFFFEBAAEDCE6AF48A03BBFD25E8CD0364141 \<le> k then r = Inl ScalarOutOfRange
        else if 2 ^ 256 - 2 ^ 32 - 977 \<le> x then r = Inl CoordinateOutOfRange
        else case decompress K (rev xg_le) of
            None \<Rightarrow> r = Inl NotOnCurve
          | Some q \<Rightarrow> \<exists>xr s yr. r = Inr xr \<and> sc_from_repr K (rev k_le) = Some s \<and> point_coords K (point_mul K q s) (rev xr) yr)"
  using scalar_mul_x_cases [OF assms] unfolding secp_p_value secp_n_value .

text \<open>A concrete parameter: a single curve point, with abscissa one and ordinate zero.\<close>

definition k256_single :: "(unit, unit, bool, bool) k256" where
  "k256_single =
     \<lparr>fe_from_bytes = (\<lambda>_. None), fe_to_bytes = (\<lambda>_. []), fe_invert = (\<lambda>_. None),
      fe_sqrt = (\<lambda>_. None), sc_from_repr = (\<lambda>_. Some ()), sc_to_bytes = (\<lambda>_. []),
      sc_invert = (\<lambda>_. None), ep_from_bytes = (\<lambda>bs. Some (bs = 0x02 # replicate 31 0 @ [1])),
      ep_from_affine_coordinates = (\<lambda>x y. x = replicate 31 0 @ [1] \<and> y = replicate 32 0),
      ep_x = (\<lambda>e. if e then Some (replicate 31 0 @ [1]) else None),
      ep_y = (\<lambda>e. if e then Some (replicate 32 0) else None),
      affine_from_encoded_point = (\<lambda>e. if e then Some True else None),
      affine_to_encoded_point = (\<lambda>q. q), point_mul = (\<lambda>q s. q)\<rparr>"

lemma k256_single_laws: "k256_curve_laws k256_single"
  by (auto simp: k256_curve_laws_def k256_single_def point_coords_def decompress_def split: if_splits)

theorem scalar_mul_x_total_witness:
  "\<exists>xr. scalar_mul_x k256_single (2 # replicate 31 0) (1 # replicate 31 0) = Some (Inr xr) \<and> length xr = 32"
proof -
  have k: "from_bytes_le (2 # replicate 31 0) = 2" "from_bytes_le (1 # replicate 31 0) = 1" by simp_all
  have d: "decompress k256_single (rev (1 # replicate 31 0)) = Some True"
    by (simp add: decompress_def k256_single_def)
  show ?thesis
    using scalar_mul_x_total [OF k256_single_laws, of "2 # replicate 31 0" "1 # replicate 31 0", unfolded k Let_def d]
    by (auto simp: point_coords_def)
qed

end
