(* ===== verification/Vm_Alu.thy ===== *)
theory Vm_Alu
  imports Vm_Memory Vm_Registers Vm_Decoding Ecsm_Curve "HOL-Library.Signed_Division"
begin

text \<open>
  The arithmetic of the instruction set: \<open>ArithOp::apply\<close>, \<open>ArithOp::apply_word\<close> and
  \<open>Comparison::apply\<close> of \<^verbatim>\<open>executor/src/vm/instruction/execution.rs\<close>, and the error type
  \<open>ExecutionError\<close> of that file.  Signed integers are words read as two's complement; the casts
  between widths are \<open>scast\<close> and \<open>ucast\<close>.
\<close>

section \<open>Errors of the execution of an instruction\<close>

text \<open>The constructors are those of the source; \<open>RustPanic\<close> stands for a panic of the process.\<close>

datatype ExecutionError =
  SubImmNotSupported
  | StoreBytesUnsignedNotSupported
  | StoreHalfUnsignedNotSupported
  | StoreWordUnsignedNotSupported
  | ExecMemoryError MemoryError
  | ExecRegisterError RegisterError
  | UnknownSyscall u64
  | Panic "u8 list"
  | IncorrectMessage
  | InvalidWSuffixOperation ArithOp
  | InvalidCommitFd u64
  | UnalignedKeccakStateAddress u64
  | KeccakStateAddressOverflow u64
  | EcsmAddressOverflow
  | EcsmOperandOverlap
  | DmaChunkTooLarge u64
  | DmaMemsetBadGap u64 u64
  | HintAddressOverflow
  | HintUnknownSelector u64
  | ExecEcsm EcsmError
  | RustPanic

section \<open>Operations\<close>

text \<open>Signed division truncates towards zero; the one overflow, the least value divided by
  \<open>-1\<close>, wraps.\<close>

definition wrapping_div :: "'a::len word \<Rightarrow> 'a word \<Rightarrow> 'a word" where
  "wrapping_div a b = word_of_int (sint a sdiv sint b)"

definition wrapping_rem :: "'a::len word \<Rightarrow> 'a word \<Rightarrow> 'a word" where
  "wrapping_rem a b = word_of_int (sint a smod sint b)"

definition shamt6 :: "u64 \<Rightarrow> nat" where
  "shamt6 b = unat ((ucast b :: u32) AND 0x3F)"

definition shamt5 :: "u32 \<Rightarrow> nat" where
  "shamt5 b = unat (b AND 0x1F)"

fun arith_apply :: "ArithOp \<Rightarrow> u64 \<Rightarrow> u64 \<Rightarrow> u64" where
  "arith_apply Add a b = a + b"
| "arith_apply Sub a b = a - b"
| "arith_apply Xor a b = a XOR b"
| "arith_apply Or a b = a OR b"
| "arith_apply And a b = a AND b"
| "arith_apply ShiftLeftLogical a b = push_bit (shamt6 b) a"
| "arith_apply ShiftRightLogical a b = drop_bit (shamt6 b) a"
| "arith_apply ShiftRightArith a b = signed_drop_bit (shamt6 b) a"
| "arith_apply SetLessThan a b = (if a <s b then 1 else 0)"
| "arith_apply SetLessThanU a b = (if a < b then 1 else 0)"
| "arith_apply Mul a b = a * b"
| "arith_apply MulHigh a b = ucast (signed_drop_bit 64 ((scast a :: u128) * scast b))"
| "arith_apply MulHighSignedUnsigned a b =
     ucast (signed_drop_bit 64 ((scast a :: u128) * ucast b))"
| "arith_apply MulHighUnsigned a b = ucast (drop_bit 64 ((ucast a :: u128) * ucast b))"
| "arith_apply Div a b = (if b = 0 then - 1 else wrapping_div a b)"
| "arith_apply DivUnsigned a b = (if b = 0 then - 1 else a div b)"
| "arith_apply Remainder a b = (if b = 0 then a else wrapping_rem a b)"
| "arith_apply RemainderUnsigned a b = (if b = 0 then a else a mod b)"

fun arith_apply_word :: "ArithOp \<Rightarrow> u32 \<Rightarrow> u32 \<Rightarrow> (ExecutionError, u32) result" where
  "arith_apply_word Add a b = Inr (a + b)"
| "arith_apply_word Sub a b = Inr (a - b)"
| "arith_apply_word ShiftLeftLogical a b = Inr (push_bit (shamt5 b) a)"
| "arith_apply_word ShiftRightLogical a b = Inr (drop_bit (shamt5 b) a)"
| "arith_apply_word ShiftRightArith a b = Inr (signed_drop_bit (shamt5 b) a)"
| "arith_apply_word Mul a b = Inr (a * b)"
| "arith_apply_word Div a b = Inr (if b = 0 then - 1 else wrapping_div a b)"
| "arith_apply_word DivUnsigned a b = Inr (if b = 0 then - 1 else a div b)"
| "arith_apply_word Remainder a b = Inr (if b = 0 then a else wrapping_rem a b)"
| "arith_apply_word RemainderUnsigned a b = Inr (if b = 0 then a else a mod b)"
| "arith_apply_word oper a b = Inl (InvalidWSuffixOperation oper)"

fun comparison_apply :: "Comparison \<Rightarrow> u64 \<Rightarrow> u64 \<Rightarrow> bool" where
  "comparison_apply Equal a b \<longleftrightarrow> a = b"
| "comparison_apply NotEqual a b \<longleftrightarrow> a \<noteq> b"
| "comparison_apply LessThan a b \<longleftrightarrow> a <s b"
| "comparison_apply GreaterOrEqual a b \<longleftrightarrow> b \<le>s a"
| "comparison_apply LessThanUnsigned a b \<longleftrightarrow> a < b"
| "comparison_apply GreaterOrEqualUnsigned a b \<longleftrightarrow> b \<le> a"

section \<open>Multiplication\<close>

lemma uint_high_half: "uint (ucast (drop_bit 64 (w :: u128)) :: u64) = uint w div 2 ^ 64"
proof -
  have l: "uint w div 2 ^ 64 < 2 ^ 64" using uint_lt2p [of w] by simp
  have "uint (ucast (drop_bit 64 w) :: u64) = take_bit 64 (drop_bit 64 (uint w))"
    using uint_lt2p [of w]
    by (simp only: unsigned_ucast_eq unsigned_drop_bit_eq) (simp add: take_bit_int_eq_self)
  moreover have "(uint w div 2 ^ 64) mod 2 ^ 64 = uint w div 2 ^ 64"
    by (rule mod_pos_pos_trivial) (use l in \<open>simp_all add: pos_imp_zdiv_nonneg_iff\<close>)
  ultimately show ?thesis by (simp only: drop_bit_eq_div take_bit_eq_mod)
qed

lemma sint_high_half: "sint (ucast (signed_drop_bit 64 (w :: u128)) :: u64) = sint w div 2 ^ 64"
proof -
  have "- (2 ^ 127) \<le> sint w" "sint w < 2 ^ 127"
    using sint_greater_eq [of w] sint_less [of w] by simp_all
  then have b: "- (2 ^ 63) \<le> sint w div 2 ^ 64" "sint w div 2 ^ 64 < 2 ^ 63" by simp_all
  have "(ucast (signed_drop_bit 64 w) :: u64) = word_of_int (sint (signed_drop_bit 64 w))"
    by (simp add: scast_eq [symmetric] down_cast_same is_down)
  also have "sint (signed_drop_bit 64 w) = sint w div 2 ^ 64"
    by (simp add: sint_signed_drop_bit_eq drop_bit_eq_div)
  finally have "sint (ucast (signed_drop_bit 64 w) :: u64) = signed_take_bit 63 (sint w div 2 ^ 64)"
    by (simp add: sint_sbintrunc')
  then show ?thesis using b by (simp add: signed_take_bit_int_eq_self)
qed

lemma abs_sint_64: "\<bar>sint (a :: u64)\<bar> \<le> 2 ^ 63"
  using sint_greater_eq [of a] sint_less [of a] by simp

lemma prod_bound:
  fixes x y :: int
  assumes "\<bar>x\<bar> \<le> c" "\<bar>y\<bar> \<le> d"
  shows "\<bar>x * y\<bar> \<le> c * d"
  using assms by (simp add: abs_mult mult_mono)

text \<open>The 128-bit products do not overflow.\<close>

lemma sint_mul128: "sint ((scast (a :: u64) :: u128) * scast (b :: u64)) = sint a * sint b"
proof -
  have "\<bar>sint a * sint b\<bar> \<le> 2 ^ 63 * 2 ^ 63" by (intro prod_bound abs_sint_64)
  then have "signed_take_bit 127 (sint a * sint b) = sint a * sint b"
    by (intro signed_take_bit_int_eq_self) simp_all
  then show ?thesis by (simp add: sint_word_ariths sint_scast_up)
qed

lemma sint_mul128_mixed: "sint ((scast (a :: u64) :: u128) * ucast (b :: u64)) = sint a * uint b"
proof -
  have "\<bar>uint b\<bar> \<le> 2 ^ 64" using uint_lt2p [of b] by simp
  then have "\<bar>sint a * uint b\<bar> \<le> 2 ^ 63 * 2 ^ 64" by (intro prod_bound abs_sint_64)
  moreover have "\<bar>sint a * uint b\<bar> \<noteq> 2 ^ 63 * 2 ^ 64"
  proof -
    have "\<bar>uint b\<bar> \<le> 2 ^ 64 - 1" using uint_lt2p [of b] by simp
    then have "\<bar>sint a * uint b\<bar> \<le> 2 ^ 63 * (2 ^ 64 - 1)" by (intro prod_bound abs_sint_64)
    then show ?thesis by simp
  qed
  ultimately have "signed_take_bit 127 (sint a * uint b) = sint a * uint b"
    by (intro signed_take_bit_int_eq_self) simp_all
  then show ?thesis by (simp add: sint_word_ariths sint_scast_up sint_ucast_up)
qed

lemma uint_mul128: "uint ((ucast (a :: u64) :: u128) * ucast (b :: u64)) = uint a * uint b"
proof -
  have "uint a * uint b \<le> (2 ^ 64 - 1) * (2 ^ 64 - 1)"
    using uint_lt2p [of a] uint_lt2p [of b] by (intro mult_mono) simp_all
  then show ?thesis
    by (simp add: uint_word_ariths uint_ucast_up)
qed

lemma uint_mul_mod: "uint ((a :: u64) * b) = (uint a * uint b) mod 2 ^ 64"
  by (simp add: uint_word_ariths)

lemma uint_mul_signed: "uint ((a :: u64) * b) = (sint a * sint b) mod 2 ^ 64"
  "uint ((a :: u64) * b) = (sint a * uint b) mod 2 ^ 64"
  using uint_word_of_int [of "sint a * sint b", where 'a = 64]
    uint_word_of_int [of "sint a * uint b", where 'a = 64] by simp_all

text \<open>C7: multiplication is exact. The high-half operations of the M extension are the quotient
  of the exact integer product (signed, mixed or unsigned) by \<open>2^64\<close>, so that together with
  the low half the full 128-bit product is recovered.\<close>

theorem mul_exact:
  "sint (arith_apply MulHigh a b) * 2 ^ 64 + uint (arith_apply Mul a b) = sint a * sint b
   \<and> sint (arith_apply MulHighSignedUnsigned a b) * 2 ^ 64 + uint (arith_apply Mul a b)
       = sint a * uint b
   \<and> uint (arith_apply MulHighUnsigned a b) * 2 ^ 64 + uint (arith_apply Mul a b) = uint a * uint b"
proof (intro conjI)
  show "sint (arith_apply MulHigh a b) * 2 ^ 64 + uint (arith_apply Mul a b) = sint a * sint b"
    by (simp only: arith_apply.simps sint_high_half sint_mul128 uint_mul_signed(1) div_mult_mod_eq)
  show "sint (arith_apply MulHighSignedUnsigned a b) * 2 ^ 64 + uint (arith_apply Mul a b)
     = sint a * uint b"
    by (simp only: arith_apply.simps sint_high_half sint_mul128_mixed uint_mul_signed(2)
        div_mult_mod_eq)
  show "uint (arith_apply MulHighUnsigned a b) * 2 ^ 64 + uint (arith_apply Mul a b)
     = uint a * uint b"
    by (simp only: arith_apply.simps uint_high_half uint_mul128 uint_mul_mod div_mult_mod_eq)
qed

section \<open>Division\<close>

lemma abs_sdiv_le: "\<bar>x sdiv y\<bar> \<le> \<bar>x\<bar>" for x y :: int
  using sdiv_int_range [of x y] by auto

lemma abs_smod_le: "\<bar>x smod y\<bar> \<le> \<bar>x\<bar>" for x y :: int
  by (cases "y = 0") (simp_all add: signed_modulo_int_def abs_mult abs_sgn_eq zmod_le_nonneg_dividend)

lemma smod_sgn: "x smod y = 0 \<or> sgn (x smod y) = sgn x" for x y :: int
proof -
  have "0 \<le> \<bar>x\<bar> mod \<bar>y\<bar>" by (cases "y = 0") simp_all
  then have "\<bar>x\<bar> mod \<bar>y\<bar> = 0 \<or> sgn (\<bar>x\<bar> mod \<bar>y\<bar>) = 1" by (simp add: sgn_if)
  then show ?thesis by (auto simp: signed_modulo_int_def sgn_mult)
qed

lemma sint_wrapping_rem: "sint (wrapping_rem a b) = sint a smod sint b" for a b :: "'a::len word"
proof -
  have "\<bar>sint a smod sint b\<bar> \<le> \<bar>sint a\<bar>" by (rule abs_smod_le)
  moreover have "sint a smod sint b \<noteq> 2 ^ (LENGTH('a) - 1)"
  proof
    assume e: "sint a smod sint b = 2 ^ (LENGTH('a) - 1)"
    then have "0 < sgn (sint a) * (\<bar>sint a\<bar> mod \<bar>sint b\<bar>)"
      by (simp add: signed_modulo_int_def)
    moreover have "0 \<le> \<bar>sint a\<bar> mod \<bar>sint b\<bar>" by (cases "sint b = 0") simp_all
    ultimately have "0 < sint a" by (simp add: zero_less_mult_iff)
    then have "\<bar>sint a\<bar> < 2 ^ (LENGTH('a) - 1)" using sint_bounds(2) [of a] by simp
    then show False using e abs_smod_le [of "sint a" "sint b"] by simp
  qed
  ultimately have "- (2 ^ (LENGTH('a) - 1)) \<le> sint a smod sint b"
    "sint a smod sint b < 2 ^ (LENGTH('a) - 1)"
    using sint_bounds [of a] by linarith+
  then show ?thesis by (simp add: wrapping_rem_def sint_sbintrunc' signed_take_bit_int_eq_self)
qed

lemma sint_wrapping_div:
  fixes a b :: "'a::len word"
  assumes "\<not> (sint a = - (2 ^ (LENGTH('a) - 1)) \<and> sint b = - 1)"
  shows "sint (wrapping_div a b) = sint a sdiv sint b"
proof -
  have "sint a sdiv sint b \<noteq> 2 ^ (LENGTH('a) - 1)"
  proof
    assume e: "sint a sdiv sint b = 2 ^ (LENGTH('a) - 1)"
    then have "\<bar>sint a\<bar> = 2 ^ (LENGTH('a) - 1)"
      using abs_sdiv_le [of "sint a" "sint b"] sint_bounds [of a] by simp
    then have m: "sint a = - (2 ^ (LENGTH('a) - 1))" using sint_bounds(2) [of a] by linarith
    with e have "sint a sdiv sint b = - sint a" by simp
    then show False
      using int_sdiv_negated_is_minus1 [of "sint a" "sint b"] m assms by simp
  qed
  then have "- (2 ^ (LENGTH('a) - 1)) \<le> sint a sdiv sint b"
    "sint a sdiv sint b < 2 ^ (LENGTH('a) - 1)"
    using abs_sdiv_le [of "sint a" "sint b"] sint_bounds [of a] by linarith+
  then show ?thesis by (simp add: wrapping_div_def sint_sbintrunc' signed_take_bit_int_eq_self)
qed

lemma wrapping_div_rem: "wrapping_div a b * b + wrapping_rem a b = a" for a b :: "'a::len word"
proof -
  have "wrapping_div a b * b + wrapping_rem a b
    = word_of_int (sint a sdiv sint b * sint b + sint a smod sint b)"
    by (simp add: wrapping_div_def wrapping_rem_def)
  then show ?thesis by (simp add: sdiv_mult_smod_eq)
qed

text \<open>C8: signed division and remainder. For every divisor the quotient times the divisor plus
  the remainder is the dividend; for a non-zero divisor the remainder is smaller in magnitude
  than the divisor and has the sign of the dividend, and the quotient is the integer quotient
  truncated towards zero except for the one overflowing case, which gives the least value and
  the remainder zero; division by zero gives all ones and the dividend.\<close>

theorem div_rem_signed:
  "arith_apply Div a b * b + arith_apply Remainder a b = a
   \<and> (b \<noteq> 0 \<longrightarrow> \<bar>sint (arith_apply Remainder a b)\<bar> < \<bar>sint b\<bar>)
   \<and> (sint (arith_apply Remainder a b) = 0
        \<or> sgn (sint (arith_apply Remainder a b)) = sgn (sint a))
   \<and> (b \<noteq> 0 \<and> (sint a, b) \<noteq> (- (2 ^ 63), - 1) \<longrightarrow>
        sint (arith_apply Div a b) = sint a sdiv sint b)
   \<and> (sint a = - (2 ^ 63) \<longrightarrow> arith_apply Div a (- 1) = a \<and> arith_apply Remainder a (- 1) = 0)
   \<and> arith_apply Div a 0 = - 1 \<and> arith_apply Remainder a 0 = a"
proof (intro conjI impI)
  show "arith_apply Div a b * b + arith_apply Remainder a b = a"
    by (simp add: wrapping_div_rem)
  show "\<bar>sint (arith_apply Remainder a b)\<bar> < \<bar>sint b\<bar>" if "b \<noteq> 0"
  proof -
    have "sint b \<noteq> 0" using that by (simp add: signed_eq_0_iff)
    then show ?thesis
      using smod_int_range [of "sint b" "sint a"] that by (auto simp: sint_wrapping_rem)
  qed
  show "sint (arith_apply Remainder a b) = 0
     \<or> sgn (sint (arith_apply Remainder a b)) = sgn (sint a)"
    using smod_sgn [of "sint a" "sint b"] by (simp add: sint_wrapping_rem)
  show "sint (arith_apply Div a b) = sint a sdiv sint b"
    if "b \<noteq> 0 \<and> (sint a, b) \<noteq> (- (2 ^ 63), - 1)"
    using sint_wrapping_div [of a b] that word_eq_iff_signed [of b "- 1", where 'a = int] by auto
  assume m: "sint a = - (2 ^ 63)"
  then have "a = word_of_int (- (2 ^ 63))" by (metis of_int_sint scast_id)
  with m show "arith_apply Div a (- 1) = a" "arith_apply Remainder a (- 1) = 0"
    by (simp_all add: wrapping_div_def wrapping_rem_def smod_int_alt_def)
qed simp_all

theorem div_rem_signed_witness:
  "\<bar>sint (arith_apply Remainder (- 7) 2)\<bar> < 2 \<and> sint (arith_apply Div (- 7) 2) = - 3
     \<and> arith_apply Div 0x8000000000000000 (- 1) = 0x8000000000000000"
proof -
  have v: "sint (2 :: u64) = 2" "sint (- 7 :: u64) = - 7"
    "sint (0x8000000000000000 :: u64) = - (2 ^ 63)"
    by simp_all
  have "sint (arith_apply Div (- 7) 2) = - 7 sdiv 2" "\<bar>sint (arith_apply Remainder (- 7) 2)\<bar> < 2"
    using div_rem_signed [of "- 7" 2] v by simp_all
  then show ?thesis
    using div_rem_signed [of "0x8000000000000000" 0] v(3) by (simp only:) simp
qed

text \<open>Unsigned division and remainder are integer division on the unsigned values, and by
  zero they give all ones and the dividend.\<close>

theorem div_rem_unsigned:
  "unat (arith_apply DivUnsigned a b) = (if b = 0 then 2 ^ 64 - 1 else unat a div unat b)
   \<and> unat (arith_apply RemainderUnsigned a b) = (if b = 0 then unat a else unat a mod unat b)"
proof -
  have "(- 1 :: u64) = 0xFFFFFFFFFFFFFFFF" by simp
  then show ?thesis by (simp only: arith_apply.simps) (simp add: unat_div_distrib unat_mod_distrib)
qed

section \<open>The W-suffix operations\<close>

text \<open>The operations whose word form reads its operands as unsigned integers.\<close>

definition word_unsigned :: "ArithOp \<Rightarrow> bool" where
  "word_unsigned oper \<longleftrightarrow> oper \<in> {ShiftRightLogical, DivUnsigned, RemainderUnsigned}"

definition extend_word :: "ArithOp \<Rightarrow> u32 \<Rightarrow> u64" where
  "extend_word oper a = (if word_unsigned oper then ucast a else scast a)"

lemma low_word_of_int: "(ucast (word_of_int i :: u64) :: u32) = word_of_int i"
  by (rule ucast_down_wi) (simp add: is_down)

lemma low_ring:
  fixes x y :: u64
  shows "(ucast (x + y) :: u32) = ucast x + ucast y" "(ucast (x - y) :: u32) = ucast x - ucast y"
    "(ucast (x * y) :: u32) = ucast x * ucast y"
  using low_word_of_int [of "uint x + uint y"] low_word_of_int [of "uint x - uint y"]
    low_word_of_int [of "uint x * uint y"] by simp_all

lemma sint_extend: "sint (scast (a :: u32) :: u64) = sint a" "uint (ucast (a :: u32) :: u64) = uint a"
  by (simp_all add: sint_scast_up uint_ucast_up)

lemma low_extend [simp]: "(ucast (scast (a :: u32) :: u64) :: u32) = a"
    "(ucast (ucast (a :: u32) :: u64) :: u32) = a"
  using low_word_of_int [of "sint a"] low_word_of_int [of "uint a"] by simp_all

lemma extend_eq_0: "(scast (b :: u32) :: u64) = 0 \<longleftrightarrow> b = 0" "(ucast (b :: u32) :: u64) = 0 \<longleftrightarrow> b = 0"
  by (metis sint_extend(1) signed_eq_0_iff, metis sint_extend(2) unsigned_eq_0_iff)

lemma word_arith_agrees:
  "arith_apply_word Add a b = Inr (ucast (arith_apply Add (scast a) (scast b)))"
  "arith_apply_word Sub a b = Inr (ucast (arith_apply Sub (scast a) (scast b)))"
  "arith_apply_word Mul a b = Inr (ucast (arith_apply Mul (scast a) (scast b)))"
  by (simp_all only: arith_apply.simps arith_apply_word.simps low_ring low_extend)

lemma low_minus_one: "(ucast (- 1 :: u64) :: u32) = - 1"
  using low_word_of_int [of "- 1"] by simp

lemma word_div_agrees:
  "arith_apply_word Div a b = Inr (ucast (arith_apply Div (scast a) (scast b)))"
  "arith_apply_word Remainder a b = Inr (ucast (arith_apply Remainder (scast a) (scast b)))"
  by (simp_all add: extend_eq_0 wrapping_div_def wrapping_rem_def sint_extend low_word_of_int
      low_minus_one)

lemma word_divu_agrees:
  "arith_apply_word DivUnsigned a b = Inr (ucast (arith_apply DivUnsigned (ucast a) (ucast b)))"
  "arith_apply_word RemainderUnsigned a b
     = Inr (ucast (arith_apply RemainderUnsigned (ucast a) (ucast b)))"
  by (simp_all add: extend_eq_0 low_minus_one word_div_def word_mod_def sint_extend
      low_word_of_int)

lemma shamt_extend:
  "shamt6 (scast (b AND 0x1F)) = shamt5 b" "shamt6 (ucast (b AND 0x1F)) = shamt5 b" "shamt5 b < 32"
proof -
  have "b AND 0x1F < 32" by (rule and_mask_bounds)
  moreover from this have "b AND 0x1F < 64" by (rule order_less_trans) simp
  ultimately show "shamt6 (scast (b AND 0x1F)) = shamt5 b"
    "shamt6 (ucast (b AND 0x1F)) = shamt5 b" "shamt5 b < 32"
    using shift6_fields(2) [of "b AND 0x1F"]
    by (simp_all only: shamt6_def shamt5_def low_extend) (simp add: word_less_nat_alt)
qed

lemma bit_scast_word: "bit (scast (a :: u32) :: u64) i \<longleftrightarrow> i < 64 \<and> bit a (min 31 i)"
  by (simp add: bit_signed_iff min_def)

lemma shift_extended:
  fixes a :: u32
  assumes "k < 32"
  shows "push_bit k a = ucast (push_bit k (scast a :: u64))"
    "drop_bit k a = ucast (drop_bit k (ucast a :: u64))"
    "signed_drop_bit k a = ucast (signed_drop_bit k (scast a :: u64))"
proof -
  show "push_bit k a = ucast (push_bit k (scast a :: u64))"
  proof (rule bit_word_eqI)
    fix i assume "i < LENGTH(32)"
    then have "min 31 (i - k) = i - k" "i < 32" "i - k < 64" by simp_all
    then show "bit (push_bit k a) i = bit (ucast (push_bit k (scast a :: u64)) :: u32) i"
      by (simp add: bit_unsigned_iff bit_push_bit_iff bit_scast_word)
  qed
  show "drop_bit k a = ucast (drop_bit k (ucast a :: u64))"
    by (rule bit_word_eqI) (auto simp: bit_unsigned_iff bit_drop_bit_eq dest: bit_imp_le_length)
  show "signed_drop_bit k a = ucast (signed_drop_bit k (scast a :: u64))"
  proof (rule bit_word_eqI)
    fix i assume i: "i < LENGTH(32)"
    then have "\<not> 64 - k \<le> i" "k + i < 64" using assms by simp_all
    moreover have "min 31 (k + i) = (if 32 - k \<le> i then 31 else k + i)" using assms by auto
    ultimately show "bit (signed_drop_bit k a) i
        = bit (ucast (signed_drop_bit k (scast a :: u64)) :: u32) i"
      using i by (simp add: bit_unsigned_iff bit_signed_drop_bit_iff bit_scast_word)
  qed
qed

lemma word_shift_agrees:
  "arith_apply_word ShiftLeftLogical a b
     = Inr (ucast (arith_apply ShiftLeftLogical (scast a) (scast (b AND 0x1F))))"
  "arith_apply_word ShiftRightLogical a b
     = Inr (ucast (arith_apply ShiftRightLogical (ucast a) (ucast (b AND 0x1F))))"
  "arith_apply_word ShiftRightArith a b
     = Inr (ucast (arith_apply ShiftRightArith (scast a) (scast (b AND 0x1F))))"
  by (simp_all only: arith_apply.simps arith_apply_word.simps shamt_extend
      shift_extended [OF shamt_extend(3)])

text \<open>The W-suffix operations. A W-suffix operation is the 64-bit operation on the extended
  operands (zero-extended for the logical right shift and the unsigned division, sign-extended
  otherwise; the amount of a shift first reduced to five bits), truncated to its low word; exactly
  the operations that have no word form are errors.\<close>

theorem apply_word_spec:
  "arith_apply_word oper a b =
     (if w_supported oper
      then Inr (ucast (arith_apply oper (extend_word oper a)
                 (extend_word oper (if is_shift oper then b AND 0x1F else b))))
      else Inl (InvalidWSuffixOperation oper))"
  by (cases oper)
    (simp_all only: w_supported_def is_shift_def extend_word_def word_unsigned_def insert_iff
      empty_iff ArithOp.distinct simp_thms if_True if_False word_arith_agrees word_div_agrees
      word_divu_agrees word_shift_agrees arith_apply_word.simps(11-18))

end
