(* ===== verification/Vm_Syscalls.thy ===== *)
theory Vm_Syscalls
  imports Vm_Alu
begin

text \<open>
  The system-call numbers and the helpers of the \<open>ecall\<close> handlers of
  \<^verbatim>\<open>executor/src/vm/instruction/execution.rs\<close>: conversion of the raw numbers, the row schedule of
  the copy accelerator, the hint selectors, the 256-bit memory operands and the host-side hint
  computation over the \<open>k256\<close> parameter.
\<close>

section \<open>System-call numbers\<close>

datatype SyscallNumbers =
  SysKeccakPermute | SysPrint | SysPanic | SysCommit | SysHalt | SysEcsm | SysHint | SysDmaMemcpy
  | SysDmaMemset

datatype Accelerator = AccKeccak | AccEcsm | AccDma

definition U64_MAX :: u64 where "U64_MAX = - 1"

definition KECCAK_SYSCALL_NUMBER :: u64 where "KECCAK_SYSCALL_NUMBER = U64_MAX - 1"
definition ECSM_SYSCALL_NUMBER :: u64 where "ECSM_SYSCALL_NUMBER = U64_MAX - 10"
definition DMA_MEMCPY_SYSCALL_NUMBER :: u64 where "DMA_MEMCPY_SYSCALL_NUMBER = U64_MAX - 29"
definition DMA_MEMSET_SYSCALL_NUMBER :: u64 where "DMA_MEMSET_SYSCALL_NUMBER = U64_MAX - 30"
definition HINT_SYSCALL_NUMBER :: u64 where "HINT_SYSCALL_NUMBER = U64_MAX - 31"

definition KECCAK_STATE_BYTES :: u64 where "KECCAK_STATE_BYTES = 25 * 8"
definition DMA_MEMCPY_MAX_BYTES :: u64 where "DMA_MEMCPY_MAX_BYTES = 256"
definition DMA_MEMSET_GAP :: u64 where "DMA_MEMSET_GAP = 8"
definition LOW_LIMB :: u64 where "LOW_LIMB = push_bit 32 1"

lemmas syscall_number_defs = U64_MAX_def KECCAK_SYSCALL_NUMBER_def ECSM_SYSCALL_NUMBER_def
  DMA_MEMCPY_SYSCALL_NUMBER_def DMA_MEMSET_SYSCALL_NUMBER_def HINT_SYSCALL_NUMBER_def

definition SYSCALLS_ALL :: "SyscallNumbers list" where
  "SYSCALLS_ALL = [SysKeccakPermute, SysPrint, SysPanic, SysCommit, SysHalt, SysEcsm, SysHint, SysDmaMemcpy,
     SysDmaMemset]"

definition syscall_try_from :: "u64 \<Rightarrow> (unit, SyscallNumbers) result" where
  "syscall_try_from value =
     (if value = 1 then Inr SysPrint
      else if value = 2 then Inr SysPanic
      else if value = 64 then Inr SysCommit
      else if value = 93 then Inr SysHalt
      else if value = KECCAK_SYSCALL_NUMBER then Inr SysKeccakPermute
      else if value = ECSM_SYSCALL_NUMBER then Inr SysEcsm
      else if value = DMA_MEMCPY_SYSCALL_NUMBER then Inr SysDmaMemcpy
      else if value = DMA_MEMSET_SYSCALL_NUMBER then Inr SysDmaMemset
      else if value = HINT_SYSCALL_NUMBER then Inr SysHint
      else Inl ())"

fun syscall_raw :: "SyscallNumbers \<Rightarrow> u64" where
  "syscall_raw SysKeccakPermute = KECCAK_SYSCALL_NUMBER"
| "syscall_raw SysEcsm = ECSM_SYSCALL_NUMBER"
| "syscall_raw SysDmaMemcpy = DMA_MEMCPY_SYSCALL_NUMBER"
| "syscall_raw SysDmaMemset = DMA_MEMSET_SYSCALL_NUMBER"
| "syscall_raw SysHint = HINT_SYSCALL_NUMBER"
| "syscall_raw SysPrint = 1"
| "syscall_raw SysPanic = 2"
| "syscall_raw SysCommit = 64"
| "syscall_raw SysHalt = 93"

fun accelerator :: "SyscallNumbers \<Rightarrow> Accelerator option" where
  "accelerator SysKeccakPermute = Some AccKeccak"
| "accelerator SysEcsm = Some AccEcsm"
| "accelerator SysDmaMemcpy = Some AccDma"
| "accelerator SysDmaMemset = Some AccDma"
| "accelerator SysPrint = None"
| "accelerator SysPanic = None"
| "accelerator SysCommit = None"
| "accelerator SysHalt = None"
| "accelerator SysHint = None"

text \<open>System-call numbers round trip. The conversion from a raw number accepts exactly the
  numbers of the enumerated calls: it returns a call if and only if the raw number of that call is
  the given one, and every call is enumerated.\<close>

theorem syscall_roundtrip:
  "(syscall_try_from v = Inr s \<longleftrightarrow> syscall_raw s = v) \<and> s \<in> set SYSCALLS_ALL"
  by (cases s) (auto simp: syscall_try_from_def syscall_number_defs SYSCALLS_ALL_def)

section \<open>The rows of the copy accelerator\<close>

definition copy_row_width :: "u64 \<Rightarrow> u64 \<Rightarrow> u64 \<Rightarrow> u64 \<Rightarrow> bool \<Rightarrow> u8" where
  "copy_row_width src dst offset remaining is_write = (if remaining < 8 then 1 else 8)"

lemma copy_row_step:
  assumes "remaining \<noteq> 0"
  shows "unat (remaining - ucast (copy_row_width src dst offset remaining is_write)) < unat remaining"
proof -
  have "0 < unat remaining" using assms by (simp add: unat_gt_0)
  then show ?thesis
    by (auto simp: copy_row_width_def unat_sub_if' word_less_nat_alt)
qed

function copy_rows_loop :: "u64 \<Rightarrow> u64 \<Rightarrow> bool \<Rightarrow> u64 \<Rightarrow> u64 \<Rightarrow> u64 \<Rightarrow> u64" where
  "copy_rows_loop src dst is_write rows offset remaining =
     (if remaining \<noteq> 0 then
        (let width = ucast (copy_row_width src dst offset remaining is_write)
         in copy_rows_loop src dst is_write (rows + 1) (offset + width) (remaining - width))
      else rows)"
  by pat_completeness auto
termination
  by (relation "measure (\<lambda>(src, dst, is_write, rows, offset, remaining). unat remaining)")
    (simp, simp only: in_measure case_prod_conv, rule copy_row_step)

declare copy_rows_loop.simps [simp del]

definition copy_trace_rows :: "u64 \<Rightarrow> u64 \<Rightarrow> u64 \<Rightarrow> bool \<Rightarrow> u64" where
  "copy_trace_rows src dst count is_write = max (copy_rows_loop src dst is_write 0 0 count) 1"

lemma copy_rows_loop_eq:
  "unat (copy_rows_loop src dst w rows offset remaining) =
     (unat rows + unat remaining div 8 + unat remaining mod 8) mod 2 ^ 64"
proof (induction src dst w rows offset remaining rule: copy_rows_loop.induct)
  case (1 src dst w rows offset remaining)
  show ?case
  proof (cases "remaining = 0")
    case True
    then show ?thesis
      using unat_lt2p [of rows] by (simp add: copy_rows_loop.simps [of _ _ _ _ _ 0])
  next
    case False
    define c :: u64 where "c = ucast (copy_row_width src dst offset remaining w)"
    have c: "unat c = (if unat remaining < 8 then 1 else 8)"
      by (simp add: c_def copy_row_width_def word_less_nat_alt)
    have pos: "0 < unat remaining" using False by (simp add: unat_gt_0)
    then have r: "unat (remaining - c) = unat remaining - unat c"
      by (simp add: unat_sub_if' c)
    have rows: "unat (rows + 1) = (unat rows + 1) mod 2 ^ 64" by (simp add: unat_word_ariths)
    have split: "(unat remaining - unat c) div 8 + (unat remaining - unat c) mod 8 + 1
      = unat remaining div 8 + unat remaining mod 8"
      using pos by (auto simp: c le_div_geq le_mod_geq)
    have "unat (copy_rows_loop src dst w rows offset remaining) =
        (unat (rows + 1) + unat (remaining - c) div 8 + unat (remaining - c) mod 8) mod 2 ^ 64"
      using 1 [OF False c_def] False
      by (simp only: copy_rows_loop.simps [of _ _ _ _ _ remaining] Let_def c_def [symmetric]) simp
    then have "unat (copy_rows_loop src dst w rows offset remaining) =
        ((unat rows + 1) mod 2 ^ 64 + ((unat remaining - unat c) div 8
           + (unat remaining - unat c) mod 8)) mod 2 ^ 64"
      by (simp only: r rows add.assoc)
    also have "\<dots> = (unat rows + 1 + ((unat remaining - unat c) div 8
        + (unat remaining - unat c) mod 8)) mod 2 ^ 64"
      by (rule mod_add_left_eq)
    also have "unat rows + 1 + ((unat remaining - unat c) div 8 + (unat remaining - unat c) mod 8)
        = unat rows + unat remaining div 8 + unat remaining mod 8"
      using split by linarith
    finally show ?thesis .
  qed
qed

lemma unat_max: "unat (max a b) = max (unat a) (unat b)" for a b :: "'a::len word"
  by (simp add: max_def word_le_nat_alt)

lemma copy_rows_closed:
  "unat (copy_trace_rows src dst count is_write) = max 1 (unat count div 8 + unat count mod 8)"
proof -
  have "unat count div 8 + unat count mod 8 < 2 ^ 64" using unat_lt2p [of count] by simp
  then have "unat (copy_rows_loop src dst is_write 0 0 count) = unat count div 8 + unat count mod 8"
    by (simp add: copy_rows_loop_eq)
  then show ?thesis by (simp only: copy_trace_rows_def unat_max unat_1 max.commute)
qed

text \<open>The row count of the copy accelerator. The loop over the row widths counts one row per
  eight bytes and one per remaining byte, and at least one row for an empty copy; for the sizes
  that a copy call accepts the count does not wrap.\<close>

theorem copy_trace_rows_closed_form:
  "unat (copy_trace_rows src dst count is_write) = max 1 (unat count div 8 + unat count mod 8)"
  by (rule copy_rows_closed)

section \<open>Hints\<close>

definition HINT_FIELD_INV :: u64 where "HINT_FIELD_INV = 0"
definition HINT_SCALAR_INV :: u64 where "HINT_SCALAR_INV = 1"
definition HINT_FIELD_SQRT :: u64 where "HINT_FIELD_SQRT = 2"
definition HINT_SELECTOR_BOUND :: u64 where "HINT_SELECTOR_BOUND = 3"

lemmas hint_defs = HINT_FIELD_INV_def HINT_SCALAR_INV_def HINT_FIELD_SQRT_def HINT_SELECTOR_BOUND_def

definition is_valid_hint_selector :: "u64 \<Rightarrow> bool" where
  "is_valid_hint_selector hint_id \<longleftrightarrow>
     hint_id = HINT_FIELD_INV \<or> hint_id = HINT_SCALAR_INV \<or> hint_id = HINT_FIELD_SQRT"

text \<open>The compile-time assertion between the selectors and their bound, for every selector.\<close>

lemma hint_selectors_below_bound: "is_valid_hint_selector h \<longleftrightarrow> h < HINT_SELECTOR_BOUND"
proof -
  have "h < 3 \<longleftrightarrow> unat h = 0 \<or> unat h = 1 \<or> unat h = 2" by (auto simp: word_less_nat_alt)
  then show ?thesis
    by (simp add: is_valid_hint_selector_def hint_defs unat_eq_of_nat)
qed

definition zero_bytes :: "u8 list" where "zero_bytes = replicate 32 0"

definition compute_hint :: "('fe, 'sc, 'ep, 'pt) k256 \<Rightarrow> u64 \<Rightarrow> u8 list \<Rightarrow> u8 list" where
  "compute_hint K hint_id in_be =
     (if hint_id = HINT_FIELD_INV then
        (case Option.bind (fe_from_bytes K in_be) (fe_invert K) of
           Some i \<Rightarrow> fe_to_bytes K i | None \<Rightarrow> zero_bytes)
      else if hint_id = HINT_SCALAR_INV then
        (case Option.bind (sc_from_repr K in_be) (sc_invert K) of
           Some i \<Rightarrow> sc_to_bytes K i | None \<Rightarrow> zero_bytes)
      else if hint_id = HINT_FIELD_SQRT then
        (case Option.bind (fe_from_bytes K in_be) (fe_sqrt K) of
           Some r \<Rightarrow> fe_to_bytes K r | None \<Rightarrow> zero_bytes)
      else zero_bytes)"

section \<open>256-bit operands in memory\<close>

definition addr_limb_ok :: "u64 \<Rightarrow> u64 \<Rightarrow> bool" where
  "addr_limb_ok addr max_offset \<longleftrightarrow> (addr mod LOW_LIMB) + max_offset < LOW_LIMB"

definition load_u256_le :: "memory \<Rightarrow> u64 \<Rightarrow> (MemoryError, u8 list) result" where
  "load_u256_le m addr =
     rfold (\<lambda>i out. rbind (load_doubleword m (addr + of_nat i * 8)) (\<lambda>dw.
         Inr (take (i * 8) out @ to_le_bytes 8 dw @ drop (i * 8 + 8) out)))
       [0..<4] (replicate 32 0)"

definition store_u256_le :: "memory \<Rightarrow> u64 \<Rightarrow> u8 list \<Rightarrow> (MemoryError, memory) result" where
  "store_u256_le m addr bytes =
     rfold (\<lambda>i m. store_doubleword m (addr + of_nat i * 8)
                    (from_le_bytes (take 8 (drop (i * 8) bytes))))
       [0..<4] m"

lemma unat_add_small: "unat a + k < 2 ^ 64 \<Longrightarrow> unat (a + of_nat k) = unat a + k" for a :: u64
proof -
  assume h: "unat a + k < 2 ^ 64"
  then have "unat (of_nat k :: u64) = k" by (intro unat_of_nat_less) simp
  then show ?thesis using h by (simp add: unat_word_ariths)
qed

lemma limb_bound: "d < 2 ^ 32 \<Longrightarrow> r + 31 < 2 ^ 32 \<Longrightarrow> d * 2 ^ 32 + r + 31 < (2 :: nat) ^ 64"
  by simp

lemma addr_limb_ok_range: "addr_limb_ok a 31 \<Longrightarrow> unat a + 31 < 2 ^ 64"
proof -
  assume ok: "addr_limb_ok a 31"
  have r: "unat (a mod LOW_LIMB) = unat a mod 2 ^ 32" by (simp add: LOW_LIMB_def unat_mod)
  have lt: "unat a mod 2 ^ 32 < 2 ^ 32" by simp
  then have "unat (a mod LOW_LIMB + 31) = unat a mod 2 ^ 32 + 31"
    using unat_add_small [of "a mod LOW_LIMB" 31] by (simp only: r of_nat_numeral) simp
  then have "unat a mod 2 ^ 32 + 31 < 2 ^ 32"
    using ok by (simp add: addr_limb_ok_def word_less_nat_alt) (simp add: LOW_LIMB_def)
  moreover have "unat a div 2 ^ 32 < 2 ^ 32" using unat_lt2p [of a] by simp
  moreover have "unat a = unat a div 2 ^ 32 * 2 ^ 32 + unat a mod 2 ^ 32" by simp
  ultimately show ?thesis using limb_bound [of "unat a div 2 ^ 32" "unat a mod 2 ^ 32"] by simp
qed

lemma stores_append:
  assumes "stores m a xs m1" "stores m1 (a + of_nat (length xs)) ys m2"
    and "length xs + length ys \<le> 2 ^ 64"
  shows "stores m a (xs @ ys) m2"
  using assms flat_write_append [OF assms(3)] by (simp add: stores_def)

text \<open>A run of doubleword stores is one store of their bytes.\<close>

lemma store_doublewords:
  assumes "cells_wf m" "length bs = 8 * k" "unat a + 8 * k \<le> 2 ^ 64"
  shows "\<exists>m'. rfold (\<lambda>i m. store_doubleword m (a + of_nat i * 8)
                 (from_le_bytes (take 8 (drop (i * 8) bs)))) [0..<k] m = Inr m' \<and> stores m a bs m'"
  using assms
proof (induction k arbitrary: bs)
  case 0
  then show ?case by (simp add: stores_def flat_write_def)
next
  case (Suc k)
  let ?f = "\<lambda>bs i m. store_doubleword m (a + of_nat i * 8) (from_le_bytes (take 8 (drop (i * 8) bs)))"
  let ?bs = "take (8 * k) bs" and ?c = "drop (8 * k) bs"
  have len: "length ?bs = 8 * k" "length ?c = 8" using Suc.prems(2) by simp_all
  then obtain m1 where m1: "rfold (?f ?bs) [0..<k] m = Inr m1" and s1: "stores m a ?bs m1"
    using Suc.IH [of ?bs] Suc.prems by auto
  have same: "rfold (?f bs) [0..<k] m = rfold (?f ?bs) [0..<k] m"
  proof (rule rfold_cong)
    fix i assume "i \<in> set [0..<k]"
    then have "take 8 (drop (i * 8) ?bs) = take 8 (drop (i * 8) bs)"
      by (simp add: drop_take min_def)
    then show "?f bs i = ?f ?bs i" by simp
  qed
  have w: "cells_wf m1" using s1 by (simp add: stores_def)
  have u: "unat (a + of_nat (8 * k)) + 7 < 2 ^ 64"
    using Suc.prems(3) unat_add_small [of a "8 * k"] by simp
  have b: "to_le_bytes 8 (from_le_bytes ?c :: u64) = ?c"
    using to_from_le_bytes [of ?c, where 'a = 64] len(2) by simp
  obtain m2 where m2: "stores m1 (a + of_nat (8 * k)) ?c m2"
      "store_doubleword m1 (a + of_nat (8 * k)) (from_le_bytes ?c) = Inr m2"
    using store_doubleword_eq [OF w, of "a + of_nat (8 * k)" "from_le_bytes ?c"] u b by auto
  have "stores m a (?bs @ ?c) m2"
    by (rule stores_append [OF s1]) (use m2(1) len Suc.prems in simp_all)
  moreover have "?f bs k m1 = Inr m2"
    using m2(2) len(2) by (simp add: mult.commute)
  ultimately show ?case using m1 same by (auto simp: rfold_append)
qed

lemma store_u256_le_eq:
  assumes "cells_wf m" "length bytes = 32" "unat a + 31 < 2 ^ 64"
  shows "\<exists>m'. store_u256_le m a bytes = Inr m' \<and> stores m a bytes m'"
  unfolding store_u256_le_def using assms by (intro store_doublewords) simp_all

lemma load_doublewords:
  assumes "cells_wf m" "length out = 8 * n" "unat a + 8 * k \<le> 2 ^ 64" "k \<le> n"
  shows "rfold (\<lambda>i out. rbind (load_doubleword m (a + of_nat i * 8)) (\<lambda>dw.
         Inr (take (i * 8) out @ to_le_bytes 8 dw @ drop (i * 8 + 8) out))) [0..<k] out
    = Inr (load_seq m a (8 * k) @ drop (8 * k) out)"
  using assms(3,4)
proof (induction k)
  case 0
  then show ?case by (simp add: load_seq_def)
next
  case (Suc k)
  have u: "unat (a + of_nat (8 * k)) + 7 < 2 ^ 64"
    using Suc.prems(1) unat_add_small [of a "8 * k"] by simp
  have ld: "load_doubleword m (a + of_nat k * 8) = Inr (from_le_bytes (load_seq m (a + of_nat (8 * k)) 8))"
    using load_doubleword_eq [OF assms(1), of "a + of_nat (8 * k)"] u by (simp add: mult.commute)
  have b: "to_le_bytes 8 (from_le_bytes (load_seq m c 8) :: u64) = load_seq m c 8" for c
    using to_from_le_bytes [of "load_seq m c 8", where 'a = 64] by simp
  have ls: "load_seq m a (8 + 8 * k) = load_seq m a (8 * k) @ load_seq m (a + of_nat (8 * k)) 8"
    using load_seq_append [of m a "8 * k" 8] by (simp add: add.commute)
  show ?case
    using Suc by (simp add: rfold_append ld b ls mult.commute [of k 8] add.commute del: of_nat_mult)
qed

lemma load_u256_le_eq:
  assumes "cells_wf m" "unat a + 31 < 2 ^ 64"
  shows "load_u256_le m a = Inr (load_seq m a 32)"
  unfolding load_u256_le_def
  using load_doublewords [OF assms(1), of "replicate 32 0" 4 a 4] assms(2) by simp

text \<open>256-bit operands. For an address whose 32 bytes stay within their low 32-bit limb,
  reading and writing a 256-bit operand as four doublewords never fails, reads the 32 bytes at the
  address in address order, and writes exactly these bytes: a read after a write returns what was
  written and no byte outside of the operand changes.\<close>

theorem u256_operand_roundtrip:
  assumes "cells_wf m" "length bytes = 32" "addr_limb_ok a 31"
  shows "\<exists>m'. store_u256_le m a bytes = Inr m' \<and> load_u256_le m' a = Inr bytes \<and> cells_wf m'
    \<and> load_u256_le m a = Inr (load_seq m a 32)
    \<and> load_byte m' = (\<lambda>x. if unat (x - a) < 32 then bytes ! unat (x - a) else load_byte m x)"
proof -
  have u: "unat a + 31 < 2 ^ 64" using assms(3) by (rule addr_limb_ok_range)
  obtain m' where m': "store_u256_le m a bytes = Inr m'" "stores m a bytes m'"
    using store_u256_le_eq [OF assms(1,2) u] by auto
  then have "cells_wf m'" "load_seq m' a 32 = bytes"
    using stores_load_seq [OF m'(2)] assms(2) by (simp_all add: stores_def)
  then show ?thesis
    using m' assms(2) load_u256_le_eq [OF _ u] assms(1)
    by (intro exI [of _ m']) (simp add: stores_def flat_write_def)
qed

end
