(* ===== verification/Vm_Keccak.thy ===== *)
theory Vm_Keccak
  imports Vm_Prelude
begin

text \<open>
  The Keccak-f[1600] permutation of \<^verbatim>\<open>executor/src/vm/instruction/execution.rs\<close>: the two constant
  tables and the in-place rounds on an array of 25 lanes.  The specification is the one of
  FIPS 202: the step mappings on a five by five sheet of lanes, the rotation offsets generated by
  the walk of the rho step and the round constants generated by the linear feedback shift
  register of the iota step.  The array code is proved to implement it.
\<close>

section \<open>The code\<close>

definition KECCAK_RC :: "u64 list" where
  "KECCAK_RC = [0x0000000000000001, 0x0000000000008082, 0x800000000000808A, 0x8000000080008000,
     0x000000000000808B, 0x0000000080000001, 0x8000000080008081, 0x8000000000008009,
     0x000000000000008A, 0x0000000000000088, 0x0000000080008009, 0x000000008000000A,
     0x000000008000808B, 0x800000000000008B, 0x8000000000008089, 0x8000000000008003,
     0x8000000000008002, 0x8000000000000080, 0x000000000000800A, 0x800000008000000A,
     0x8000000080008081, 0x8000000000008080, 0x0000000080000001, 0x8000000080008008]"

definition KECCAK_RHO :: "nat list list" where
  "KECCAK_RHO =
    [[0, 36, 3, 41, 18],
     [1, 44, 10, 45, 2],
     [62, 6, 43, 15, 61],
     [28, 55, 25, 21, 56],
     [27, 20, 39, 8, 14]]"

text \<open>The nested loops \<open>for x in 0..5\<close>, \<open>for y in 0..5\<close>.\<close>

definition xy_loop :: "(nat \<times> nat) list" where
  "xy_loop = List.product [0..<5] [0..<5]"

definition keccak_theta :: "u64 list \<Rightarrow> u64 list" where
  "keccak_theta state =
     (let c = map (\<lambda>x. state ! x XOR state ! (x + 5) XOR state ! (x + 10) XOR state ! (x + 15)
                XOR state ! (x + 20)) [0..<5];
          d = map (\<lambda>x. c ! ((x + 4) mod 5) XOR word_rotl 1 (c ! ((x + 1) mod 5))) [0..<5]
      in fold (\<lambda>(x, y) s. s[x + 5 * y := s ! (x + 5 * y) XOR d ! x]) xy_loop state)"

definition keccak_rho_pi :: "u64 list \<Rightarrow> u64 list" where
  "keccak_rho_pi state =
     fold (\<lambda>(x, y) b. b[y + 5 * ((2 * x + 3 * y) mod 5) :=
             word_rotl (KECCAK_RHO ! x ! y) (state ! (x + 5 * y))]) xy_loop (replicate 25 0)"

definition keccak_chi :: "u64 list \<Rightarrow> u64 list \<Rightarrow> u64 list" where
  "keccak_chi b state =
     fold (\<lambda>(x, y) s. s[x + 5 * y :=
             b ! (x + 5 * y) XOR (NOT (b ! ((x + 1) mod 5 + 5 * y)) AND b ! ((x + 2) mod 5 + 5 * y))])
       xy_loop state"

definition keccak_iota :: "u64 \<Rightarrow> u64 list \<Rightarrow> u64 list" where
  "keccak_iota rc state = state[0 := state ! 0 XOR rc]"

definition keccak_round :: "u64 \<Rightarrow> u64 list \<Rightarrow> u64 list" where
  "keccak_round rc state =
     (let state = keccak_theta state; b = keccak_rho_pi state; state = keccak_chi b state
      in keccak_iota rc state)"

definition keccak_f1600 :: "u64 list \<Rightarrow> u64 list" where
  "keccak_f1600 state = fold keccak_round KECCAK_RC state"

section \<open>The specification of FIPS 202\<close>

type_synonym sheet = "nat \<Rightarrow> nat \<Rightarrow> u64"

definition spec_theta :: "sheet \<Rightarrow> sheet" where
  "spec_theta A x y =
     (let C = (\<lambda>x. A x 0 XOR A x 1 XOR A x 2 XOR A x 3 XOR A x 4)
      in A x y XOR (C ((x + 4) mod 5) XOR word_rotl 1 (C ((x + 1) mod 5))))"

text \<open>The walk of the rho step starts at \<open>(1, 0)\<close>; step \<open>t\<close> has the offset
  \<open>(t + 1) (t + 2) / 2\<close>.\<close>

primrec rho_walk :: "nat \<Rightarrow> nat \<times> nat" where
  "rho_walk 0 = (1, 0)"
| "rho_walk (Suc t) = (case rho_walk t of (x, y) \<Rightarrow> (y, (2 * x + 3 * y) mod 5))"

definition rho_offset :: "nat \<Rightarrow> nat \<Rightarrow> nat" where
  "rho_offset x y =
     (case find (\<lambda>t. rho_walk t = (x, y)) [0..<24] of
        None \<Rightarrow> 0
      | Some t \<Rightarrow> (t + 1) * (t + 2) div 2 mod 64)"

definition spec_rho :: "sheet \<Rightarrow> sheet" where
  "spec_rho A x y = word_rotl (rho_offset x y) (A x y)"

definition spec_pi :: "sheet \<Rightarrow> sheet" where
  "spec_pi A x y = A ((x + 3 * y) mod 5) x"

definition spec_chi :: "sheet \<Rightarrow> sheet" where
  "spec_chi A x y = A x y XOR (NOT (A ((x + 1) mod 5) y) AND A ((x + 2) mod 5) y)"

text \<open>The shift register: eight bits, with the feedback of bit 7 into bits 0, 4, 5 and 6.\<close>

definition lfsr_step :: "u8 \<Rightarrow> u8" where
  "lfsr_step r = (push_bit 1 r) XOR (if bit r 7 then 0x71 else 0)"

text \<open>The seven bits of a round go to the positions \<open>2^j - 1\<close> of its constant.\<close>

definition rc_bits :: "u8 \<Rightarrow> u64" where
  "rc_bits r =
     foldr (\<lambda>j w. w OR (if bit ((lfsr_step ^^ j) r) 0 then push_bit (2 ^ j - 1) 1 else 0)) [0..<7] 0"

primrec rc_gen :: "nat \<Rightarrow> u8 \<Rightarrow> u64 list" where
  "rc_gen 0 r = []"
| "rc_gen (Suc m) r = rc_bits r # rc_gen m ((lfsr_step ^^ 7) r)"

definition spec_iota :: "u64 \<Rightarrow> sheet \<Rightarrow> sheet" where
  "spec_iota rc A x y = (if x = 0 \<and> y = 0 then A x y XOR rc else A x y)"

definition spec_round :: "u64 \<Rightarrow> sheet \<Rightarrow> sheet" where
  "spec_round rc A = spec_iota rc (spec_chi (spec_pi (spec_rho (spec_theta A))))"

definition spec_keccak_f :: "sheet \<Rightarrow> sheet" where
  "spec_keccak_f A = fold spec_round (rc_gen 24 1) A"

text \<open>The lanes of an array: lane \<open>(x, y)\<close> is element \<open>x + 5 y\<close>. The sheets are compared on the
  coordinates below five.\<close>

definition lanes :: "u64 list \<Rightarrow> sheet" where
  "lanes state x y = state ! (x + 5 * y)"

definition sheet_eq :: "sheet \<Rightarrow> sheet \<Rightarrow> bool" where
  "sheet_eq A A' \<longleftrightarrow> (\<forall>x<5. \<forall>y<5. A x y = A' x y)"

section \<open>The tables\<close>

lemma lt5: "x < (5::nat) \<longleftrightarrow> x \<in> {0, 1, 2, 3, 4}" by auto

lemma rc_gen_table: "rc_gen 24 1 = KECCAK_RC"
  by (simp add: KECCAK_RC_def rc_bits_def lfsr_step_def numeral_eq_Suc)

lemma rho_table: "x < 5 \<Longrightarrow> y < 5 \<Longrightarrow> KECCAK_RHO ! x ! y = rho_offset x y"
proof -
  have "\<forall>x\<in>set [0..<5]. \<forall>y\<in>set [0..<5]. KECCAK_RHO ! x ! y = rho_offset x y" by code_simp
  then show "x < 5 \<Longrightarrow> y < 5 \<Longrightarrow> ?thesis" by simp
qed

section \<open>Array updates\<close>

text \<open>A loop that updates every position at most once, from the old value at that position.\<close>

lemma length_fold_update [simp]: "length (fold (\<lambda>p s. s[f p := g p (s ! f p)]) ps s) = length s"
  by (induction ps arbitrary: s) simp_all

lemma fold_update_other:
  "i \<notin> f ` set ps \<Longrightarrow> fold (\<lambda>p s. s[f p := g p (s ! f p)]) ps s ! i = s ! i"
  by (induction ps arbitrary: s) auto

lemma fold_update_nth:
  assumes "distinct (map f ps)" "p \<in> set ps" "f p < length s"
  shows "fold (\<lambda>p s. s[f p := g p (s ! f p)]) ps s ! f p = g p (s ! f p)"
  using assms
proof (induction ps arbitrary: s)
  case (Cons q ps)
  show ?case
  proof (cases "p = q")
    case True
    then have "f p \<notin> f ` set ps" using Cons.prems(1) by auto
    then show ?thesis using True Cons.prems(3) by (simp add: fold_update_other)
  next
    case False
    then have "p \<in> set ps" using Cons.prems(2) by simp
    moreover from this have "f q \<noteq> f p" using Cons.prems(1) by (auto simp: image_iff)
    ultimately show ?thesis using Cons.IH [of "s[f q := g q (s ! f q)]"] Cons.prems by simp
  qed
qed simp

lemma xy_loop_set: "(x, y) \<in> set xy_loop \<longleftrightarrow> x < 5 \<and> y < 5"
  by (auto simp: xy_loop_def)

lemma xy_loop_distinct: "distinct (map (\<lambda>(x, y). x + 5 * y) xy_loop)"
  "distinct (map (\<lambda>(x, y). y + 5 * ((2 * x + 3 * y) mod 5)) xy_loop)"
  by code_simp+

text \<open>The three loops of a round have this shape.\<close>

lemma loop_nth:
  assumes "x < 5" "y < 5" "length s = 25"
  shows "fold (\<lambda>(x, y) s. s[x + 5 * y := g x y (s ! (x + 5 * y))]) xy_loop s ! (x + 5 * y)
    = g x y (s ! (x + 5 * y))"
  using fold_update_nth [OF xy_loop_distinct(1), of "(x, y)" s "\<lambda>(x, y). g x y"] assms
  by (simp add: xy_loop_set split_def)

lemma loop_nth_pi:
  assumes "x < 5" "y < 5" "length s = 25"
  shows "fold (\<lambda>(x, y) s. s[y + 5 * ((2 * x + 3 * y) mod 5) := g x y]) xy_loop s
      ! (y + 5 * ((2 * x + 3 * y) mod 5)) = g x y"
proof -
  have "y + 5 * ((2 * x + 3 * y) mod 5) < 25"
    using assms(2) mod_less_divisor [of 5 "2 * x + 3 * y"] by linarith
  then show ?thesis
    using fold_update_nth [OF xy_loop_distinct(2), of "(x, y)" s "\<lambda>(x, y) _. g x y"] assms
    by (simp add: xy_loop_set split_def)
qed

lemma length_loop:
  "length (fold (\<lambda>(x, y) s. s[x + 5 * y := g x y (s ! (x + 5 * y))]) xy_loop s) = length s"
  "length (fold (\<lambda>(x, y) s. s[y + 5 * ((2 * x + 3 * y) mod 5) := h x y]) xy_loop s) = length s"
  using length_fold_update [of "\<lambda>(x, y). x + 5 * y" "\<lambda>(x, y). g x y" xy_loop s]
    length_fold_update [of "\<lambda>(x, y). y + 5 * ((2 * x + 3 * y) mod 5)" "\<lambda>(x, y) _. h x y" xy_loop s]
  by (simp_all add: split_def)

section \<open>The steps of a round\<close>

lemma length_theta [simp]: "length (keccak_theta s) = length s"
  by (simp add: keccak_theta_def Let_def length_loop(1) [where g = "\<lambda>x y v. v XOR _ x y"])

lemma length_steps [simp]:
  "length (keccak_rho_pi s) = 25" "length (keccak_chi b s) = length s" "length (keccak_iota rc s) = length s"
  by (simp_all add: keccak_rho_pi_def keccak_chi_def keccak_iota_def length_loop(2)
      length_loop(1) [where g = "\<lambda>x y v. h x y" for h])

lemma theta_lane:
  assumes "length s = 25" "x < 5" "y < 5"
  shows "lanes (keccak_theta s) x y = spec_theta (lanes s) x y"
proof -
  have m: "(x + 4) mod 5 < 5" "(x + 1) mod 5 < 5" by simp_all
  show ?thesis
    unfolding keccak_theta_def Let_def lanes_def [of _ x y]
      loop_nth [OF assms(2,3,1), where g = "\<lambda>x y v. v XOR h x" for h]
    using assms(2) by (simp only: length_upt nth_map nth_upt add_0 diff_zero m
        spec_theta_def Let_def lanes_def [of s x y]) (simp add: lanes_def)
qed

lemma pi_index: "x < 5 \<Longrightarrow> y < 5 \<Longrightarrow>
    (let u = (x + 3 * y) mod 5; v = x in v + 5 * ((2 * u + 3 * v) mod 5)) = x + 5 * y"
  for x y :: nat
  unfolding lt5 by (auto simp: Let_def)

lemma rho_pi_lane:
  assumes "x < 5" "y < 5"
  shows "lanes (keccak_rho_pi s) x y = spec_pi (spec_rho (lanes s)) x y"
proof -
  let ?u = "(x + 3 * y) mod 5"
  have u: "?u < 5" by simp
  have "keccak_rho_pi s ! (x + 5 * ((2 * ?u + 3 * x) mod 5))
      = word_rotl (KECCAK_RHO ! ?u ! x) (s ! (?u + 5 * x))"
    unfolding keccak_rho_pi_def by (rule loop_nth_pi) (use u assms in simp_all)
  then show ?thesis
    using pi_index [OF assms]
    by (simp only: Let_def lanes_def spec_pi_def spec_rho_def rho_table [OF u assms(1)])
qed

lemma chi_lane:
  assumes "length s = 25" "x < 5" "y < 5"
  shows "lanes (keccak_chi b s) x y = spec_chi (lanes b) x y"
  using loop_nth [OF assms(2,3,1), of "\<lambda>x y v. spec_chi (lanes b) x y"]
  by (simp only: keccak_chi_def spec_chi_def lanes_def)

lemma iota_lane:
  assumes "length s = 25" "x < 5" "y < 5"
  shows "lanes (keccak_iota rc s) x y = spec_iota rc (lanes s) x y"
  using assms by (auto simp: keccak_iota_def lanes_def spec_iota_def nth_list_update)

lemma length_round [simp]: "length s = 25 \<Longrightarrow> length (keccak_round rc s) = 25"
  by (simp add: keccak_round_def Let_def)

text \<open>The specification of a step only reads coordinates below five.\<close>

lemma spec_theta_cong: "sheet_eq A A' \<Longrightarrow> sheet_eq (spec_theta A) (spec_theta A')"
  by (simp add: sheet_eq_def spec_theta_def Let_def)

lemma spec_rho_pi_cong: "sheet_eq A A' \<Longrightarrow> sheet_eq (spec_pi (spec_rho A)) (spec_pi (spec_rho A'))"
  by (simp add: sheet_eq_def spec_pi_def spec_rho_def)

lemma spec_chi_cong: "sheet_eq A A' \<Longrightarrow> sheet_eq (spec_chi A) (spec_chi A')"
  by (simp add: sheet_eq_def spec_chi_def)

lemma spec_iota_cong: "sheet_eq A A' \<Longrightarrow> sheet_eq (spec_iota rc A) (spec_iota rc A')"
  by (simp add: sheet_eq_def spec_iota_def)

lemma sheet_eqI: "(\<And>x y. x < 5 \<Longrightarrow> y < 5 \<Longrightarrow> A x y = A' x y) \<Longrightarrow> sheet_eq A A'"
  by (simp add: sheet_eq_def)

lemma sheet_eqD: "sheet_eq A A' \<Longrightarrow> x < 5 \<Longrightarrow> y < 5 \<Longrightarrow> A x y = A' x y"
  by (simp add: sheet_eq_def)

lemma sheet_eq_refl: "sheet_eq A A"
  by (simp add: sheet_eq_def)

lemma sheet_eq_trans: "sheet_eq A A' \<Longrightarrow> sheet_eq A' A'' \<Longrightarrow> sheet_eq A A''"
  by (simp add: sheet_eq_def)

lemma round_lanes:
  assumes "length s = 25" "sheet_eq (lanes s) A"
  shows "sheet_eq (lanes (keccak_round rc s)) (spec_round rc A)"
proof -
  let ?t = "keccak_theta s" let ?b = "keccak_rho_pi ?t" let ?c = "keccak_chi ?b ?t"
  have l: "length ?t = 25" "length ?c = 25" using assms(1) by simp_all
  have "sheet_eq (lanes ?t) (spec_theta A)"
    by (rule sheet_eq_trans [OF _ spec_theta_cong [OF assms(2)]])
      (rule sheet_eqI, rule theta_lane [OF assms(1)])
  then have "sheet_eq (lanes ?b) (spec_pi (spec_rho (spec_theta A)))"
    by (rule sheet_eq_trans [OF _ spec_rho_pi_cong, rotated]) (rule sheet_eqI, rule rho_pi_lane)
  then have "sheet_eq (lanes ?c) (spec_chi (spec_pi (spec_rho (spec_theta A))))"
    by (rule sheet_eq_trans [OF _ spec_chi_cong, rotated]) (rule sheet_eqI, rule chi_lane [OF l(1)])
  then have "sheet_eq (lanes (keccak_iota rc ?c)) (spec_round rc A)"
    unfolding spec_round_def
    by (rule sheet_eq_trans [OF _ spec_iota_cong, rotated]) (rule sheet_eqI, rule iota_lane [OF l(2)])
  then show ?thesis by (simp add: keccak_round_def Let_def)
qed

lemma rounds_lanes:
  assumes "length s = 25" "sheet_eq (lanes s) A"
  shows "length (fold keccak_round rcs s) = 25
    \<and> sheet_eq (lanes (fold keccak_round rcs s)) (fold spec_round rcs A)"
  using assms
proof (induction rcs arbitrary: s A)
  case (Cons rc rcs)
  show ?case
    using Cons.IH [OF length_round [OF Cons.prems(1)] round_lanes [OF Cons.prems]] by simp
qed simp

lemma length_keccak_f1600 [simp]: "length s = 25 \<Longrightarrow> length (keccak_f1600 s) = 25"
  using rounds_lanes [of s "lanes s" KECCAK_RC] by (simp add: keccak_f1600_def sheet_eq_refl)

text \<open>C9: the Keccak permutation. On a 25-lane state the in-place array code computes the
  permutation of FIPS 202: every lane of the result is the lane of the specified 24 rounds of the
  theta, rho, pi, chi and iota step mappings, with the rotation offsets generated by the rho walk
  and the round constants generated by the shift register.\<close>

theorem keccak_f1600_spec:
  assumes "length state = 25"
  shows "length (keccak_f1600 state) = 25
    \<and> sheet_eq (lanes (keccak_f1600 state)) (spec_keccak_f (lanes state))"
  using rounds_lanes [OF assms sheet_eq_refl, of KECCAK_RC]
  by (simp only: keccak_f1600_def spec_keccak_f_def rc_gen_table)

theorem keccak_f1600_spec_witness:
  "keccak_f1600 (replicate 25 0) ! 0 = spec_keccak_f (lanes (replicate 25 0)) 0 0"
proof -
  have "sheet_eq (lanes (keccak_f1600 (replicate 25 0))) (spec_keccak_f (lanes (replicate 25 0)))"
    using keccak_f1600_spec [of "replicate 25 0"] by simp
  then have "lanes (keccak_f1600 (replicate 25 0)) 0 0 = spec_keccak_f (lanes (replicate 25 0)) 0 0"
    by (rule sheet_eqD) simp_all
  then show ?thesis by (simp only: lanes_def [of "keccak_f1600 _"]) simp
qed

end
