(* ===== verification/Vm_Execution.thy ===== *)
theory Vm_Execution
  imports Vm_Syscalls Vm_Keccak
begin

text \<open>
  The execution of one instruction: \<open>Instruction::run\<close> and \<open>Instruction::execute\<close> of
  \<^verbatim>\<open>executor/src/vm/instruction/execution.rs\<close>, with one definition for every \<open>ecall\<close> handler.
  The state is the register file, the memory and the lines printed to the standard output.  An
  error abandons the execution, so that the state it leaves behind is not part of the result.
\<close>

section \<open>State\<close>

record machine =
  regs :: registers
  mem :: memory
  stdout :: "u8 list list"

definition REGULAR_PC_UPDATE :: u64 where "REGULAR_PC_UPDATE = 4"

abbreviation read_reg :: "machine \<Rightarrow> u32 \<Rightarrow> (ExecutionError, u64) result" where
  "read_reg m r \<equiv> map_err ExecRegisterError (reg_read (regs m) r)"

definition write_reg :: "machine \<Rightarrow> u32 \<Rightarrow> u64 \<Rightarrow> (ExecutionError, machine) result" where
  "write_reg m r v =
     rbind (map_err ExecRegisterError (reg_write (regs m) r v)) (\<lambda>rs. Inr (m\<lparr>regs := rs\<rparr>))"

text \<open>A memory operation that returns the new memory, on the machine.\<close>

definition update_mem :: "machine \<Rightarrow> (MemoryError, memory) result \<Rightarrow> (ExecutionError, machine) result" where
  "update_mem m r = rbind (map_err ExecMemoryError r) (\<lambda>mm. Inr (m\<lparr>mem := mm\<rparr>))"

definition mk_log :: "u64 \<Rightarrow> u64 \<Rightarrow> u64 \<Rightarrow> u64 \<Rightarrow> u64 \<Rightarrow> log" where
  "mk_log pc npc v1 v2 d =
     \<lparr>current_pc = pc, next_pc = npc, src1_val = v1, src2_val = v2, dst_val = d\<rparr>"

section \<open>UTF-8 validation\<close>

text \<open>\<open>str::from_utf8\<close> accepts the well-formed byte sequences of the Unicode standard, without
  overlong forms, surrogates and values above \<open>0x10FFFF\<close>.\<close>

definition byte_in :: "u8 \<Rightarrow> u8 \<Rightarrow> u8 \<Rightarrow> bool" where
  "byte_in lo hi b \<longleftrightarrow> lo \<le> b \<and> b \<le> hi"

abbreviation continuation :: "u8 \<Rightarrow> bool" where
  "continuation b \<equiv> byte_in 0x80 0xBF b"

definition utf8_seq2 :: "u8 \<Rightarrow> u8 \<Rightarrow> bool" where
  "utf8_seq2 b c \<longleftrightarrow> byte_in 0xC2 0xDF b \<and> continuation c"

definition utf8_seq3 :: "u8 \<Rightarrow> u8 \<Rightarrow> u8 \<Rightarrow> bool" where
  "utf8_seq3 b c d \<longleftrightarrow>
     (b = 0xE0 \<and> byte_in 0xA0 0xBF c \<or> byte_in 0xE1 0xEC b \<and> continuation c
      \<or> b = 0xED \<and> byte_in 0x80 0x9F c \<or> byte_in 0xEE 0xEF b \<and> continuation c) \<and> continuation d"

definition utf8_seq4 :: "u8 \<Rightarrow> u8 \<Rightarrow> u8 \<Rightarrow> u8 \<Rightarrow> bool" where
  "utf8_seq4 b c d e \<longleftrightarrow>
     (b = 0xF0 \<and> byte_in 0x90 0xBF c \<or> byte_in 0xF1 0xF3 b \<and> continuation c
      \<or> b = 0xF4 \<and> byte_in 0x80 0x8F c) \<and> continuation d \<and> continuation e"

fun utf8_valid :: "u8 list \<Rightarrow> bool" where
  "utf8_valid [] \<longleftrightarrow> True"
| "utf8_valid (b # bs) \<longleftrightarrow>
     (if b < 0x80 then utf8_valid bs
      else (case bs of
              [] \<Rightarrow> False
            | c # cs \<Rightarrow>
                (if utf8_seq2 b c then utf8_valid cs
                 else (case cs of
                         [] \<Rightarrow> False
                       | d # ds \<Rightarrow>
                           (if utf8_seq3 b c d then utf8_valid ds
                            else (case ds of
                                    [] \<Rightarrow> False
                                  | e # es \<Rightarrow> utf8_seq4 b c d e \<and> utf8_valid es))))))"

section \<open>The handlers of \<open>ecall\<close>\<close>

text \<open>A handler returns the machine and the values \<open>src2_val\<close> and \<open>dst_val\<close> of the log.\<close>

type_synonym ecall_result = "(ExecutionError, machine \<times> u64 \<times> u64) result"

definition load_message :: "machine \<Rightarrow> (ExecutionError, u8 list) result" where
  "load_message m =
     rbind (read_reg m 10) (\<lambda>pointer.
     rbind (read_reg m 11) (\<lambda>len.
     rbind (map_err ExecMemoryError (load_bytes (mem m) pointer len)) (\<lambda>bytes.
     if utf8_valid bytes then Inr bytes else Inl IncorrectMessage)))"

definition ecall_print :: "machine \<Rightarrow> ecall_result" where
  "ecall_print m =
     rbind (load_message m) (\<lambda>value. Inr (m\<lparr>stdout := stdout m @ [value]\<rparr>, 0, 0))"

definition ecall_panic :: "machine \<Rightarrow> ecall_result" where
  "ecall_panic m = rbind (load_message m) (\<lambda>value. Inl (Panic value))"

definition ecall_commit :: "machine \<Rightarrow> ecall_result" where
  "ecall_commit m =
     rbind (read_reg m 10) (\<lambda>fd.
     if fd \<noteq> 1 then Inl (InvalidCommitFd fd)
     else
       rbind (read_reg m 11) (\<lambda>buf_addr.
       rbind (read_reg m 12) (\<lambda>count.
       rbind (update_mem m (commit_public_output (mem m) buf_addr count)) (\<lambda>m.
       rbind (write_reg m 10 count) (\<lambda>m.
       Inr (m, buf_addr, count))))))"

definition keccak_lane_addr :: "u64 \<Rightarrow> nat \<Rightarrow> (ExecutionError, u64) result" where
  "keccak_lane_addr state_addr i =
     ok_or (KeccakStateAddressOverflow state_addr) (checked_add state_addr (of_nat i * 8))"

definition ecall_keccak :: "machine \<Rightarrow> ecall_result" where
  "ecall_keccak m =
     rbind (read_reg m 10) (\<lambda>state_addr.
     if state_addr mod 8 \<noteq> 0 then Inl (UnalignedKeccakStateAddress state_addr)
     else
       rbind (ok_or (KeccakStateAddressOverflow state_addr)
                (checked_add state_addr (KECCAK_STATE_BYTES - 1))) (\<lambda>_.
       rbind (rcollect (\<lambda>i. rbind (keccak_lane_addr state_addr i) (\<lambda>lane_addr.
                map_err ExecMemoryError (load_doubleword (mem m) lane_addr))) [0..<25]) (\<lambda>state.
       rbind (rfold (\<lambda>(i, lane) mm. rbind (keccak_lane_addr state_addr i) (\<lambda>lane_addr.
                map_err ExecMemoryError (store_doubleword mm lane_addr lane)))
                (enumerate 0 (keccak_f1600 state)) (mem m)) (\<lambda>mm.
       Inr (m\<lparr>mem := mm\<rparr>, state_addr, 0)))))"

definition abs_diff :: "u64 \<Rightarrow> u64 \<Rightarrow> u64" where
  "abs_diff a b = (if a < b then b - a else a - b)"

definition ecall_ecsm :: "('fe, 'sc, 'ep, 'pt) k256 \<Rightarrow> machine \<Rightarrow> ecall_result" where
  "ecall_ecsm K m =
     rbind (read_reg m 10) (\<lambda>addr_xr.
     rbind (read_reg m 11) (\<lambda>addr_xg.
     rbind (read_reg m 12) (\<lambda>addr_k.
     if \<not> addr_limb_ok addr_xg 31 \<or> \<not> addr_limb_ok addr_xr 31 \<or> \<not> addr_limb_ok addr_k 31
     then Inl EcsmAddressOverflow
     else if abs_diff addr_xg addr_k < 32 then Inl EcsmOperandOverlap
     else
       rbind (map_err ExecMemoryError (load_u256_le (mem m) addr_xg)) (\<lambda>xg.
       rbind (map_err ExecMemoryError (load_u256_le (mem m) addr_k)) (\<lambda>k.
       (case scalar_mul_x K k xg of
          None \<Rightarrow> Inl RustPanic
        | Some r \<Rightarrow>
            rbind (map_err ExecEcsm r) (\<lambda>xr.
            rbind (update_mem m (store_u256_le (mem m) addr_xr xr)) (\<lambda>m.
            Inr (m, addr_xg, addr_k)))))))))"

definition ecall_memcpy :: "machine \<Rightarrow> ecall_result" where
  "ecall_memcpy m =
     rbind (read_reg m 10) (\<lambda>dst.
     rbind (read_reg m 11) (\<lambda>src.
     rbind (read_reg m 12) (\<lambda>count.
     if DMA_MEMCPY_MAX_BYTES < count then Inl (DmaChunkTooLarge count)
     else
       rbind (ok_or (ExecMemoryError AddressOverflow) (checked_add dst count)) (\<lambda>_.
       rbind (ok_or (ExecMemoryError AddressOverflow) (checked_add src count)) (\<lambda>_.
       (let bytes = load_seq (mem m) src (unat count)
        in Inr (m\<lparr>mem := store_seq (mem m) dst bytes\<rparr>,
                copy_trace_rows src dst count False, count)))))))"

definition ecall_memset :: "machine \<Rightarrow> ecall_result" where
  "ecall_memset m =
     rbind (read_reg m 10) (\<lambda>dst.
     rbind (read_reg m 11) (\<lambda>src.
     rbind (read_reg m 12) (\<lambda>count.
     if DMA_MEMCPY_MAX_BYTES < count then Inl (DmaChunkTooLarge count)
     else
       rbind (ok_or (ExecMemoryError AddressOverflow) (checked_add dst count)) (\<lambda>_.
       rbind (ok_or (ExecMemoryError AddressOverflow) (checked_add src count)) (\<lambda>_.
       if checked_add src DMA_MEMSET_GAP \<noteq> Some dst then Inl (DmaMemsetBadGap src dst)
       else
         Inr (m\<lparr>mem := fold (\<lambda>i mm. store_byte mm (dst + of_nat i) (load_byte mm (src + of_nat i)))
                           [0..<unat count] (mem m)\<rparr>,
              copy_trace_rows src dst count False, count))))))"

definition ecall_hint :: "('fe, 'sc, 'ep, 'pt) k256 \<Rightarrow> machine \<Rightarrow> ecall_result" where
  "ecall_hint K m =
     rbind (read_reg m 10) (\<lambda>hint_id.
     rbind (read_reg m 11) (\<lambda>in_addr.
     rbind (read_reg m 12) (\<lambda>out_addr.
     if \<not> is_valid_hint_selector hint_id then Inl (HintUnknownSelector hint_id)
     else if \<not> addr_limb_ok in_addr 31 \<or> \<not> addr_limb_ok out_addr 31 then Inl HintAddressOverflow
     else
       rbind (map_err ExecMemoryError (load_u256_le (mem m) in_addr)) (\<lambda>input.
       rbind (update_mem m (store_u256_le (mem m) out_addr (compute_hint K hint_id input))) (\<lambda>m.
       Inr (m, in_addr, out_addr))))))"

definition execute_ecall ::
  "('fe, 'sc, 'ep, 'pt) k256 \<Rightarrow> u64 \<Rightarrow> machine \<Rightarrow> (ExecutionError, log \<times> machine) result" where
  "execute_ecall K pc m =
     rbind (read_reg m 17) (\<lambda>raw.
     rbind (map_err (\<lambda>_. UnknownSyscall raw) (syscall_try_from raw)) (\<lambda>syscall.
     if syscall = SysHalt then Inr (mk_log pc 0 raw 0 0, m)
     else
       rbind (case syscall of
                SysPrint \<Rightarrow> ecall_print m
              | SysPanic \<Rightarrow> ecall_panic m
              | SysCommit \<Rightarrow> ecall_commit m
              | SysKeccakPermute \<Rightarrow> ecall_keccak m
              | SysEcsm \<Rightarrow> ecall_ecsm K m
              | SysDmaMemcpy \<Rightarrow> ecall_memcpy m
              | SysDmaMemset \<Rightarrow> ecall_memset m
              | SysHint \<Rightarrow> ecall_hint K m
              | SysHalt \<Rightarrow> Inr (m, 0, 0)) (\<lambda>(m, src2, d).
       Inr (mk_log pc (pc + REGULAR_PC_UPDATE) raw src2 d, m))))"

section \<open>The instructions\<close>

definition store_value :: "memory \<Rightarrow> LoadStoreWidth \<Rightarrow> u64 \<Rightarrow> u64 \<Rightarrow> (ExecutionError, memory) result" where
  "store_value mm width addr v =
     (case width of
        Byte \<Rightarrow> Inr (store_byte mm addr (ucast (v AND 0xFF)))
      | Half \<Rightarrow> map_err ExecMemoryError (store_half mm addr (ucast (v AND 0xFFFF)))
      | Word \<Rightarrow> map_err ExecMemoryError (store_word mm addr (ucast v))
      | DoubleWord \<Rightarrow> map_err ExecMemoryError (store_doubleword mm addr v)
      | ByteUnsigned \<Rightarrow> Inl StoreBytesUnsignedNotSupported
      | HalfUnsigned \<Rightarrow> Inl StoreHalfUnsignedNotSupported
      | WordUnsigned \<Rightarrow> Inl StoreWordUnsignedNotSupported)"

definition load_value :: "memory \<Rightarrow> LoadStoreWidth \<Rightarrow> u64 \<Rightarrow> (ExecutionError, u64) result" where
  "load_value mm width addr =
     map_err ExecMemoryError
       (case width of
          Byte \<Rightarrow> Inr (scast (load_byte mm addr))
        | Half \<Rightarrow> rbind (load_half mm addr) (\<lambda>v. Inr (scast v))
        | Word \<Rightarrow> rbind (load_word mm addr) (\<lambda>v. Inr (scast v))
        | DoubleWord \<Rightarrow> load_doubleword mm addr
        | ByteUnsigned \<Rightarrow> Inr (ucast (load_byte mm addr))
        | HalfUnsigned \<Rightarrow> rbind (load_half mm addr) (\<lambda>v. Inr (ucast v))
        | WordUnsigned \<Rightarrow> rbind (load_word mm addr) (\<lambda>v. Inr (ucast v)))"

fun execute :: "('fe, 'sc, 'ep, 'pt) k256 \<Rightarrow> Instruction \<Rightarrow> u64 \<Rightarrow> machine
    \<Rightarrow> (ExecutionError, log \<times> machine) result" where
  "execute K (ArithImm dst src imm oper) pc m =
     rbind (read_reg m src) (\<lambda>op1.
     if oper = Sub then Inl SubImmNotSupported
     else (let res = arith_apply oper op1 (scast imm)
           in rbind (write_reg m dst res) (\<lambda>m.
              Inr (mk_log pc (pc + REGULAR_PC_UPDATE) op1 0 res, m))))"
| "execute K (ArithImmW dst src imm oper) pc m =
     rbind (read_reg m src) (\<lambda>raw_src.
     if oper = Sub then Inl SubImmNotSupported
     else rbind (arith_apply_word oper (ucast raw_src) imm) (\<lambda>res32.
          (let res = scast res32
           in rbind (write_reg m dst res) (\<lambda>m.
              Inr (mk_log pc (pc + REGULAR_PC_UPDATE) raw_src 0 res, m)))))"
| "execute K (JumpAndLinkRegister base dst offset) pc m =
     rbind (read_reg m base) (\<lambda>base_value.
     (let new_pc = (base_value + scast offset) AND NOT 1
      in rbind (write_reg m dst (pc + REGULAR_PC_UPDATE)) (\<lambda>m.
         Inr (mk_log pc new_pc base_value 0 (pc + REGULAR_PC_UPDATE), m))))"
| "execute K (JumpAndLink dst offset) pc m =
     rbind (write_reg m dst (pc + REGULAR_PC_UPDATE)) (\<lambda>m.
     Inr (mk_log pc (pc + scast offset) 0 0 (pc + REGULAR_PC_UPDATE), m))"
| "execute K (Store src offset base width) pc m =
     rbind (read_reg m src) (\<lambda>read_value.
     rbind (read_reg m base) (\<lambda>base.
     rbind (store_value (mem m) width (base + scast offset) read_value) (\<lambda>mm.
     Inr (mk_log pc (pc + REGULAR_PC_UPDATE) base read_value 0, m\<lparr>mem := mm\<rparr>))))"
| "execute K (Load dst offset base width) pc m =
     rbind (read_reg m base) (\<lambda>base.
     rbind (load_value (mem m) width (base + scast offset)) (\<lambda>value.
     rbind (write_reg m dst value) (\<lambda>m.
     Inr (mk_log pc (pc + REGULAR_PC_UPDATE) base 0 value, m))))"
| "execute K (Branch src1 src2 cond offset) pc m =
     rbind (read_reg m src1) (\<lambda>a.
     rbind (read_reg m src2) (\<lambda>b.
     (let new_pc = (if comparison_apply cond a b then pc + scast offset else pc + REGULAR_PC_UPDATE)
      in Inr (mk_log pc new_pc a b 0, m))))"
| "execute K (LoadUpperImm dst imm) pc m =
     (let value = scast imm
      in rbind (write_reg m dst value) (\<lambda>m.
         Inr (mk_log pc (pc + REGULAR_PC_UPDATE) 0 0 value, m)))"
| "execute K (AddUpperImmToPc dst imm) pc m =
     (let value = pc + scast imm
      in rbind (write_reg m dst value) (\<lambda>m.
         Inr (mk_log pc (pc + REGULAR_PC_UPDATE) 0 0 value, m)))"
| "execute K (Arith dst src1 src2 oper) pc m =
     rbind (read_reg m src1) (\<lambda>a.
     rbind (read_reg m src2) (\<lambda>b.
     (let res = arith_apply oper a b
      in rbind (write_reg m dst res) (\<lambda>m.
         Inr (mk_log pc (pc + REGULAR_PC_UPDATE) a b res, m)))))"
| "execute K (ArithW dst src1 src2 oper) pc m =
     rbind (read_reg m src1) (\<lambda>raw_src1.
     rbind (read_reg m src2) (\<lambda>raw_src2.
     rbind (arith_apply_word oper (ucast raw_src1) (ucast raw_src2)) (\<lambda>res32.
     (let res = scast res32
      in rbind (write_reg m dst res) (\<lambda>m.
         Inr (mk_log pc (pc + REGULAR_PC_UPDATE) raw_src1 raw_src2 res, m))))))"
| "execute K (CSR csr src dst oper) pc m = Inr (mk_log pc (pc + REGULAR_PC_UPDATE) 0 0 0, m)"
| "execute K EcallEbreak pc m = execute_ecall K pc m"
| "execute K Fence pc m = Inr (mk_log pc (pc + REGULAR_PC_UPDATE) 0 0 0, m)"

definition run :: "('fe, 'sc, 'ep, 'pt) k256 \<Rightarrow> Instruction \<Rightarrow> u64 \<Rightarrow> machine
    \<Rightarrow> (ExecutionError, log \<times> u64 \<times> machine) result" where
  "run K i pc m = rbind (execute K i pc m) (\<lambda>(l, m). Inr (l, next_pc l, m))"

section \<open>Well-formed machines\<close>

definition machine_wf :: "machine \<Rightarrow> bool" where
  "machine_wf m \<longleftrightarrow> regs_wf (regs m) \<and> memory_wf (mem m)"

definition machine_default :: machine where
  "machine_default = \<lparr>regs = registers_default, mem = memory_default, stdout = []\<rparr>"

lemma machine_default_wf [simp]: "machine_wf machine_default"
  by (simp add: machine_wf_def machine_default_def)

lemma machine_wf_mem: "machine_wf m \<Longrightarrow> memory_wf mm \<Longrightarrow> machine_wf (m\<lparr>mem := mm\<rparr>)"
  by (simp add: machine_wf_def)

lemma machine_wfD: "machine_wf m \<Longrightarrow> regs_wf (regs m)" "machine_wf m \<Longrightarrow> memory_wf (mem m)"
  "machine_wf m \<Longrightarrow> cells_wf (mem m)"
  by (simp_all add: machine_wf_def memory_wf_def)

lemma write_reg_Inr [result_simps]:
  "write_reg m r v = Inr m' \<longleftrightarrow> (\<exists>rs. reg_write (regs m) r v = Inr rs \<and> m' = m\<lparr>regs := rs\<rparr>)"
  by (auto simp: write_reg_def result_simps)

lemma update_mem_Inr [result_simps]:
  "update_mem m r = Inr m' \<longleftrightarrow> (\<exists>mm. r = Inr mm \<and> m' = m\<lparr>mem := mm\<rparr>)"
  by (auto simp: update_mem_def result_simps)

lemma write_reg_wf: "machine_wf m \<Longrightarrow> reg_write (regs m) r v = Inr rs \<Longrightarrow> machine_wf (m\<lparr>regs := rs\<rparr>)"
  by (auto simp: machine_wf_def intro: reg_write_wf)

lemma store_doubleword_wf: "memory_wf m \<Longrightarrow> store_doubleword m a v = Inr m' \<Longrightarrow> memory_wf m'"
  using store_doubleword_eq [of m a v]
  by (auto simp: memory_wf_def split: if_splits) (auto simp: stores_def)

text \<open>The bytes of an access, and the store of each width.\<close>

fun access_bytes :: "LoadStoreWidth \<Rightarrow> nat" where
  "access_bytes Byte = 1"
| "access_bytes ByteUnsigned = 1"
| "access_bytes Half = 2"
| "access_bytes HalfUnsigned = 2"
| "access_bytes Word = 4"
| "access_bytes WordUnsigned = 4"
| "access_bytes DoubleWord = 8"

lemma to_le_bytes_low:
  fixes v :: u64
  shows "[ucast (v AND 0xFF)] = to_le_bytes 1 v" "to_le_bytes 2 (ucast (v AND 0xFFFF) :: u16) = to_le_bytes 2 v"
    "to_le_bytes 4 (ucast v :: u32) = to_le_bytes 4 v"
proof -
  have m: "(0xFF :: u64) = mask 8" "(0xFFFF :: u64) = mask 16" by (simp_all add: mask_eq_exp_minus_1)
  have "ucast (v AND mask 8) = (ucast v :: u8)" "ucast (v AND mask 16) = (ucast v :: u16)"
    by (rule bit_word_eqI; auto simp: bit_simps)+
  then show "[ucast (v AND 0xFF)] = to_le_bytes 1 v" "to_le_bytes 2 (ucast (v AND 0xFFFF) :: u16) = to_le_bytes 2 v"
    unfolding m by (simp_all add: to_le_bytes_ucast) (simp add: to_le_bytes_def)
  show "to_le_bytes 4 (ucast v :: u32) = to_le_bytes 4 v" by (simp add: to_le_bytes_ucast)
qed

lemma store_value_eq:
  assumes "cells_wf m" "width \<in> {Byte, Half, Word, DoubleWord}"
  shows "\<exists>m'. stores m a (to_le_bytes (access_bytes width) v) m' \<and>
    store_value m width a v =
      (if unat a + access_bytes width \<le> 2 ^ 64 then Inr m' else Inl (ExecMemoryError AddressOverflow))"
proof -
  have b: "unat a < 2 ^ 64" using unat_lt2p [of a] by simp
  consider "width = Byte" | "width = Half" | "width = Word" | "width = DoubleWord" using assms(2) by auto
  then show ?thesis
  proof cases
    case 1
    then show ?thesis
      using store_byte_stores [OF assms(1), of a "ucast (v AND 0xFF)"] b by (auto simp: store_value_def to_le_bytes_low)
  next
    case 2
    then show ?thesis using store_half_eq [OF assms(1), of a "ucast (v AND 0xFFFF)"] by (auto simp: store_value_def to_le_bytes_low)
  next
    case 3
    then show ?thesis using store_word_eq [OF assms(1), of a "ucast v"] by (auto simp: store_value_def to_le_bytes_low)
  next
    case 4
    then show ?thesis using store_doubleword_eq [OF assms(1), of a v] by (auto simp: store_value_def)
  qed
qed

lemma store_value_stores:
  assumes "cells_wf m" "store_value m width a v = Inr m'"
  shows "stores m a (to_le_bytes (access_bytes width) v) m'"
proof -
  have "width \<in> {Byte, Half, Word, DoubleWord}" using assms(2) by (cases width) (simp_all add: store_value_def)
  then show ?thesis using store_value_eq [OF assms(1), of width a v] assms(2) by (auto split: if_splits)
qed

lemma store_value_wf: "memory_wf m \<Longrightarrow> store_value m width a v = Inr m' \<Longrightarrow> memory_wf m'"
  using store_value_stores [of m width a v m'] by (auto simp: memory_wf_def stores_def)

lemma store_u256_le_wf: "memory_wf m \<Longrightarrow> store_u256_le m a bs = Inr m' \<Longrightarrow> memory_wf m'"
  unfolding store_u256_le_def by (erule rfold_invariant) (auto intro: store_doubleword_wf)

lemma store_seq_memory_wf: "memory_wf m \<Longrightarrow> memory_wf (store_seq m a bs)"
  by (simp add: memory_wf_def)

lemma memset_wf:
  "memory_wf m \<Longrightarrow>
    memory_wf (fold (\<lambda>i mm. store_byte mm (d + of_nat i) (load_byte mm (s + of_nat i))) is m)"
  by (induction "is" arbitrary: m) (simp_all add: memory_wf_def)

lemma keccak_stores_wf:
  assumes "rfold (\<lambda>(i, lane) mm. rbind (keccak_lane_addr a i) (\<lambda>lane_addr.
      map_err ExecMemoryError (store_doubleword mm lane_addr lane))) ils m = Inr m'" "memory_wf m"
  shows "memory_wf m'"
  using assms(1,2) by (rule rfold_invariant) (auto simp: result_simps intro: store_doubleword_wf)

text \<open>Every handler keeps the machine well-formed.\<close>

lemma ecall_handlers_wf:
  assumes "machine_wf m"
  shows "ecall_print m = Inr (m', v2, d) \<Longrightarrow> machine_wf m'"
    "ecall_commit m = Inr (m', v2, d) \<Longrightarrow> machine_wf m'"
    "ecall_keccak m = Inr (m', v2, d) \<Longrightarrow> machine_wf m'"
    "ecall_ecsm K m = Inr (m', v2, d) \<Longrightarrow> machine_wf m'"
    "ecall_memcpy m = Inr (m', v2, d) \<Longrightarrow> machine_wf m'"
    "ecall_memset m = Inr (m', v2, d) \<Longrightarrow> machine_wf m'"
    "ecall_hint K m = Inr (m', v2, d) \<Longrightarrow> machine_wf m'"
proof -
  note wf = assms machine_wfD(2) [OF assms]
  show "ecall_print m = Inr (m', v2, d) \<Longrightarrow> machine_wf m'"
    using assms by (auto simp: ecall_print_def result_simps machine_wf_def)
  show "ecall_commit m = Inr (m', v2, d) \<Longrightarrow> machine_wf m'"
    using wf by (auto simp: ecall_commit_def result_simps split: if_splits
        intro!: write_reg_wf machine_wf_mem intro: commit_public_output_wf)
  show "ecall_keccak m = Inr (m', v2, d) \<Longrightarrow> machine_wf m'"
    using wf by (auto simp: ecall_keccak_def result_simps split: if_splits
        intro!: machine_wf_mem intro: keccak_stores_wf)
  show "ecall_ecsm K m = Inr (m', v2, d) \<Longrightarrow> machine_wf m'"
    using wf by (auto simp: ecall_ecsm_def result_simps split: if_splits option.splits
        intro!: machine_wf_mem intro: store_u256_le_wf)
  show "ecall_memcpy m = Inr (m', v2, d) \<Longrightarrow> machine_wf m'"
    using wf by (auto simp: ecall_memcpy_def result_simps Let_def split: if_splits
        intro!: machine_wf_mem store_seq_memory_wf)
  show "ecall_memset m = Inr (m', v2, d) \<Longrightarrow> machine_wf m'"
    using wf by (auto simp: ecall_memset_def result_simps split: if_splits
        intro!: machine_wf_mem memset_wf)
  show "ecall_hint K m = Inr (m', v2, d) \<Longrightarrow> machine_wf m'"
    using wf by (auto simp: ecall_hint_def result_simps split: if_splits
        intro!: machine_wf_mem intro: store_u256_le_wf)
qed

lemma mk_log_simps [simp]:
  "current_pc (mk_log pc npc v1 v2 d) = pc" "next_pc (mk_log pc npc v1 v2 d) = npc"
  "src1_val (mk_log pc npc v1 v2 d) = v1" "src2_val (mk_log pc npc v1 v2 d) = v2"
  "dst_val (mk_log pc npc v1 v2 d) = d"
  by (simp_all add: mk_log_def)

lemma execute_ecall_wf:
  assumes "machine_wf m" "execute_ecall K pc m = Inr (l, m')"
  shows "machine_wf m' \<and> current_pc l = pc"
proof -
  note h = ecall_handlers_wf [OF assms(1)]
  show ?thesis
    using assms by (auto simp: execute_ecall_def result_simps ecall_panic_def
        split: if_splits SyscallNumbers.splits dest: h)
qed

lemma executed_wf:
  assumes "machine_wf m" "execute K i pc m = Inr (l, m')"
  shows "machine_wf m' \<and> current_pc l = pc"
proof (cases "i = EcallEbreak")
  case True
  then show ?thesis using assms execute_ecall_wf by simp
next
  case False
  then show ?thesis
    using assms
    by (cases i) (auto simp: result_simps Let_def split: if_splits
        intro!: write_reg_wf machine_wf_mem intro: store_value_wf machine_wfD)
qed

text \<open>C10: every instruction keeps the machine well-formed (31 registers, aligned four-byte cells,
  public output within its limit) and logs the address it was executed at.\<close>

theorem execute_preserves_wf:
  assumes "machine_wf m" "execute K i pc m = Inr (l, m')"
  shows "machine_wf m' \<and> current_pc l = pc"
  using assms by (rule executed_wf)

text \<open>A concrete parameter for the \<open>k256\<close> functions: no field element decodes.\<close>

definition k256_none :: "(unit, unit, unit, unit) k256" where
  "k256_none =
     \<lparr>fe_from_bytes = \<lambda>_. None, fe_to_bytes = \<lambda>_. replicate 32 0, fe_invert = \<lambda>_. None,
      fe_sqrt = \<lambda>_. None, sc_from_repr = \<lambda>_. None, sc_to_bytes = \<lambda>_. replicate 32 0,
      sc_invert = \<lambda>_. None, ep_from_bytes = \<lambda>_. None, ep_from_affine_coordinates = \<lambda>_ _. (),
      ep_x = \<lambda>_. None, ep_y = \<lambda>_. None, affine_from_encoded_point = \<lambda>_. None,
      affine_to_encoded_point = \<lambda>_. (), point_mul = \<lambda>_ _. ()\<rparr>"

lemma execute_addi_sample:
  "execute k256_none (ArithImm 5 2 1 Add) 0x1000 machine_default =
     Inr (mk_log 0x1000 0x1004 STACK_TOP 0 (STACK_TOP + 1),
          machine_default\<lparr>regs := registers_default[4 := STACK_TOP + 1]\<rparr>)"
  by (simp add: machine_default_def reg_read_def write_reg_def reg_write_def REGULAR_PC_UPDATE_def
      registers_default_def Let_def STACK_TOP_def)

theorem execute_preserves_wf_witness:
  "machine_wf (machine_default\<lparr>regs := registers_default[4 := STACK_TOP + 1]\<rparr>)"
  using execute_preserves_wf [OF machine_default_wf execute_addi_sample] by simp

section \<open>Errors of decoded instructions\<close>

lemma read_reg_total: "r < 32 \<Longrightarrow> \<exists>v. reg_read rs r = Inr v"
proof -
  assume "r < 32"
  then have "r \<le> 31" by (simp add: word_less_nat_alt word_le_nat_alt)
  then show ?thesis by (rule regs.get_total)
qed

lemma read_reg_no_error: "r < 32 \<Longrightarrow> reg_read rs r \<noteq> Inl e"
  using read_reg_total [of r rs] by auto

lemma write_reg_no_error: "r < 32 \<Longrightarrow> write_reg m r v \<noteq> Inl e"
proof -
  assume "r < 32"
  then have "r \<le> 31" by (simp add: word_less_nat_alt word_le_nat_alt)
  then obtain rs where "reg_write (regs m) r v = Inr rs" using regs.put_total by blast
  then show ?thesis by (simp add: write_reg_def)
qed

lemma load_value_error:
  assumes "cells_wf m"
  shows "load_value m width a = Inl e \<longleftrightarrow> e = ExecMemoryError AddressOverflow \<and> 2 ^ 64 < unat a + access_bytes width"
  using assms unat_lt2p [of a] by (cases width) (auto simp: load_value_def result_simps load_eqs split: if_splits)

lemma store_value_error:
  assumes "cells_wf m" "width \<in> {Byte, Half, Word, DoubleWord}"
  shows "store_value m width a v = Inl e \<longleftrightarrow> e = ExecMemoryError AddressOverflow \<and> 2 ^ 64 < unat a + access_bytes width"
  using store_value_eq [OF assms, of a v] by (auto split: if_splits)

lemma apply_word_no_error: "w_supported oper \<Longrightarrow> arith_apply_word oper a b \<noteq> Inl e"
  by (cases oper) (auto simp: w_supported_def)

text \<open>A load or store whose bytes do not all lie in the address space.\<close>

fun access_past_end :: "machine \<Rightarrow> Instruction \<Rightarrow> bool" where
  "access_past_end m (Store src offset base width) \<longleftrightarrow>
     (case reg_read (regs m) base of Inl _ \<Rightarrow> False | Inr b \<Rightarrow> 2 ^ 64 < unat (b + scast offset) + access_bytes width)"
| "access_past_end m (Load dst offset base width) \<longleftrightarrow>
     (case reg_read (regs m) base of Inl _ \<Rightarrow> False | Inr b \<Rightarrow> 2 ^ 64 < unat (b + scast offset) + access_bytes width)"
| "access_past_end m _ \<longleftrightarrow> False"

lemma valid_instruction_errors:
  assumes "machine_wf m" "instr_valid i" "i \<noteq> EcallEbreak"
  shows "execute K i pc m = Inl e \<longleftrightarrow> e = ExecMemoryError AddressOverflow \<and> access_past_end m i"
proof -
  note c = machine_wfD(3) [OF assms(1)]
  show ?thesis
  proof (cases i)
    case (Store src offset base width)
    then obtain v b where r: "reg_read (regs m) src = Inr v" "reg_read (regs m) base = Inr b"
      using assms(2) read_reg_total [of src "regs m"] read_reg_total [of base "regs m"] by auto
    have w: "width \<in> {Byte, Half, Word, DoubleWord}" using assms(2) Store by simp
    show ?thesis using store_value_error [OF c w, of "b + scast offset" v e] by (simp add: Store r result_simps)
  next
    case (Load dst offset base width)
    then obtain b where r: "reg_read (regs m) base = Inr b" using assms(2) read_reg_total [of base "regs m"] by auto
    show ?thesis
      using load_value_error [OF c, of width "b + scast offset" e] assms(2) by (auto simp: Load r result_simps write_reg_no_error)
  qed (use assms(2,3) in \<open>auto simp: result_simps Let_def read_reg_no_error write_reg_no_error apply_word_no_error w_supported_def is_shift_def split: if_splits\<close>)
qed

text \<open>C11: what can go wrong with an instruction that the decoder produced. Apart from \<open>ecall\<close>, it
  fails exactly when it is a load or a store whose bytes, as many as its width has, do not all lie
  below the end of the address space, and then with \<open>AddressOverflow\<close>; the errors for invalid
  registers, immediate subtraction, unsigned stores and missing word operations are unreachable.\<close>

theorem decoded_instruction_errors:
  assumes "machine_wf m" "parse w = Inr i" "i \<noteq> EcallEbreak"
  shows "execute K i pc m = Inl e \<longleftrightarrow> e = ExecMemoryError AddressOverflow \<and> access_past_end m i"
  using assms(1) decoded_valid [OF assms(2)] assms(3) by (rule valid_instruction_errors)

theorem decoded_instruction_errors_witness:
  "execute k256_none (Store 1 15 2 DoubleWord) 0x1000 machine_default
     = Inl (ExecMemoryError AddressOverflow)
   \<and> parse 0x1137A3 = Inr (Store 1 15 2 DoubleWord)"
proof -
  have p: "parse 0x1137A3 = Inr (Store 1 15 2 DoubleWord)"
    by (simp add: parse_def parse_opcode_def OPCODE_MASK_def opcode_values parse_s_instruction_def
        FUNC7_MASK_def FUNC3_MASK_def RS1_MASK_def RS2_MASK_def RD_MASK_def SIGN_MASK_def Let_def
        from_func3_store_def)
  have "access_past_end machine_default (Store 1 15 2 DoubleWord)"
    by (simp add: machine_default_def reg_read_def registers_default_def STACK_TOP_def)
  then show ?thesis using decoded_instruction_errors [OF machine_default_wf p, of k256_none "0x1000"] p by simp
qed

section \<open>What an instruction changes\<close>

fun dest_reg :: "Instruction \<Rightarrow> u32" where
  "dest_reg (Arith dst _ _ _) = dst"
| "dest_reg (ArithImm dst _ _ _) = dst"
| "dest_reg (ArithW dst _ _ _) = dst"
| "dest_reg (ArithImmW dst _ _ _) = dst"
| "dest_reg (JumpAndLink dst _) = dst"
| "dest_reg (JumpAndLinkRegister _ dst _) = dst"
| "dest_reg (Load dst _ _ _) = dst"
| "dest_reg (LoadUpperImm dst _) = dst"
| "dest_reg (AddUpperImmToPc dst _) = dst"
| "dest_reg _ = 0"

lemma reg_write_other:
  assumes "regs_wf rs" "reg_write rs n v = Inr rs'"
  shows "reg_read rs' k = (if k = n \<and> n \<noteq> 0 then Inr v else reg_read rs k)"
proof (cases "k \<le> 31")
  case True
  then show ?thesis by (rule regs.get_put [OF assms])
next
  case False
  then have "31 < k" by simp
  moreover have "n \<le> 31" using assms(2) by (auto simp: reg_write_def split: if_splits)
  ultimately show ?thesis using regs.get_invalid [of k] by auto
qed

text \<open>C12: the frame of an instruction other than \<open>ecall\<close>. It writes at most its destination
  register, and the value written is the one in the log; it prints nothing, commits nothing, and
  only a store changes memory: exactly the one, two, four or eight bytes of its width from its
  address on, to the low bytes of the source register; the next address is the following one
  except for jumps and branches.\<close>

theorem execute_frame:
  assumes "machine_wf m" "i \<noteq> EcallEbreak" "execute K i pc m = Inr (l, m')"
  shows "(\<forall>r. reg_read (regs m') r =
           (if r = dest_reg i \<and> r \<noteq> 0 then Inr (dst_val l) else reg_read (regs m) r))
    \<and> stdout m' = stdout m \<and> public_output (mem m') = public_output (mem m)
    \<and> (case i of
         Store src offset base width \<Rightarrow>
           (\<exists>b v. reg_read (regs m) base = Inr b \<and> reg_read (regs m) src = Inr v
             \<and> load_byte (mem m') =
                 flat_write (load_byte (mem m)) (b + scast offset) (to_le_bytes (access_bytes width) v))
       | _ \<Rightarrow> mem m' = mem m)
    \<and> (case i of
         JumpAndLink _ _ \<Rightarrow> True | JumpAndLinkRegister _ _ _ \<Rightarrow> True | Branch _ _ _ _ \<Rightarrow> True
       | _ \<Rightarrow> next_pc l = pc + 4)"
proof (cases i)
  case (Store src offset base width)
  then obtain b v where b: "reg_read (regs m) base = Inr b" "reg_read (regs m) src = Inr v"
    and s: "store_value (mem m) width (b + scast offset) v = Inr (mem m')"
    and eq: "m' = m\<lparr>mem := mem m'\<rparr>" "next_pc l = pc + 4"
    using assms(3) by (auto simp: result_simps REGULAR_PC_UPDATE_def)
  have bs: "stores (mem m) (b + scast offset) (to_le_bytes (access_bytes width) v) (mem m')"
    using store_value_stores [OF machine_wfD(3) [OF assms(1)] s] .
  moreover have "regs m' = regs m" "stdout m' = stdout m" using eq(1) by (metis machine.select_convs machine.surjective machine.update_convs)+
  ultimately show ?thesis using Store b eq(2) by (auto simp: stores_def)
qed (use assms in \<open>auto simp: result_simps Let_def REGULAR_PC_UPDATE_def
      reg_write_other [OF machine_wfD(1) [OF assms(1)]] split: if_splits\<close>)

lemma execute_store_sample:
  "\<exists>l m'. execute k256_none (Store 2 (- 8) 2 DoubleWord) 0x1000 machine_default = Inr (l, m')"
  by (simp add: machine_default_def reg_read_def registers_default_def STACK_TOP_def
      store_value_def store_doubleword_def Let_def)

theorem execute_frame_witness:
  "\<exists>l m'. execute k256_none (Store 2 (- 8) 2 DoubleWord) 0x1000 machine_default = Inr (l, m')
     \<and> regs m' ! 0 = 0 \<and> next_pc l = 0x1004"
proof -
  obtain l m' where e: "execute k256_none (Store 2 (- 8) 2 DoubleWord) 0x1000 machine_default = Inr (l, m')"
    using execute_store_sample by auto
  note f = execute_frame [OF machine_default_wf _ e]
  have "reg_read (regs m') 1 = reg_read (regs machine_default) 1" using f by simp
  then have "regs m' ! 0 = 0"
    by (simp add: reg_read_def machine_default_def registers_default_def)
  then show ?thesis using e f by (intro exI [of _ l] exI [of _ m']) simp
qed

section \<open>The copy calls\<close>

lemma memset_as_copy:
  assumes "cells_wf m" "count + 8 \<le> 2 ^ 64"
  shows "load_byte (fold (\<lambda>i mm. store_byte mm (src + 8 + of_nat i) (load_byte mm (src + of_nat i)))
      [0..<count] m) x =
     (if 8 \<le> unat (x - src) \<and> unat (x - src) < 8 + count
      then load_byte m (src + of_nat (unat (x - src) mod 8)) else load_byte m x)"
  using cellmap.rd_propagating_copy [of m 8 count src x] assms by simp

lemma checked_add_gap: "checked_add src DMA_MEMSET_GAP = Some dst \<longleftrightarrow> unat dst = unat src + 8"
proof (cases "unat src + 8 < 2 ^ 64")
  case True
  then have "unat (src + 8) = unat src + 8" using unat_add_small [of src 8] by simp
  then have "src + 8 = dst \<longleftrightarrow> unat dst = unat src + 8" by (auto simp: word_unat_eq_iff)
  then show ?thesis using True by (simp add: checked_add_def DMA_MEMSET_GAP_def)
next
  case False
  then show ?thesis using unat_lt2p [of dst] by (auto simp: checked_add_def DMA_MEMSET_GAP_def)
qed

text \<open>C13: the copy call is \<open>memmove\<close>. With the destination, source and length in registers 10 to
  12, it fails exactly for more than 256 bytes or a range past the end of the address space;
  otherwise every byte of the destination range gets the value that the source had before the
  call, also for overlapping ranges, no other byte and no register changes, and the log carries
  the row count and the length.\<close>

theorem memcpy_is_memmove:
  assumes "machine_wf m" "reg_read (regs m) 10 = Inr dst" "reg_read (regs m) 11 = Inr src"
    "reg_read (regs m) 12 = Inr count"
  shows "(case ecall_memcpy m of
      Inl e \<Rightarrow> (256 < unat count \<and> e = DmaChunkTooLarge count)
        \<or> (unat count \<le> 256 \<and> 2 ^ 64 \<le> max (unat dst) (unat src) + unat count
             \<and> e = ExecMemoryError AddressOverflow)
    | Inr (m', rows, len) \<Rightarrow> unat count \<le> 256 \<and> max (unat dst) (unat src) + unat count < 2 ^ 64
        \<and> (\<forall>a. load_byte (mem m') a =
              (if unat (a - dst) < unat count then load_byte (mem m) (src + (a - dst))
               else load_byte (mem m) a))
        \<and> regs m' = regs m \<and> public_output (mem m') = public_output (mem m)
        \<and> unat rows = max 1 (unat count div 8 + unat count mod 8) \<and> len = count)"
proof -
  have c: "cells_wf (mem m)" using assms(1) by (rule machine_wfD)
  have lb: "load_byte (store_seq (mem m) dst (load_seq (mem m) src (unat count))) a =
      (if unat (a - dst) < unat count then load_byte (mem m) (src + (a - dst))
       else load_byte (mem m) a)" for a
    using unat_lt2p [of count] by (simp add: load_byte_store_seq [OF c] flat_write_def)
  have rows: "unat (copy_trace_rows src dst count False) = max 1 (unat count div 8 + unat count mod 8)"
    by (rule copy_rows_closed)
  show ?thesis
    using assms(2-4) lb rows
    by (auto simp: ecall_memcpy_def DMA_MEMCPY_MAX_BYTES_def word_less_nat_alt checked_add_def
        Let_def max_def)
qed

definition copy_sample :: machine where
  "copy_sample = machine_default\<lparr>regs := registers_default[9 := 0x2004, 10 := 0x2000, 11 := 16],
     mem := store_seq memory_default 0x2000 [1, 2, 3, 4, 5, 6, 7, 8]\<rparr>"

lemma copy_sample_wf: "machine_wf copy_sample"
  using store_seq_memory_wf [OF memory_default_wf]
  by (simp add: copy_sample_def machine_wf_def regs_wf_def registers_default_def machine_default_def)

lemma copy_sample_regs:
  "reg_read (regs copy_sample) 10 = Inr 0x2004" "reg_read (regs copy_sample) 11 = Inr 0x2000"
  "reg_read (regs copy_sample) 12 = Inr 16"
  by (simp_all add: copy_sample_def reg_read_def registers_default_def)

theorem memcpy_is_memmove_witness:
  "\<exists>m' rows. ecall_memcpy copy_sample = Inr (m', rows, 16)
     \<and> load_byte (mem m') 0x2008 = load_byte (mem copy_sample) 0x2004 \<and> unat rows = 2"
proof -
  note c = memcpy_is_memmove [OF copy_sample_wf copy_sample_regs]
  show ?thesis
  proof (cases "ecall_memcpy copy_sample")
    case (Inl e)
    then show ?thesis using c by simp
  next
    case (Inr r)
    then obtain m' rows len where r: "r = (m', rows, len)" by (cases r) auto
    have "load_byte (mem m') 0x2008 = load_byte (mem copy_sample) 0x2004" "unat rows = 2" "len = 16"
      using c Inr r by simp_all
    then show ?thesis using Inr r by simp
  qed
qed

text \<open>C14: the fill call propagates its seed. When the destination starts eight bytes after the
  source, and the sizes are in range, the call gives the byte at distance \<open>j\<close> from the destination
  the value that the byte at distance \<open>j mod 8\<close> from the source had before the call: the eight seed
  bytes are repeated over the whole range, and no other byte changes. Any other distance between
  source and destination is refused.\<close>

theorem memset_propagates_seed:
  assumes "machine_wf m" "reg_read (regs m) 10 = Inr dst" "reg_read (regs m) 11 = Inr src"
    "reg_read (regs m) 12 = Inr count" "unat count \<le> 256"
    "max (unat dst) (unat src) + unat count < 2 ^ 64"
  shows "(case ecall_memset m of
      Inl e \<Rightarrow> unat dst \<noteq> unat src + 8 \<and> e = DmaMemsetBadGap src dst
    | Inr (m', rows, len) \<Rightarrow> unat dst = unat src + 8
        \<and> (\<forall>j < unat count. load_byte (mem m') (dst + of_nat j)
              = load_byte (mem m) (src + of_nat (j mod 8)))
        \<and> (\<forall>a. unat count \<le> unat (a - dst) \<longrightarrow> load_byte (mem m') a = load_byte (mem m) a)
        \<and> regs m' = regs m \<and> len = count)"
proof -
  have c: "cells_wf (mem m)" using assms(1) by (rule machine_wfD)
  have gap: "checked_add src DMA_MEMSET_GAP = Some dst \<longleftrightarrow> unat dst = unat src + 8"
    by (rule checked_add_gap)
  have ok: "checked_add dst count = Some (dst + count)" "checked_add src count = Some (src + count)"
    "\<not> DMA_MEMCPY_MAX_BYTES < count"
    using assms(5,6) by (simp_all add: checked_add_def DMA_MEMCPY_MAX_BYTES_def word_less_nat_alt)
  show ?thesis
  proof (cases "unat dst = unat src + 8")
    case False
    then show ?thesis using assms(2-4) gap ok by (simp add: ecall_memset_def)
  next
    case True
    then have d: "dst = src + 8"
      using unat_add_small [of src 8] unat_lt2p [of dst] by (intro word_unat_eq_iff [THEN iffD2]) simp
    let ?mm = "fold (\<lambda>i mm. store_byte mm (dst + of_nat i) (load_byte mm (src + of_nat i)))
        [0..<unat count] (mem m)"
    have lb: "load_byte ?mm x = (if 8 \<le> unat (x - src) \<and> unat (x - src) < 8 + unat count
        then load_byte (mem m) (src + of_nat (unat (x - src) mod 8)) else load_byte (mem m) x)" for x
      unfolding d by (rule memset_as_copy [OF c]) (use assms(5) in simp)
    have in_range: "load_byte ?mm (dst + of_nat j) = load_byte (mem m) (src + of_nat (j mod 8))"
      if "j < unat count" for j
    proof -
      have "unat (dst + of_nat j - src) = 8 + j"
        using that assms(5) unat_of_nat_less [of "8 + j", where 'a = 64] by (simp add: d)
      then show ?thesis using that by (simp add: lb)
    qed
    have out: "load_byte ?mm a = load_byte (mem m) a" if "unat count \<le> unat (a - dst)" for a
    proof -
      have "\<not> (8 \<le> unat (a - src) \<and> unat (a - src) < 8 + unat count)"
      proof
        assume h: "8 \<le> unat (a - src) \<and> unat (a - src) < 8 + unat count"
        then have "unat (a - src - 8) = unat (a - src) - 8" by (simp add: unat_sub_if')
        moreover have "a - src - 8 = a - dst" by (simp add: d)
        ultimately have "unat (a - dst) = unat (a - src) - 8" by (simp only:)
        then show False using that h by linarith
      qed
      then show ?thesis by (simp only: lb if_False)
    qed
    show ?thesis
      using assms(2-4) gap ok True in_range out by (simp add: ecall_memset_def)
  qed
qed

definition memset_sample :: machine where
  "memset_sample = machine_default\<lparr>regs := registers_default[9 := 0x2008, 10 := 0x2000, 11 := 20],
     mem := store_seq memory_default 0x2000 (replicate 8 0xAB)\<rparr>"

lemma memset_sample_regs:
  "machine_wf memset_sample" "reg_read (regs memset_sample) 10 = Inr 0x2008"
  "reg_read (regs memset_sample) 11 = Inr 0x2000" "reg_read (regs memset_sample) 12 = Inr 20"
  using store_seq_memory_wf [OF memory_default_wf]
  by (simp_all add: memset_sample_def machine_wf_def regs_wf_def registers_default_def
      machine_default_def reg_read_def)

theorem memset_propagates_seed_witness:
  "\<exists>m' rows. ecall_memset memset_sample = Inr (m', rows, 20)
     \<and> load_byte (mem m') 0x2013 = load_byte (mem memset_sample) 0x2003"
proof -
  note c = memset_propagates_seed [OF memset_sample_regs]
  show ?thesis
  proof (cases "ecall_memset memset_sample")
    case (Inl e)
    then show ?thesis using c by simp
  next
    case (Inr r)
    then obtain m' rows len where r: "r = (m', rows, len)" by (cases r) auto
    have "\<forall>j < 20. load_byte (mem m') (0x2008 + of_nat j)
        = load_byte (mem memset_sample) (0x2000 + of_nat (j mod 8))" "len = 20"
      using c Inr r by simp_all
    then show ?thesis using Inr r by (auto dest: spec [of _ 11])
  qed
qed

section \<open>The Keccak call\<close>

definition lanes_at :: "memory \<Rightarrow> u64 \<Rightarrow> u64 list" where
  "lanes_at m a = map (\<lambda>i. from_le_bytes (load_seq m (a + of_nat (8 * i)) 8)) [0..<25]"

lemma keccak_addr:
  assumes "unat a + 199 < 2 ^ 64" "i < 25"
  shows "keccak_lane_addr a i = Inr (a + of_nat (8 * i))" "unat (a + of_nat (8 * i)) + 7 < 2 ^ 64"
proof -
  have i: "unat (of_nat i * 8 :: u64) = 8 * i"
    using unat_of_nat_less [of "8 * i", where 'a = 64] assms(2) by (simp add: mult.commute)
  show "keccak_lane_addr a i = Inr (a + of_nat (8 * i))"
    using assms i by (simp add: keccak_lane_addr_def checked_add_def mult.commute)
  show "unat (a + of_nat (8 * i)) + 7 < 2 ^ 64"
    using assms unat_add_small [of a "8 * i"] by simp
qed

lemma keccak_load:
  assumes "cells_wf m" "unat a + 199 < 2 ^ 64"
  shows "rcollect (\<lambda>i. rbind (keccak_lane_addr a i) (\<lambda>lane_addr.
     map_err ExecMemoryError (load_doubleword m lane_addr))) [0..<25] = Inr (lanes_at m a)"
  unfolding lanes_at_def
proof (rule rcollect_all)
  fix i :: nat assume "i \<in> set [0..<25]"
  then have i: "i < 25" by simp
  show "rbind (keccak_lane_addr a i) (\<lambda>lane_addr. map_err ExecMemoryError (load_doubleword m lane_addr))
      = Inr (from_le_bytes (load_seq m (a + of_nat (8 * i)) 8))"
    using keccak_addr [OF assms(2) i] load_doubleword_eq [OF assms(1), of "a + of_nat (8 * i)"] by simp
qed

lemma keccak_store:
  assumes "cells_wf m" "unat a + 199 < 2 ^ 64" "k + length ls \<le> 25" "stores m0 a bs m" "length bs = 8 * k"
  shows "\<exists>m'. rfold (\<lambda>(i, lane) mm. rbind (keccak_lane_addr a i) (\<lambda>lane_addr.
       map_err ExecMemoryError (store_doubleword mm lane_addr lane))) (enumerate k ls) m = Inr m'
     \<and> stores m0 a (bs @ concat (map (to_le_bytes 8) ls)) m'"
  using assms
proof (induction ls arbitrary: k m bs)
  case (Cons l ls)
  have k: "k < 25" using Cons.prems(3) by simp
  note ad = keccak_addr [OF Cons.prems(2) k]
  obtain m1 where m1: "store_doubleword m (a + of_nat (8 * k)) l = Inr m1"
      "stores m (a + of_nat (8 * k)) (to_le_bytes 8 l) m1"
    using store_doubleword_eq [OF Cons.prems(1), of "a + of_nat (8 * k)" l] ad(2) by auto
  have s: "stores m0 a (bs @ to_le_bytes 8 l) m1"
    by (rule stores_append [OF Cons.prems(4)]) (use m1(2) Cons.prems in simp_all)
  have "cells_wf m1" using m1(2) by (simp add: stores_def)
  then show ?case
    using Cons.IH [of m1 "Suc k" "bs @ to_le_bytes 8 l"] s Cons.prems m1(1) ad(1) by simp
qed simp

lemma stores_nil: "cells_wf m \<Longrightarrow> stores m a [] m"
  by (simp add: stores_def flat_write_def)

lemma stores_load_sub:
  assumes "stores m a bs m'" "k + j \<le> length bs" "length bs \<le> 2 ^ 64"
  shows "load_seq m' (a + of_nat k) j = take j (drop k bs)"
proof -
  have "load_seq m' a (k + j + (length bs - (k + j))) = bs"
    using stores_load_seq [OF assms(1,3)] assms(2) by simp
  then have "load_seq m' a k @ load_seq m' (a + of_nat k) j
      @ load_seq m' (a + of_nat (k + j)) (length bs - (k + j)) = bs"
    by (simp only: load_seq_append append_assoc)
  then have "take j (drop k (load_seq m' a k @ load_seq m' (a + of_nat k) j
      @ load_seq m' (a + of_nat (k + j)) (length bs - (k + j)))) = take j (drop k bs)" by (simp only:)
  then show ?thesis by simp
qed

lemma length_lane_bytes: "length (concat (map (to_le_bytes 8) ls)) = 8 * length ls"
  by (induction ls) simp_all

lemma lane_bytes_nth:
  "i < length ls \<Longrightarrow> take 8 (drop (8 * i) (concat (map (to_le_bytes 8) ls))) = to_le_bytes 8 (ls ! i)"
proof (induction ls arbitrary: i)
  case (Cons l ls)
  then show ?case by (cases i) simp_all
qed simp

text \<open>C15: the Keccak call. For an aligned state address whose 200 bytes fit the address space the
  call succeeds, and replaces the 25 little-endian lanes at the address by the permutation of the
  lanes it read; no register, no byte outside of the state and no output changes. A misaligned address and a
  state running past the end of the address space are refused with their own errors.\<close>

theorem keccak_call_spec:
  assumes "machine_wf m" "reg_read (regs m) 10 = Inr a"
  shows "(case ecall_keccak m of
      Inl e \<Rightarrow> (a mod 8 \<noteq> 0 \<and> e = UnalignedKeccakStateAddress a)
        \<or> (a mod 8 = 0 \<and> 2 ^ 64 \<le> unat a + 199 \<and> e = KeccakStateAddressOverflow a)
    | Inr (m', v2, d) \<Rightarrow> a mod 8 = 0 \<and> unat a + 199 < 2 ^ 64
        \<and> lanes_at (mem m') a = keccak_f1600 (lanes_at (mem m) a)
        \<and> (\<forall>x. 200 \<le> unat (x - a) \<longrightarrow> load_byte (mem m') x = load_byte (mem m) x)
        \<and> regs m' = regs m \<and> stdout m' = stdout m \<and> public_output (mem m') = public_output (mem m) \<and> v2 = a)"
proof (cases "a mod 8 = 0 \<and> unat a + 199 < 2 ^ 64")
  case False
  then show ?thesis
    using assms(2) by (auto simp: ecall_keccak_def checked_add_def KECCAK_STATE_BYTES_def)
next
  case True
  let ?ls = "keccak_f1600 (lanes_at (mem m) a)"
  let ?bs = "concat (map (to_le_bytes 8) ?ls)"
  have c: "cells_wf (mem m)" using assms(1) by (rule machine_wfD)
  have l: "length ?ls = 25" by (simp add: lanes_at_def)
  have lb: "length ?bs = 200" using length_lane_bytes [of ?ls] l by simp
  obtain mm where mm: "rfold (\<lambda>(i, lane) mm. rbind (keccak_lane_addr a i) (\<lambda>lane_addr.
       map_err ExecMemoryError (store_doubleword mm lane_addr lane))) (enumerate 0 ?ls) (mem m) = Inr mm"
    and st: "stores (mem m) a ?bs mm"
    using keccak_store [OF c _ _ stores_nil [OF c], of a 0 ?ls] True l by auto
  have run: "ecall_keccak m = Inr (m\<lparr>mem := mm\<rparr>, a, 0)"
    using assms(2) True mm
    by (simp add: ecall_keccak_def checked_add_def KECCAK_STATE_BYTES_def keccak_load [OF c])
  have "lanes_at mm a = ?ls"
  proof (rule nth_equalityI)
    fix i assume "i < length (lanes_at mm a)"
    then have i: "i < 25" by (simp add: lanes_at_def)
    have "load_seq mm (a + of_nat (8 * i)) 8 = to_le_bytes 8 (?ls ! i)"
      using stores_load_sub [OF st, of "8 * i" 8] lane_bytes_nth [of i ?ls] i l lb by simp
    then show "lanes_at mm a ! i = ?ls ! i"
      using i by (simp add: lanes_at_def del: of_nat_mult)
  qed (simp add: l lanes_at_def)
  moreover have "load_byte mm x = load_byte (mem m) x" if "200 \<le> unat (x - a)" for x
    using st lb that by (simp add: stores_def flat_write_def)
  moreover have "public_output mm = public_output (mem m)" using st by (simp add: stores_def)
  ultimately show ?thesis using run True by simp
qed

theorem keccak_call_spec_witness:
  "\<exists>m'. ecall_keccak copy_sample = Inl (UnalignedKeccakStateAddress 0x2004)
     \<and> ecall_keccak memset_sample = Inr (m', 0x2008, 0)
     \<and> lanes_at (mem m') 0x2008 = keccak_f1600 (lanes_at (mem memset_sample) 0x2008)"
proof -
  note u = keccak_call_spec [OF copy_sample_wf copy_sample_regs(1)]
  note c = keccak_call_spec [OF memset_sample_regs(1,2)]
  have "\<exists>m' d. ecall_keccak memset_sample = Inr (m', 0x2008, d)
     \<and> lanes_at (mem m') 0x2008 = keccak_f1600 (lanes_at (mem memset_sample) 0x2008)"
    using c by (auto split: sum.splits)
  moreover have "d = 0" if "ecall_keccak m = Inr (m', v2, d)" for m m' v2 d
    using that by (auto simp: ecall_keccak_def result_simps split: if_splits)
  moreover have "ecall_keccak copy_sample = Inl (UnalignedKeccakStateAddress 0x2004)"
    using u by (auto split: sum.splits)
  ultimately show ?thesis by blast
qed

end
