(* ===== verification/Vm_Elf.thy ===== *)
theory Vm_Elf
  imports Vm_Memory
begin

text \<open>
  The ELF loader (\<^verbatim>\<open>executor/src/elf.rs\<close>): the executable header, the program headers and the
  construction of the segments.  File offsets and sizes are \<open>usize\<close>, that is 64-bit, values; the
  length of the input is a natural number.  Besides the errors of the source there is the value
  \<open>ElfPanic\<close> for an out-of-bounds slice, which panics.
\<close>

section \<open>Data\<close>

datatype ElfError =
  Not64Bit | NotRiscV | NotExecutable | InvalidEntryPoint | TooManyProgramHeaders | UnalignedVAddr
  | AddrTooLarge | SegmentInPrivateInputRegion | InvalidOffset | ExecutableHeaderSize
  | InvalidELFMagicNumber | NotLittleEndian | InvalidElfVersion | Casting | ProgramHeaderSize
  | InvalidProgram | ElfPanic

record ExecutableHeader =
  e_ident :: "u8 list"
  e_type :: u16
  e_machine :: u16
  e_version :: u32
  e_entry :: u64
  e_phoff :: u64
  e_shoff :: u64
  e_flags :: u32
  e_ehsize :: u16
  e_phentsize :: u16
  e_phnum :: u16
  e_shentsize :: u16
  e_shnum :: u16
  e_shstrndx :: u16

record ProgramHeader =
  p_type :: u32
  p_flags :: u32
  p_offset :: u64
  p_vaddr :: u64
  p_paddr :: u64
  p_filesz :: u64
  p_memsz :: u64
  p_align :: u64

record ElfProgram =
  ehdr :: ExecutableHeader
  phdrs :: "ProgramHeader list"

record Segment =
  base_addr :: u64
  seg_values :: "u32 list"
  is_executable :: bool

record Elf =
  entry_point :: u64
  elf_data :: "Segment list"

definition EM_RISCV :: u16 where "EM_RISCV = 243"
definition ET_EXEC :: u16 where "ET_EXEC = 2"
definition PT_LOAD :: u32 where "PT_LOAD = 1"
definition PF_X :: u32 where "PF_X = 1"
definition MAX_PROGRAM_HEADERS :: nat where "MAX_PROGRAM_HEADERS = 256"
definition EXECUTABLE_HEADER_SIZE :: nat where "EXECUTABLE_HEADER_SIZE = 64"
definition PROGRAM_HEADER_SIZE :: nat where "PROGRAM_HEADER_SIZE = 56"
definition WORD_SIZE :: u64 where "WORD_SIZE = 4"

section \<open>Parsing the headers\<close>

text \<open>The bytes \<open>a..b\<close> of the input as a little-endian integer.\<close>

definition le_field :: "u8 list \<Rightarrow> nat \<Rightarrow> nat \<Rightarrow> 'a::len word" where
  "le_field input a b = from_le_bytes (take (b - a) (drop a input))"

definition parse_ehdr :: "u8 list \<Rightarrow> (ElfError, ExecutableHeader) result" where
  "parse_ehdr input =
     (if length input < EXECUTABLE_HEADER_SIZE then Inl ExecutableHeaderSize
      else
        (let ident = take 16 input
         in if ident ! 0 \<noteq> 0x7F \<or> ident ! 1 \<noteq> 0x45 \<or> ident ! 2 \<noteq> 0x4C \<or> ident ! 3 \<noteq> 0x46
            then Inl InvalidELFMagicNumber
            else if ident ! 4 \<noteq> 2 then Inl Not64Bit
            else if ident ! 5 \<noteq> 1 then Inl NotLittleEndian
            else if ident ! 6 \<noteq> 1 then Inl InvalidElfVersion
            else
              Inr \<lparr>e_ident = ident,
                e_type = le_field input 16 18, e_machine = le_field input 18 20,
                e_version = le_field input 20 24, e_entry = le_field input 24 32,
                e_phoff = le_field input 32 40, e_shoff = le_field input 40 48,
                e_flags = le_field input 48 52, e_ehsize = le_field input 52 54,
                e_phentsize = le_field input 54 56, e_phnum = le_field input 56 58,
                e_shentsize = le_field input 58 60, e_shnum = le_field input 60 62,
                e_shstrndx = le_field input 62 64\<rparr>))"

definition parse_phdr :: "u8 list \<Rightarrow> (ElfError, ProgramHeader) result" where
  "parse_phdr input =
     (if length input < PROGRAM_HEADER_SIZE then Inl ProgramHeaderSize
      else
        Inr \<lparr>p_type = le_field input 0 4, p_flags = le_field input 4 8,
          p_offset = le_field input 8 16, p_vaddr = le_field input 16 24,
          p_paddr = le_field input 24 32, p_filesz = le_field input 32 40,
          p_memsz = le_field input 40 48, p_align = le_field input 48 56\<rparr>)"

text \<open>Entry \<open>i\<close> of the program header table: the offset arithmetic is checked, the slice is not.\<close>

definition parse_phdr_at :: "u8 list \<Rightarrow> u64 \<Rightarrow> u64 \<Rightarrow> nat \<Rightarrow> (ElfError, ProgramHeader) result" where
  "parse_phdr_at input phoff phentsize i =
     rbind (ok_or InvalidProgram (checked_mul (of_nat i) phentsize)) (\<lambda>d.
     rbind (ok_or InvalidProgram (checked_add phoff d)) (\<lambda>offset.
     rbind (ok_or InvalidProgram (checked_add offset phentsize)) (\<lambda>e.
     if length input < unat e then Inl ElfPanic
     else parse_phdr (take (unat e - unat offset) (drop (unat offset) input)))))"

definition parse_phdrs :: "u8 list \<Rightarrow> ExecutableHeader \<Rightarrow> (ElfError, ProgramHeader list) result" where
  "parse_phdrs input eh =
     rcollect (parse_phdr_at input (e_phoff eh) (ucast (e_phentsize eh))) [0..<unat (e_phnum eh)]"

definition parse_elf :: "u8 list \<Rightarrow> (ElfError, ElfProgram) result" where
  "parse_elf input =
     rbind (parse_ehdr input) (\<lambda>eh.
     rbind (parse_phdrs input eh) (\<lambda>phs.
     Inr \<lparr>ehdr = eh, phdrs = phs\<rparr>))"

section \<open>Loading the segments\<close>

text \<open>One word of a segment, at the offset \<open>i\<close> from its start.\<close>

definition read_word :: "u8 list \<Rightarrow> ProgramHeader \<Rightarrow> u64 \<Rightarrow> (ElfError, u32) result" where
  "read_word input ph i =
     (if i < p_filesz ph then
        (let remaining = p_filesz ph - i; len = min remaining WORD_SIZE
         in rfold (\<lambda>j word.
              rbind (ok_or InvalidOffset (Option.bind (checked_add (p_offset ph) i)
                       (\<lambda>off. checked_add off (of_nat j)))) (\<lambda>offset.
              rbind (ok_or InvalidOffset (if unat offset < length input then Some (input ! unat offset)
                       else None)) (\<lambda>byte.
              Inr (word OR push_bit (8 * j) (ucast byte)))))
              [0..<unat len] 0)
      else Inr 0)"

definition segment_offsets :: "u64 \<Rightarrow> u64 list" where
  "segment_offsets memsz = map (\<lambda>k. of_nat (4 * k)) [0..<(unat memsz + 3) div 4]"

definition load_segment :: "u8 list \<Rightarrow> ProgramHeader \<Rightarrow> (ElfError, Segment option) result" where
  "load_segment input ph =
     (if p_vaddr ph mod WORD_SIZE \<noteq> 0 then Inl UnalignedVAddr
      else
        rbind (if 0 < p_memsz ph then
                 rbind (ok_or AddrTooLarge (checked_add (p_vaddr ph) (p_memsz ph))) (\<lambda>seg_end.
                 if PRIVATE_INPUT_START_INDEX < seg_end then Inl SegmentInPrivateInputRegion
                 else Inr ())
               else Inr ()) (\<lambda>_.
        rbind (rcollect (read_word input ph) (segment_offsets (p_memsz ph))) (\<lambda>values.
        if values \<noteq> [] then
          Inr (Some \<lparr>base_addr = p_vaddr ph, seg_values = values,
                     is_executable = ((p_flags ph AND PF_X) \<noteq> 0)\<rparr>)
        else Inr None)))"

definition load_segments :: "u8 list \<Rightarrow> ProgramHeader list \<Rightarrow> (ElfError, Segment list) result" where
  "load_segments input phs =
     rfold (\<lambda>ph segs. rbind (load_segment input ph) (\<lambda>s.
              Inr (case s of Some seg \<Rightarrow> segs @ [seg] | None \<Rightarrow> segs)))
       (filter (\<lambda>ph. p_type ph = PT_LOAD) phs) []"

definition elf_load :: "u8 list \<Rightarrow> (ElfError, Elf) result" where
  "elf_load input =
     rbind (parse_elf input) (\<lambda>prog.
     if e_machine (ehdr prog) \<noteq> EM_RISCV then Inl NotRiscV
     else if e_type (ehdr prog) \<noteq> ET_EXEC then Inl NotExecutable
     else if e_entry (ehdr prog) mod WORD_SIZE \<noteq> 0 then Inl InvalidEntryPoint
     else if MAX_PROGRAM_HEADERS < length (phdrs prog) then Inl TooManyProgramHeaders
     else
       rbind (load_segments input (phdrs prog)) (\<lambda>segments.
       Inr \<lparr>entry_point = e_entry (ehdr prog), elf_data = sort_key base_addr segments\<rparr>))"

section \<open>The contents of a word\<close>

lemma from_le_bytes_snoc:
  "(from_le_bytes (bs @ [b]) :: 'a::len word) = from_le_bytes bs OR push_bit (8 * length bs) (ucast b)"
  by (simp add: from_le_bytes_append)

text \<open>The byte loop of a word succeeds exactly when its bytes are in the file.\<close>

lemma word_loop:
  fixes off i :: u64
  assumes "n \<le> 4"
  shows "rfold (\<lambda>j word.
      rbind (ok_or InvalidOffset (Option.bind (checked_add off i) (\<lambda>c. checked_add c (of_nat j)))) (\<lambda>offset.
      rbind (ok_or InvalidOffset (if unat offset < length input then Some (input ! unat offset)
               else None)) (\<lambda>byte.
      Inr (word OR push_bit (8 * j) (ucast byte))))) [0..<n] 0 = Inr (w :: u32)
    \<longleftrightarrow> (\<forall>j<n. unat off + unat i + j < min (2 ^ 64) (length input))
      \<and> w = from_le_bytes (map (\<lambda>j. input ! (unat off + unat i + j)) [0..<n])"
  using assms
proof (induction n arbitrary: w)
  case 0
  then show ?case by auto
next
  case (Suc n)
  have n: "unat (of_nat n :: u64) = n" using Suc.prems by (simp add: unat_of_nat_less)
  have oo: "Option.bind (checked_add off i) (\<lambda>c. checked_add c (of_nat n)) =
      (if unat off + unat i + n < 2 ^ 64 then Some (off + i + of_nat n) else None)"
    by (auto simp: checked_add_def n unat_add_no_overflow)
  have u: "unat (off + i + of_nat n) = unat off + unat i + n" if "unat off + unat i + n < 2 ^ 64"
    using that n by (simp add: unat_add_no_overflow)
  show ?case
    using Suc by (auto simp: rfold_append result_simps oo u from_le_bytes_snoc less_Suc_eq
        simp del: min_less_iff_conj split: if_splits)
qed

lemma read_word_Inr:
  assumes "read_word input ph i = Inr w"
  shows "if i < p_filesz ph
    then (let n = min (unat (p_filesz ph) - unat i) 4
          in (\<forall>j<n. unat (p_offset ph) + unat i + j < length input)
             \<and> w = from_le_bytes (map (\<lambda>j. input ! (unat (p_offset ph) + unat i + j)) [0..<n]))
    else w = 0"
proof (cases "i < p_filesz ph")
  case True
  then have "unat (p_filesz ph - i) = unat (p_filesz ph) - unat i"
    by (simp add: unat_sub word_le_nat_alt word_less_nat_alt)
  then have n: "unat (min (p_filesz ph - i) WORD_SIZE) = min (unat (p_filesz ph) - unat i) 4"
    by (simp add: min_def word_le_nat_alt WORD_SIZE_def)
  have le: "min (unat (p_filesz ph) - unat i) 4 \<le> 4" by simp
  from assms True show ?thesis
    unfolding read_word_def Let_def n by (simp only: if_True word_loop [OF le]) auto
next
  case False
  then show ?thesis using assms by (simp add: read_word_def)
qed

lemma from_le_bytes_byte:
  assumes "length bs \<le> 4" "j < 4"
  shows "to_le_bytes 4 (from_le_bytes bs :: u32) ! j = (if j < length bs then bs ! j else 0)"
proof (rule bit_word_eqI)
  fix k assume "k < LENGTH(8)"
  then have k: "k < 8" by simp
  then have "(8 * j + k) div 8 = j" "(8 * j + k) mod 8 = k" by simp_all
  then show "bit (to_le_bytes 4 (from_le_bytes bs :: u32) ! j) k = bit (if j < length bs then bs ! j else 0) k"
    using assms k by (simp add: nth_to_le_bytes bit_from_le_bytes bit_simps)
qed

text \<open>Byte \<open>k\<close> of the memory image of a segment.\<close>

definition segment_byte :: "Segment \<Rightarrow> nat \<Rightarrow> u8" where
  "segment_byte s k = to_le_bytes 4 (seg_values s ! (k div 4)) ! (k mod 4)"

lemma segment_offsets_nth:
  "i < (unat memsz + 3) div 4 \<Longrightarrow> unat memsz + 3 < 2 ^ 64 \<Longrightarrow> unat (segment_offsets memsz ! i) = 4 * i"
  using unat_of_nat_less [of "4 * i", where 'a = 64] by (simp add: segment_offsets_def)

lemma length_segment_offsets [simp]: "length (segment_offsets memsz) = (unat memsz + 3) div 4"
  by (simp add: segment_offsets_def)

definition segment_wf :: "Segment \<Rightarrow> bool" where
  "segment_wf s \<longleftrightarrow> unat (base_addr s) mod 4 = 0 \<and> seg_values s \<noteq> []
     \<and> unat (base_addr s) + 4 * length (seg_values s) \<le> unat PRIVATE_INPUT_START_INDEX"

lemma round_up_bound: "v mod 4 = 0 \<Longrightarrow> v + k \<le> 4 * c \<Longrightarrow> v + 4 * ((k + 3) div 4) \<le> 4 * (c :: nat)"
  by presburger

lemma load_segment_SomeD:
  assumes "load_segment input ph = Inr (Some s)"
  shows "segment_wf s \<and> base_addr s = p_vaddr ph
    \<and> length (seg_values s) = (unat (p_memsz ph) + 3) div 4
    \<and> is_executable s = bit (p_flags ph) 0
    \<and> (\<forall>k < 4 * length (seg_values s).
         (k < unat (p_filesz ph) \<longrightarrow> unat (p_offset ph) + k < length input)
         \<and> segment_byte s k = (if k < unat (p_filesz ph) then input ! (unat (p_offset ph) + k) else 0))"
proof -
  have v: "unat (p_vaddr ph) mod 4 = 0"
    using assms by (auto simp: load_segment_def WORD_SIZE_def mod4_unat split: if_splits)
  obtain vs where vs: "rcollect (read_word input ph) (segment_offsets (p_memsz ph)) = Inr vs"
    and s: "s = \<lparr>base_addr = p_vaddr ph, seg_values = vs, is_executable = ((p_flags ph AND PF_X) \<noteq> 0)\<rparr>"
    and ne: "vs \<noteq> []"
    using assms by (auto simp: load_segment_def result_simps split: if_splits)
  have len: "length vs = (unat (p_memsz ph) + 3) div 4" using rcollect_length [OF vs] by simp
  have "0 < p_memsz ph" using ne len by (auto simp: word_neq_0_conv [symmetric])
  then have e: "unat (p_vaddr ph) + unat (p_memsz ph) \<le> unat PRIVATE_INPUT_START_INDEX"
    using assms by (auto simp: load_segment_def result_simps not_less word_le_nat_alt
        unat_add_no_overflow split: if_splits)
  have mem: "unat (p_memsz ph) + 3 < 2 ^ 64" using e by (simp add: PRIVATE_INPUT_START_INDEX_def)
  have b: "unat (p_vaddr ph) + 4 * ((unat (p_memsz ph) + 3) div 4) \<le> unat PRIVATE_INPUT_START_INDEX"
    using round_up_bound [OF v, of "unat (p_memsz ph)" "0x3FC00000"] e
    by (simp add: PRIVATE_INPUT_START_INDEX_def)
  have byte: "(k < unat (p_filesz ph) \<longrightarrow> unat (p_offset ph) + k < length input)
      \<and> segment_byte s k = (if k < unat (p_filesz ph) then input ! (unat (p_offset ph) + k) else 0)"
    if "k < 4 * length vs" for k
  proof -
    let ?i = "segment_offsets (p_memsz ph) ! (k div 4)"
    have d: "k div 4 < length vs" using that by linarith
    then have i: "unat ?i = 4 * (k div 4)" using segment_offsets_nth mem len by simp
    have w: "read_word input ph ?i = Inr (vs ! (k div 4))"
      using rcollect_nth [OF vs, of "k div 4"] d len by simp
    show ?thesis
    proof (cases "?i < p_filesz ph")
      case True
      let ?n = "min (unat (p_filesz ph) - unat ?i) 4"
      have "\<forall>j<?n. unat (p_offset ph) + unat ?i + j < length input"
        "vs ! (k div 4) = from_le_bytes (map (\<lambda>j. input ! (unat (p_offset ph) + unat ?i + j)) [0..<?n])"
        using read_word_Inr [OF w] True by (simp_all add: Let_def)
      moreover have "k mod 4 < ?n \<longleftrightarrow> k < unat (p_filesz ph)"
        using i by (auto simp: min_def) presburger+
      moreover have "unat ?i + k mod 4 = k" using i by simp
      ultimately show ?thesis
        by (auto simp: segment_byte_def s from_le_bytes_byte add.assoc)
    next
      case False
      then have "unat (p_filesz ph) \<le> 4 * (k div 4)" by (simp add: not_less word_le_nat_alt i)
      then have "\<not> k < unat (p_filesz ph)" by (meson le_trans not_less times_div_less_eq_dividend)
      then show ?thesis
        using read_word_Inr [OF w] False by (simp add: segment_byte_def s nth_to_le_bytes)
    qed
  qed
  have "(p_flags ph AND PF_X) \<noteq> 0 \<longleftrightarrow> bit (p_flags ph) 0"
    using and_exp_eq_0_iff_not_bit [of "p_flags ph" 0] by (simp add: PF_X_def)
  then show ?thesis using v b ne len byte by (simp add: s segment_wf_def)
qed

section \<open>The loaded program\<close>

lemma load_segments_from:
  assumes "rfold (\<lambda>ph segs. rbind (load_segment input ph) (\<lambda>s.
              Inr (case s of Some seg \<Rightarrow> segs @ [seg] | None \<Rightarrow> segs))) phs acc = Inr segs"
  shows "s \<in> set segs \<Longrightarrow> s \<in> set acc \<or> (\<exists>ph\<in>set phs. load_segment input ph = Inr (Some s))"
  using assms
proof (induction phs arbitrary: acc)
  case (Cons ph phs)
  from Cons.prems(2) obtain r where r: "load_segment input ph = Inr r"
    and rest: "rfold (\<lambda>ph segs. rbind (load_segment input ph) (\<lambda>s.
              Inr (case s of Some seg \<Rightarrow> segs @ [seg] | None \<Rightarrow> segs))) phs
        (case r of Some seg \<Rightarrow> acc @ [seg] | None \<Rightarrow> acc) = Inr segs"
    by (auto simp: result_simps)
  show ?case using Cons.IH [OF Cons.prems(1) rest] r by (auto split: option.splits)
qed simp

lemma elf_load_Inr:
  assumes "elf_load input = Inr elf"
  shows "\<exists>prog segs. parse_elf input = Inr prog \<and> load_segments input (phdrs prog) = Inr segs
    \<and> e_entry (ehdr prog) mod WORD_SIZE = 0 \<and> entry_point elf = e_entry (ehdr prog)
    \<and> elf_data elf = sort_key base_addr segs"
  using assms by (auto simp: elf_load_def result_simps split: if_splits del: mod_0_imp_dvd)

lemma elf_load_segment:
  assumes "elf_load input = Inr elf" "s \<in> set (elf_data elf)"
  shows "\<exists>prog ph. parse_elf input = Inr prog \<and> ph \<in> set (phdrs prog) \<and> p_type ph = PT_LOAD
    \<and> load_segment input ph = Inr (Some s)"
proof -
  obtain prog segs where p: "parse_elf input = Inr prog" "load_segments input (phdrs prog) = Inr segs"
    "elf_data elf = sort_key base_addr segs"
    using elf_load_Inr [OF assms(1)] by metis
  have "s \<in> set segs" using assms(2) p(3) by simp
  from load_segments_from [OF p(2) [unfolded load_segments_def] this]
  show ?thesis using p(1) by auto
qed

definition elf_wf :: "Elf \<Rightarrow> bool" where
  "elf_wf elf \<longleftrightarrow> unat (entry_point elf) mod 4 = 0 \<and> sorted (map base_addr (elf_data elf))
     \<and> list_all segment_wf (elf_data elf)"

lemma elf_load_elf_wf: "elf_load input = Inr elf \<Longrightarrow> elf_wf elf"
proof -
  assume l: "elf_load input = Inr elf"
  then obtain prog :: ElfProgram and segs where p: "e_entry (ehdr prog) mod WORD_SIZE = 0"
    "entry_point elf = e_entry (ehdr prog)" "elf_data elf = sort_key base_addr segs"
    using elf_load_Inr [OF l] by metis
  have "segment_wf s" if "s \<in> set (elf_data elf)" for s
    using elf_load_segment [OF l that] load_segment_SomeD by blast
  moreover have "e_entry (ehdr prog) mod 4 = 0" using p(1) by (simp add: WORD_SIZE_def)
  ultimately show ?thesis
    using p mod4_unat [of "e_entry (ehdr prog)"] by (simp add: elf_wf_def list_all_iff)
qed

text \<open>A minimal program: one executable segment of two instructions at \<open>0x1000\<close>.\<close>

definition sample_ehdr :: "u8 list" where
  "sample_ehdr =
   [0x7F, 0x45, 0x4C, 0x46, 2, 1, 1, 0, 0, 0, 0, 0, 0, 0, 0, 0, 2, 0, 243, 0, 1, 0, 0, 0,
    0, 0x10, 0, 0, 0, 0, 0, 0, 64, 0, 0, 0, 0, 0, 0, 0, 0, 0, 0, 0, 0, 0, 0, 0, 0, 0, 0, 0, 64, 0,
    56, 0, 1, 0, 0, 0, 0, 0, 0, 0]"

definition sample_elf :: "u8 list" where
  "sample_elf = sample_ehdr @
   [1, 0, 0, 0, 5, 0, 0, 0, 120, 0, 0, 0, 0, 0, 0, 0, 0, 0x10, 0, 0, 0, 0, 0, 0, 0, 0x10, 0, 0, 0, 0, 0, 0,
    6, 0, 0, 0, 0, 0, 0, 0, 8, 0, 0, 0, 0, 0, 0, 0, 4, 0, 0, 0, 0, 0, 0, 0,
    0x13, 0, 0x10, 0, 0x73, 0]"

lemma sample_ehdr_parse:
  "\<exists>eh. parse_ehdr (sample_ehdr @ rest) = Inr eh \<and> e_phoff eh = 64 \<and> e_phentsize eh = 56
     \<and> e_phnum eh = 1 \<and> e_machine eh = EM_RISCV \<and> e_type eh = ET_EXEC \<and> e_entry eh = 0x1000"
  by (simp add: parse_ehdr_def sample_ehdr_def EXECUTABLE_HEADER_SIZE_def le_field_def Let_def
      EM_RISCV_def ET_EXEC_def)

lemma sample_phdr_parse:
  "\<exists>ph. parse_phdr_at sample_elf 64 56 0 = Inr ph \<and> p_type ph = PT_LOAD \<and> p_flags ph = 5
     \<and> p_offset ph = 120 \<and> p_vaddr ph = 0x1000 \<and> p_filesz ph = 6 \<and> p_memsz ph = 8"
  by (simp add: parse_phdr_at_def parse_phdr_def sample_elf_def sample_ehdr_def PROGRAM_HEADER_SIZE_def
      le_field_def checked_add_def checked_mul_def PT_LOAD_def)

lemma sample_elf_load:
  "elf_load sample_elf = Inr \<lparr>entry_point = 0x1000, elf_data =
     [\<lparr>base_addr = 0x1000, seg_values = [0x00100013, 0x73], is_executable = True\<rparr>]\<rparr>"
proof -
  obtain eh where eh: "parse_ehdr sample_elf = Inr eh" "e_phoff eh = 64" "e_phentsize eh = 56"
    "e_phnum eh = 1" "e_machine eh = EM_RISCV" "e_type eh = ET_EXEC" "e_entry eh = 0x1000"
    using sample_ehdr_parse unfolding sample_elf_def by blast
  obtain ph where ph: "parse_phdr_at sample_elf 64 56 0 = Inr ph" "p_type ph = PT_LOAD" "p_flags ph = 5"
     "p_offset ph = 120" "p_vaddr ph = 0x1000" "p_filesz ph = 6" "p_memsz ph = 8"
    using sample_phdr_parse by blast
  have o: "segment_offsets 8 = [0, 4]"
    by (simp add: segment_offsets_def upt_rec)
  have "parse_elf sample_elf = Inr \<lparr>ehdr = eh, phdrs = [ph]\<rparr>"
    using eh ph(1) by (simp add: parse_elf_def parse_phdrs_def)
  moreover have "read_word sample_elf ph 0 = Inr 0x00100013" "read_word sample_elf ph 4 = Inr 0x73"
    using ph by (simp_all add: read_word_def WORD_SIZE_def min_def Let_def checked_add_def
        sample_elf_def sample_ehdr_def upt_rec)
  ultimately show ?thesis
    using eh ph o by (simp add: elf_load_def load_segments_def load_segment_def WORD_SIZE_def
        MAX_PROGRAM_HEADERS_def checked_add_def PRIVATE_INPUT_START_INDEX_def PF_X_def)
qed

text \<open>C16: a loaded program is well-formed. The entry point is word-aligned, the segments are sorted
  by address, each is non-empty and word-aligned and lies entirely below the private-input
  region, and each comes from a loadable program header: byte \<open>k\<close> of its memory image is byte
  \<open>k\<close> of the file part of the header where the file part reaches, and zero beyond it.\<close>

theorem elf_load_spec:
  assumes "elf_load input = Inr elf"
  shows "elf_wf elf
    \<and> list_all (\<lambda>s. \<exists>prog ph. parse_elf input = Inr prog \<and> ph \<in> set (phdrs prog)
         \<and> p_type ph = PT_LOAD \<and> base_addr s = p_vaddr ph
         \<and> length (seg_values s) = (unat (p_memsz ph) + 3) div 4
         \<and> is_executable s = bit (p_flags ph) 0
         \<and> (\<forall>k < 4 * length (seg_values s). segment_byte s k =
              (if k < unat (p_filesz ph) then input ! (unat (p_offset ph) + k) else 0)))
       (elf_data elf)"
proof -
  have "\<exists>prog ph. parse_elf input = Inr prog \<and> ph \<in> set (phdrs prog)
         \<and> p_type ph = PT_LOAD \<and> base_addr s = p_vaddr ph
         \<and> length (seg_values s) = (unat (p_memsz ph) + 3) div 4
         \<and> is_executable s = bit (p_flags ph) 0
         \<and> (\<forall>k < 4 * length (seg_values s). segment_byte s k =
              (if k < unat (p_filesz ph) then input ! (unat (p_offset ph) + k) else 0))"
    if "s \<in> set (elf_data elf)" for s
    using elf_load_segment [OF assms that] load_segment_SomeD by blast
  then show ?thesis using elf_load_elf_wf [OF assms] by (simp add: list_all_iff)
qed

theorem elf_load_spec_witness:
  "elf_wf \<lparr>entry_point = 0x1000, elf_data =
     [\<lparr>base_addr = 0x1000, seg_values = [0x00100013, 0x73], is_executable = True\<rparr>]\<rparr>"
  using elf_load_spec [OF sample_elf_load] by simp

section \<open>The program header table\<close>

lemma parse_phdr_at_eq:
  fixes phoff :: u64 and sz :: u16
  assumes "i < 2 ^ 16"
  defines "e \<equiv> unat phoff + (i + 1) * unat sz"
  shows "parse_phdr_at input phoff (ucast sz) i =
    (if 2 ^ 64 \<le> e then Inl InvalidProgram
     else if length input < e then Inl ElfPanic
     else parse_phdr (take (unat sz) (drop (unat phoff + i * unat sz) input)))"
proof -
  have sz: "unat (ucast sz :: u64) = unat sz"
    using unat_lt2p [of sz] by (simp add: unsigned_ucast_eq take_bit_nat_eq_self)
  have i: "unat (of_nat i :: u64) = i" using assms(1) by (simp add: unat_of_nat_less)
  have "i * unat sz < 2 ^ 16 * 2 ^ 16" using assms(1) unat_lt2p [of sz] by (intro mult_strict_mono) simp_all
  then have m: "i * unat sz < 2 ^ 64" by simp
  then have d: "unat (of_nat i * ucast sz :: u64) = i * unat sz" by (simp add: unat_word_ariths i sz)
  have e: "e = unat phoff + i * unat sz + unat sz" by (simp add: e_def)
  show ?thesis
  proof (cases "unat phoff + i * unat sz < 2 ^ 64")
    case False
    then show ?thesis using m by (simp add: parse_phdr_at_def checked_mul_def checked_add_def i sz d e)
  next
    case True
    then have o: "unat (phoff + of_nat i * ucast sz) = unat phoff + i * unat sz" by (simp add: unat_add_no_overflow d)
    have "unat (phoff + of_nat i * ucast sz + ucast sz) = e" if "e < 2 ^ 64"
      using that unat_add_no_overflow [of "phoff + of_nat i * ucast sz" "ucast sz"] by (simp add: o sz e)
    then show ?thesis using m True by (auto simp: parse_phdr_at_def checked_mul_def checked_add_def i sz d o e not_less)
  qed
qed

lemma phdrs_panic:
  fixes phoff :: u64 and sz n :: u16
  shows "rcollect (parse_phdr_at input phoff (ucast sz)) [0..<unat n] = Inl ElfPanic \<longleftrightarrow>
      (\<exists>i<unat n. length input < unat phoff + (i + 1) * unat sz \<and> unat phoff + (i + 1) * unat sz < 2 ^ 64
        \<and> (i = 0 \<or> 56 \<le> unat sz \<and> unat phoff + i * unat sz \<le> length input))"
proof -
  let ?e = "\<lambda>i. unat phoff + (i + 1) * unat sz" and ?f = "parse_phdr_at input phoff (ucast sz)"
  have b: "i < 2 ^ 16" if "i < unat n" for i using that unat_lt2p [of n] by simp
  have panic: "?f i = Inl ElfPanic \<longleftrightarrow> length input < ?e i \<and> ?e i < 2 ^ 64" if "i < unat n" for i
    unfolding parse_phdr_at_eq [OF b [OF that]] by (auto simp: parse_phdr_def)
  have ok: "(\<exists>y. ?f j = Inr y) \<longleftrightarrow> ?e j < 2 ^ 64 \<and> ?e j \<le> length input \<and> 56 \<le> unat sz" if "j < unat n" for j
    unfolding parse_phdr_at_eq [OF b [OF that]] by (auto simp: parse_phdr_def PROGRAM_HEADER_SIZE_def)
  have before: "(\<forall>j<i. \<exists>y. ?f j = Inr y) \<longleftrightarrow> i = 0 \<or> 56 \<le> unat sz \<and> unat phoff + i * unat sz \<le> length input"
    if "i < unat n" "?e i < 2 ^ 64" for i
  proof -
    have mono: "?e j \<le> unat phoff + i * unat sz" if "j < i" for j using that mult_le_mono1 [of "j + 1" i "unat sz"] by simp
    have "(\<forall>j<i. \<exists>y. ?f j = Inr y) \<longleftrightarrow> (\<forall>j<i. ?e j < 2 ^ 64 \<and> ?e j \<le> length input \<and> 56 \<le> unat sz)"
      using ok that(1) by (meson order.strict_trans)
    also have "\<dots> \<longleftrightarrow> i = 0 \<or> 56 \<le> unat sz \<and> unat phoff + i * unat sz \<le> length input"
    proof (cases i)
      case (Suc k)
      have lt: "?e j < 2 ^ 64" if "j < i" for j using mono [OF that] \<open>?e i < 2 ^ 64\<close> by simp
      have "?e k = unat phoff + i * unat sz" "k < i" using Suc by simp_all
      note k = this
      show ?thesis
      proof
        assume "\<forall>j<i. ?e j < 2 ^ 64 \<and> ?e j \<le> length input \<and> 56 \<le> unat sz"
        then have "?e k \<le> length input \<and> 56 \<le> unat sz" using k(2) by blast
        then show "i = 0 \<or> 56 \<le> unat sz \<and> unat phoff + i * unat sz \<le> length input" unfolding k(1) by blast
      next
        assume "i = 0 \<or> 56 \<le> unat sz \<and> unat phoff + i * unat sz \<le> length input"
        then have h: "56 \<le> unat sz" "unat phoff + i * unat sz \<le> length input" using Suc by blast+
        show "\<forall>j<i. ?e j < 2 ^ 64 \<and> ?e j \<le> length input \<and> 56 \<le> unat sz"
          by (intro allI impI conjI lt h(1) order_trans [OF mono h(2)])
      qed
    qed simp
    finally show ?thesis .
  qed
  have "rcollect ?f [0..<unat n] = Inl ElfPanic \<longleftrightarrow> (\<exists>i<unat n. ?f i = Inl ElfPanic \<and> (\<forall>j<i. \<exists>y. ?f j = Inr y))"
    unfolding rcollect_error by (auto cong: conj_cong intro!: exI)
  also have "\<dots> \<longleftrightarrow> (\<exists>i<unat n. length input < ?e i \<and> ?e i < 2 ^ 64
        \<and> (i = 0 \<or> 56 \<le> unat sz \<and> unat phoff + i * unat sz \<le> length input))" using panic before by blast
  finally show ?thesis .
qed

lemma load_segments_no_panic: "load_segments input phs \<noteq> Inl ElfPanic"
proof
  have w: "read_word input ph i \<noteq> Inl ElfPanic" for ph i
    by (auto simp: read_word_def Let_def elim!: rfold_error simp: result_simps)
  have "load_segment input ph \<noteq> Inl ElfPanic" for ph
    using w by (auto simp: load_segment_def result_simps rcollect_error split: if_splits)
  moreover assume "load_segments input phs = Inl ElfPanic"
  ultimately show False unfolding load_segments_def by (auto elim!: rfold_error simp: result_simps split: option.splits)
qed

lemma elf_load_panics: "elf_load input = Inl ElfPanic \<longleftrightarrow> (\<exists>eh. parse_ehdr input = Inr eh \<and> parse_phdrs input eh = Inl ElfPanic)"
proof -
  have "parse_ehdr input \<noteq> Inl ElfPanic" by (auto simp: parse_ehdr_def Let_def)
  then show ?thesis using load_segments_no_panic by (auto simp: elf_load_def parse_elf_def result_simps split: if_splits)
qed

text \<open>C17: exactly when the loader panics. The slice of a program header is not bounds checked:
  the loader panics, instead of returning an error, exactly for the files with a valid executable
  header and a program header \<open>i\<close> whose end lies past the end of the file (and below the end of the
  address space), where \<open>i\<close> is the first one, or the header size is at least 56 and all the
  earlier ones lie within the file.  Nothing else in the file makes it panic.\<close>

theorem truncated_phdrs_panic:
  "elf_load input = Inl ElfPanic \<longleftrightarrow>
     (\<exists>eh i. parse_ehdr input = Inr eh \<and> i < unat (e_phnum eh)
        \<and> length input < unat (e_phoff eh) + (i + 1) * unat (e_phentsize eh)
        \<and> unat (e_phoff eh) + (i + 1) * unat (e_phentsize eh) < 2 ^ 64
        \<and> (i = 0 \<or> 56 \<le> unat (e_phentsize eh) \<and> unat (e_phoff eh) + i * unat (e_phentsize eh) \<le> length input))"
proof -
  have "parse_phdrs input eh = Inl ElfPanic \<longleftrightarrow>
      (\<exists>i<unat (e_phnum eh). length input < unat (e_phoff eh) + (i + 1) * unat (e_phentsize eh)
        \<and> unat (e_phoff eh) + (i + 1) * unat (e_phentsize eh) < 2 ^ 64
        \<and> (i = 0 \<or> 56 \<le> unat (e_phentsize eh) \<and> unat (e_phoff eh) + i * unat (e_phentsize eh) \<le> length input))" for eh
    unfolding parse_phdrs_def by (rule phdrs_panic)
  then show ?thesis unfolding elf_load_panics by blast
qed

theorem truncated_phdrs_panic_witness: "elf_load sample_ehdr = Inl ElfPanic"
proof -
  obtain eh where eh: "parse_ehdr sample_ehdr = Inr eh" "e_phoff eh = 64" "e_phentsize eh = 56" "e_phnum eh = 1"
    using sample_ehdr_parse [of "[]"] by auto
  have "length sample_ehdr = 64" by (simp add: sample_ehdr_def)
  then show ?thesis unfolding truncated_phdrs_panic using eh by (intro exI [of _ eh] exI [of _ 0]) simp
qed

end
