(* ===== verification/Vm_Executor.thy ===== *)
theory Vm_Executor
  imports Vm_Execution Vm_Elf
begin

text \<open>
  The executor (\<^verbatim>\<open>executor/src/vm/execution.rs\<close>): the cache of decoded instructions, the loading of
  a program, and the loops that run it in chunks and in epochs.  A loop that runs until the program
  halts is a partial function with the value \<open>None\<close> when it does not return; the chunk loop is
  total, because it is bounded by the number of logs.
\<close>

section \<open>Data\<close>

text \<open>\<open>ExecutorPanic\<close> stands for the panic of a failed assertion.\<close>

datatype ExecutorError =
  ErrInstruction InstructionError
  | ErrExecution ExecutionError
  | ErrMemory MemoryError
  | InstructionAddressMisaligned u64
  | ExecutorPanic

record InstructionSegment =
  iseg_base :: u64
  iseg_instructions :: "Instruction list"

type_synonym InstructionCache = "InstructionSegment list"

record Executor =
  ex_machine :: machine
  ex_pc :: u64
  ex_instructions :: InstructionCache
  ex_logs :: "log list"

record ReturnValues =
  memory_values :: "u8 list"
  register_values :: "u64 \<times> u64"

record ExecutionResult =
  return_values :: ReturnValues
  result_logs :: "log list"
  result_instructions :: "u64 \<rightharpoonup> Instruction"

record EpochExecution =
  epoch_logs :: "log list"
  end_pc :: u64
  end_registers :: registers
  end_memory :: memory

definition CHUNK_SIZE :: nat where "CHUNK_SIZE = 100000"

section \<open>The instruction cache\<close>

definition end_addr :: "InstructionSegment \<Rightarrow> u64" where
  "end_addr s = iseg_base s + of_nat (length (iseg_instructions s)) * 4"

definition cache_new :: "Segment list \<Rightarrow> (InstructionError, InstructionCache) result" where
  "cache_new segments =
     rcollect (\<lambda>seg. rbind (rcollect parse (seg_values seg)) (\<lambda>instructions.
         Inr \<lparr>iseg_base = base_addr seg, iseg_instructions = instructions\<rparr>))
       (filter is_executable segments)"

text \<open>The loop of \<open>from_map\<close> over the entries after the first: the segments so far, and the base
  and the instructions of the current one.\<close>

fun group_entries ::
  "(u64 \<times> Instruction) list \<Rightarrow> InstructionCache \<Rightarrow> u64 \<Rightarrow> Instruction list \<Rightarrow> InstructionCache" where
  "group_entries [] segments base cur =
     segments @ [\<lparr>iseg_base = base, iseg_instructions = cur\<rparr>]"
| "group_entries ((addr, instruction) # entries) segments base cur =
     (let expected_addr = base + of_nat (length cur) * 4
      in if addr = expected_addr then group_entries entries segments base (cur @ [instruction])
         else group_entries entries
                (segments @ [\<lparr>iseg_base = base, iseg_instructions = cur\<rparr>]) addr [instruction])"

definition cache_from_map :: "(u64 \<rightharpoonup> Instruction) \<Rightarrow> InstructionCache" where
  "cache_from_map m =
     (case map (\<lambda>a. (a, the (m a))) (sorted_list_of_set (dom m)) of
        [] \<Rightarrow> []
      | (addr, instruction) # entries \<Rightarrow> group_entries entries [] addr [instruction])"

text \<open>\<open>slice::binary_search_by\<close>: the comparison returns the order of an element relative to the
  target, here as an integer. The result is the position of an equal element, if one is found.\<close>

function bsearch_loop :: "('a \<Rightarrow> int) \<Rightarrow> 'a list \<Rightarrow> nat \<Rightarrow> nat \<Rightarrow> nat" where
  "bsearch_loop f xs base sz =
     (if 1 < sz then
        (let half = sz div 2; mid = base + half
         in bsearch_loop f xs (if 0 < f (xs ! mid) then base else mid) (sz - half))
      else base)"
  by pat_completeness auto
termination by (relation "measure (\<lambda>(f, xs, base, sz). sz)") auto

declare bsearch_loop.simps [simp del]

definition binary_search_by :: "('a \<Rightarrow> int) \<Rightarrow> 'a list \<Rightarrow> nat option" where
  "binary_search_by f xs =
     (if xs = [] then None
      else (let base = bsearch_loop f xs 0 (length xs)
            in if f (xs ! base) = 0 then Some base else None))"

definition segment_order :: "u64 \<Rightarrow> InstructionSegment \<Rightarrow> int" where
  "segment_order pc seg = (if pc < iseg_base seg then 1 else if end_addr seg \<le> pc then - 1 else 0)"

definition segment_get :: "u64 \<Rightarrow> InstructionSegment \<Rightarrow> Instruction option" where
  "segment_get pc seg =
     (let byte_offset = pc - iseg_base seg
      in if byte_offset mod 4 \<noteq> 0 then None
         else (let k = unat (byte_offset div 4)
               in if k < length (iseg_instructions seg) then Some (iseg_instructions seg ! k)
                  else None))"

definition cache_get :: "InstructionCache \<Rightarrow> u64 \<Rightarrow> Instruction option" where
  "cache_get segments pc =
     (if length segments = 1 then
        (let seg = segments ! 0
         in if pc < iseg_base seg \<or> end_addr seg \<le> pc then None else segment_get pc seg)
      else
        Option.bind (binary_search_by (segment_order pc) segments) (\<lambda>idx.
          segment_get pc (segments ! idx)))"

definition instruction_count :: "InstructionCache \<Rightarrow> nat" where
  "instruction_count segments = sum_list (map (\<lambda>s. length (iseg_instructions s)) segments)"

definition into_instruction_map :: "InstructionCache \<Rightarrow> (u64 \<rightharpoonup> Instruction)" where
  "into_instruction_map segments =
     fold (\<lambda>seg m. fold (\<lambda>(i, instruction) m. m(iseg_base seg + of_nat i * 4 \<mapsto> instruction))
                     (enumerate 0 (iseg_instructions seg)) m)
       segments Map.empty"

definition decode_step_marker :: "InstructionCache \<Rightarrow> u64 \<Rightarrow> u32 option" where
  "decode_step_marker instructions pc =
     (case cache_get instructions pc of
        Some (ArithImm dst src imm oper) \<Rightarrow>
          (if dst = 0 \<and> src = 0 \<and> oper = Add \<and> imm \<noteq> 0 then Some imm else None)
      | _ \<Rightarrow> None)"

section \<open>Loading and running\<close>

definition load_program :: "Segment list \<Rightarrow> memory \<Rightarrow> (MemoryError, memory) result" where
  "load_program segments m =
     rfold (\<lambda>segment. rfold (\<lambda>(i, inst) m. store_word m (base_addr segment + of_nat i * 4) inst)
                        (enumerate 0 (seg_values segment)))
       segments m"

definition executor_new :: "Elf \<Rightarrow> u8 list \<Rightarrow> (ExecutorError, Executor) result" where
  "executor_new program private_inputs =
     rbind (map_err ErrMemory (store_private_inputs memory_default private_inputs)) (\<lambda>memory.
     rbind (map_err ErrInstruction (cache_new (elf_data program))) (\<lambda>instructions.
     rbind (map_err ErrMemory (load_program (elf_data program) memory)) (\<lambda>memory.
     Inr \<lparr>ex_machine = \<lparr>regs = registers_default, mem = memory, stdout = []\<rparr>,
          ex_pc = entry_point program, ex_instructions = instructions, ex_logs = []\<rparr>)))"

definition fetch :: "Executor \<Rightarrow> (ExecutorError, Instruction) result" where
  "fetch ex =
     (case cache_get (ex_instructions ex) (ex_pc ex) of
        Some instr \<Rightarrow> Inr instr
      | None \<Rightarrow>
          rbind (map_err ErrMemory (load_word (mem (ex_machine ex)) (ex_pc ex))) (\<lambda>next_instruction.
          map_err ErrInstruction (parse next_instruction)))"

text \<open>The body of the loop of \<open>resume_with_limit\<close>.\<close>

definition exec_step :: "('fe, 'sc, 'ep, 'pt) k256 \<Rightarrow> Executor \<Rightarrow> (ExecutorError, Executor) result" where
  "exec_step K ex =
     (if ex_pc ex mod 4 \<noteq> 0 then Inl (InstructionAddressMisaligned (ex_pc ex))
      else
        rbind (fetch ex) (\<lambda>instruction.
        rbind (map_err ErrExecution (run K instruction (ex_pc ex) (ex_machine ex))) (\<lambda>(l, pc, m).
        Inr (ex\<lparr>ex_machine := m, ex_pc := pc, ex_logs := ex_logs ex @ [l]\<rparr>))))"

lemma exec_step_logs: "exec_step K ex = Inr ex' \<Longrightarrow> length (ex_logs ex') = Suc (length (ex_logs ex))"
  by (auto simp: exec_step_def result_simps split: if_splits)

function resume_loop ::
  "('fe, 'sc, 'ep, 'pt) k256 \<Rightarrow> nat \<Rightarrow> Executor \<Rightarrow> (ExecutorError, Executor) result" where
  "resume_loop K limit ex =
     (if ex_pc ex \<noteq> 0 \<and> length (ex_logs ex) < limit
      then rbind (exec_step K ex) (resume_loop K limit)
      else Inr ex)"
  by pat_completeness auto
termination
  by (relation "measure (\<lambda>(K, limit, ex). limit - length (ex_logs ex))")
    (auto dest: exec_step_logs)

declare resume_loop.simps [simp del]

definition resume_with_limit ::
  "('fe, 'sc, 'ep, 'pt) k256 \<Rightarrow> nat \<Rightarrow> Executor \<Rightarrow> (ExecutorError, log list option \<times> Executor) result" where
  "resume_with_limit K limit ex =
     (if ex_pc ex = 0 then Inr (None, ex)
      else
        rbind (resume_loop K limit (ex\<lparr>ex_logs := []\<rparr>)) (\<lambda>ex.
        Inr (if ex_logs ex = [] then None else Some (ex_logs ex), ex)))"

definition resume ::
  "('fe, 'sc, 'ep, 'pt) k256 \<Rightarrow> Executor \<Rightarrow> (ExecutorError, log list option \<times> Executor) result" where
  "resume K = resume_with_limit K CHUNK_SIZE"

definition resume_budgeted :: "('fe, 'sc, 'ep, 'pt) k256 \<Rightarrow> u64 \<Rightarrow> u64 option \<Rightarrow> Executor
    \<Rightarrow> (ExecutorError, log list option \<times> Executor) result" where
  "resume_budgeted K total_cycles cycle_budget ex =
     (let limit = (case cycle_budget of
                     Some budget \<Rightarrow> min (unat (budget - total_cycles)) CHUNK_SIZE
                   | None \<Rightarrow> CHUNK_SIZE)
      in resume_with_limit K limit ex)"

definition get_return_values :: "Executor \<Rightarrow> (ExecutorError, ReturnValues) result" where
  "get_return_values ex =
     rbind (map_err ErrMemory (read_return_value (mem (ex_machine ex)))) (\<lambda>memory_return_value.
     Inr \<lparr>memory_values = memory_return_value,
          register_values = read_return_values (regs (ex_machine ex))\<rparr>)"

definition finish :: "Executor \<Rightarrow> (ExecutorError, ReturnValues) result" where
  "finish = get_return_values"

text \<open>\<open>None\<close>: the loop does not return.\<close>

partial_function (option) run_loop :: "('fe, 'sc, 'ep, 'pt) k256 \<Rightarrow> log list \<Rightarrow> Executor
    \<Rightarrow> (ExecutorError, log list \<times> Executor) result option" where
  "run_loop K logs ex =
     (case resume K ex of
        Inl e \<Rightarrow> Some (Inl e)
      | Inr (None, ex) \<Rightarrow> Some (Inr (logs, ex))
      | Inr (Some chunk, ex) \<Rightarrow> run_loop K (logs @ chunk) ex)"

definition executor_run ::
  "('fe, 'sc, 'ep, 'pt) k256 \<Rightarrow> Executor \<Rightarrow> (ExecutorError, ExecutionResult) result option" where
  "executor_run K ex =
     map_option (\<lambda>r. rbind r (\<lambda>(logs, ex).
        rbind (get_return_values ex) (\<lambda>rv.
        Inr \<lparr>return_values = rv, result_logs = logs,
             result_instructions = into_instruction_map (ex_instructions ex)\<rparr>)))
       (run_loop K [] ex)"

definition epoch_of :: "log list \<Rightarrow> Executor \<Rightarrow> EpochExecution" where
  "epoch_of logs ex = \<lparr>epoch_logs = logs, end_pc = ex_pc ex,
     end_registers = regs (ex_machine ex), end_memory = mem (ex_machine ex)\<rparr>"

partial_function (option) epochs_loop :: "('fe, 'sc, 'ep, 'pt) k256 \<Rightarrow> nat \<Rightarrow> EpochExecution list
    \<Rightarrow> Executor \<Rightarrow> (ExecutorError, EpochExecution list) result option" where
  "epochs_loop K epoch_size epochs ex =
     (case resume_with_limit K epoch_size ex of
        Inl e \<Rightarrow> Some (Inl e)
      | Inr (None, ex) \<Rightarrow> Some (Inr epochs)
      | Inr (Some logs, ex) \<Rightarrow> epochs_loop K epoch_size (epochs @ [epoch_of logs ex]) ex)"

definition run_epochs :: "('fe, 'sc, 'ep, 'pt) k256 \<Rightarrow> nat \<Rightarrow> Executor
    \<Rightarrow> (ExecutorError, EpochExecution list) result option" where
  "run_epochs K epoch_size ex =
     (if epoch_size = 0 then Some (Inl ExecutorPanic) else epochs_loop K epoch_size [] ex)"

section \<open>Sequences of steps\<close>

text \<open>At most \<open>n\<close> steps, stopping when the program counter is zero.\<close>

primrec steps :: "('fe, 'sc, 'ep, 'pt) k256 \<Rightarrow> nat \<Rightarrow> Executor \<Rightarrow> (ExecutorError, Executor) result" where
  "steps K 0 ex = Inr ex"
| "steps K (Suc k) ex = (if ex_pc ex = 0 then Inr ex else rbind (exec_step K ex) (steps K k))"

definition clear_logs :: "Executor \<Rightarrow> Executor" where
  "clear_logs ex = ex\<lparr>ex_logs := []\<rparr>"

definition prefix_logs :: "log list \<Rightarrow> Executor \<Rightarrow> Executor" where
  "prefix_logs ls ex = ex\<lparr>ex_logs := ls @ ex_logs ex\<rparr>"

lemma clear_logs_simps [simp]:
  "ex_pc (clear_logs ex) = ex_pc ex" "ex_logs (clear_logs ex) = []"
  "ex_machine (clear_logs ex) = ex_machine ex" "ex_instructions (clear_logs ex) = ex_instructions ex"
  "clear_logs (clear_logs ex) = clear_logs ex"
  by (simp_all add: clear_logs_def)

lemma prefix_logs_simps [simp]:
  "ex_pc (prefix_logs ls ex) = ex_pc ex" "ex_logs (prefix_logs ls ex) = ls @ ex_logs ex"
  "ex_machine (prefix_logs ls ex) = ex_machine ex"
  "ex_instructions (prefix_logs ls ex) = ex_instructions ex"
  "clear_logs (prefix_logs ls ex) = clear_logs ex"
  by (simp_all add: prefix_logs_def clear_logs_def)

lemma prefix_clear: "prefix_logs (ex_logs ex) (clear_logs ex) = ex"
  by (simp add: prefix_logs_def clear_logs_def)

lemma steps_halted: "ex_pc ex = 0 \<Longrightarrow> steps K k ex = Inr ex"
  by (cases k) simp_all

lemma steps_add: "steps K (a + b) ex = rbind (steps K a ex) (steps K b)"
proof (induction a arbitrary: ex)
  case (Suc a)
  show ?case
  proof (cases "ex_pc ex = 0")
    case True
    then show ?thesis by (simp add: steps_halted)
  next
    case False
    have "(\<lambda>ex. steps K (a + b) ex) = (\<lambda>ex. rbind (steps K a ex) (steps K b))"
      using Suc.IH by (rule ext)
    then show ?thesis using False by (simp add: rbind_assoc)
  qed
qed simp

lemma fetch_prefix [simp]: "fetch (prefix_logs ls ex) = fetch ex"
  by (simp add: fetch_def split: option.split)

lemma exec_step_prefix:
  "exec_step K (prefix_logs ls ex) = rbind (exec_step K ex) (\<lambda>e. Inr (prefix_logs ls e))"
proof (cases "fetch ex")
  case (Inr i)
  then show ?thesis
    by (cases "run K i (ex_pc ex) (ex_machine ex)")
      (auto simp: exec_step_def prefix_logs_def [of _ "ex\<lparr>ex_machine := m, ex_pc := pc, ex_logs := l\<rparr>" for m pc l]
        prefix_logs_def [of ls ex] fetch_prefix [unfolded prefix_logs_def])
qed (simp add: exec_step_def)

lemma steps_prefix: "steps K k (prefix_logs ls ex) = rbind (steps K k ex) (\<lambda>e. Inr (prefix_logs ls e))"
proof (induction k arbitrary: ex)
  case (Suc k)
  then show ?case by (simp add: exec_step_prefix rbind_assoc)
qed simp

lemma resume_loop_steps: "resume_loop K limit ex = steps K (limit - length (ex_logs ex)) ex"
proof (induction K limit ex rule: resume_loop.induct)
  case (1 K limit ex)
  show ?case
  proof (cases "ex_pc ex \<noteq> 0 \<and> length (ex_logs ex) < limit")
    case True
    then have n: "limit - length (ex_logs ex) = Suc (limit - Suc (length (ex_logs ex)))"
      by linarith
    have "rbind (exec_step K ex) (resume_loop K limit)
        = rbind (exec_step K ex) (steps K (limit - Suc (length (ex_logs ex))))"
      by (rule rbind_cong [OF refl]) (use 1 [OF True] exec_step_logs in fastforce)
    then show ?thesis using True unfolding n by (simp add: resume_loop.simps)
  next
    case False
    then show ?thesis by (auto simp: resume_loop.simps steps_halted)
  qed
qed

lemma resume_with_limit_steps:
  "resume_with_limit K limit ex =
     (if ex_pc ex = 0 then Inr (None, ex)
      else rbind (steps K limit (clear_logs ex)) (\<lambda>ex.
        Inr (if ex_logs ex = [] then None else Some (ex_logs ex), ex)))"
  by (simp add: resume_with_limit_def resume_loop_steps clear_logs_def)

lemma steps_logs_length:
  "steps K k ex = Inr ex' \<Longrightarrow>
     length (ex_logs ex) \<le> length (ex_logs ex') \<and> length (ex_logs ex') \<le> length (ex_logs ex) + k
     \<and> (ex_pc ex \<noteq> 0 \<and> 0 < k \<longrightarrow> length (ex_logs ex) < length (ex_logs ex'))
     \<and> (ex_pc ex' \<noteq> 0 \<longrightarrow> length (ex_logs ex') = length (ex_logs ex) + k)"
proof (induction k arbitrary: ex)
  case (Suc k)
  show ?case
  proof (cases "ex_pc ex = 0")
    case False
    then obtain ex1 where s: "exec_step K ex = Inr ex1" "steps K k ex1 = Inr ex'"
      using Suc.prems by (auto simp: result_simps)
    then show ?thesis using Suc.IH [OF s(2)] exec_step_logs [OF s(1)] by auto
  qed (use Suc.prems in auto)
qed simp

text \<open>One chunk of a halting execution: it ends in a state from which the rest halts too.\<close>

lemma halting_chunk:
  assumes "steps K k (clear_logs ex) = Inr ex'" "ex_pc ex' = 0" "ex_pc ex \<noteq> 0" "0 < c"
  shows "\<exists>ex1 k' ex2. resume_with_limit K c ex = Inr (Some (ex_logs ex1), ex1)
    \<and> steps K k' (clear_logs ex1) = Inr ex2 \<and> k' < k \<and> ex' = prefix_logs (ex_logs ex1) ex2
    \<and> ex_logs ex1 \<noteq> [] \<and> length (ex_logs ex1) \<le> c
    \<and> (ex_pc ex1 \<noteq> 0 \<longrightarrow> length (ex_logs ex1) = c)"
proof -
  have k: "0 < k" using assms by (cases k) auto
  obtain ex1 where s1: "steps K c (clear_logs ex) = Inr ex1" and s2: "steps K (k - c) ex1 = Inr ex'"
  proof (cases "k \<le> c")
    case True
    then have "steps K c (clear_logs ex) = rbind (steps K k (clear_logs ex)) (steps K (c - k))"
      using steps_add [of K k "c - k" "clear_logs ex"] by simp
    also have "\<dots> = Inr ex'" using assms(1,2) by (simp add: steps_halted)
    finally show ?thesis using that [of ex'] True assms(2) by (simp add: steps_halted)
  next
    case False
    then have "rbind (steps K c (clear_logs ex)) (steps K (k - c)) = Inr ex'"
      using steps_add [of K c "k - c" "clear_logs ex"] assms(1) by simp
    then show ?thesis using that by (auto simp: result_simps)
  qed
  have len: "ex_logs ex1 \<noteq> []" "length (ex_logs ex1) \<le> c" "ex_pc ex1 \<noteq> 0 \<longrightarrow> length (ex_logs ex1) = c"
    using steps_logs_length [OF s1] assms(3,4) by auto
  have "rbind (steps K (k - c) (clear_logs ex1)) (\<lambda>e. Inr (prefix_logs (ex_logs ex1) e)) = Inr ex'"
    using steps_prefix [of K "k - c" "ex_logs ex1" "clear_logs ex1"] s2 by (simp add: prefix_clear)
  then obtain ex2 where "steps K (k - c) (clear_logs ex1) = Inr ex2" "ex' = prefix_logs (ex_logs ex1) ex2"
    by (auto simp: result_simps)
  moreover have "resume_with_limit K c ex = Inr (Some (ex_logs ex1), ex1)"
    using s1 len(1) assms(3) by (simp add: resume_with_limit_steps)
  moreover have "k - c < k" using k assms(4) by simp
  ultimately show ?thesis using len by blast
qed

lemma resume_halted: "ex_pc ex = 0 \<Longrightarrow> resume_with_limit K c ex = Inr (None, ex)"
  by (simp add: resume_with_limit_steps)

lemma run_loop_halts:
  assumes "steps K k (clear_logs ex) = Inr ex'" "ex_pc ex' = 0"
  shows "\<exists>exf. run_loop K logs ex = Some (Inr (logs @ ex_logs ex', exf)) \<and> clear_logs exf = clear_logs ex'"
  using assms
proof (induction k arbitrary: ex ex' logs rule: less_induct)
  case (less k)
  show ?case
  proof (cases "ex_pc ex = 0")
    case True
    then have "ex' = clear_logs ex" using less.prems by (simp add: steps_halted)
    then show ?thesis
      using True by (subst run_loop.simps) (simp add: resume_def resume_halted)
  next
    case False
    have c: "0 < CHUNK_SIZE" by (simp add: CHUNK_SIZE_def)
    obtain ex1 k' ex2 where h: "resume_with_limit K CHUNK_SIZE ex = Inr (Some (ex_logs ex1), ex1)"
      "steps K k' (clear_logs ex1) = Inr ex2" "k' < k" "ex' = prefix_logs (ex_logs ex1) ex2"
      using halting_chunk [OF less.prems False c] by blast
    have "ex_pc ex2 = 0" using less.prems(2) h(4) by simp
    from less.IH [OF h(3,2) this, of "logs @ ex_logs ex1"] show ?thesis
      using h by (subst run_loop.simps) (simp add: resume_def)
  qed
qed

definition full_epochs :: "nat \<Rightarrow> EpochExecution list \<Rightarrow> bool" where
  "full_epochs c es \<longleftrightarrow> list_all (\<lambda>e. 0 < length (epoch_logs e) \<and> length (epoch_logs e) \<le> c) es
     \<and> list_all (\<lambda>e. length (epoch_logs e) = c) (butlast es)"

lemma epochs_loop_halts:
  assumes "steps K k (clear_logs ex) = Inr ex'" "ex_pc ex' = 0" "0 < c"
  shows "\<exists>es. epochs_loop K c acc ex = Some (Inr (acc @ es))
    \<and> concat (map epoch_logs es) = ex_logs ex' \<and> full_epochs c es
    \<and> (if es = [] then ex_pc ex = 0 else epoch_of (epoch_logs (last es)) ex' = last es)"
  using assms(1,2)
proof (induction k arbitrary: ex ex' acc rule: less_induct)
  case (less k)
  show ?case
  proof (cases "ex_pc ex = 0")
    case True
    then have "ex' = clear_logs ex" using less.prems by (simp add: steps_halted)
    then show ?thesis
      using True by (subst epochs_loop.simps) (simp add: resume_halted full_epochs_def)
  next
    case False
    obtain ex1 k' ex2 where h: "resume_with_limit K c ex = Inr (Some (ex_logs ex1), ex1)"
      "steps K k' (clear_logs ex1) = Inr ex2" "k' < k" "ex' = prefix_logs (ex_logs ex1) ex2"
      and l: "ex_logs ex1 \<noteq> []" "length (ex_logs ex1) \<le> c" "ex_pc ex1 \<noteq> 0 \<longrightarrow> length (ex_logs ex1) = c"
      using halting_chunk [OF less.prems False assms(3)] by blast
    have "ex_pc ex2 = 0" using less.prems(2) h(4) by simp
    from less.IH [OF h(3,2) this, of "acc @ [epoch_of (ex_logs ex1) ex1]"] obtain es where
      es: "epochs_loop K c (acc @ [epoch_of (ex_logs ex1) ex1]) ex1
            = Some (Inr ((acc @ [epoch_of (ex_logs ex1) ex1]) @ es))"
        "concat (map epoch_logs es) = ex_logs ex2" "full_epochs c es"
        "if es = [] then ex_pc ex1 = 0 else epoch_of (epoch_logs (last es)) ex2 = last es" by blast
    have nil: "es = [] \<Longrightarrow> ex2 = clear_logs ex1" using es(4) h(2) by (simp add: steps_halted)
    have halted: "es = []" if "ex_pc ex1 = 0"
    proof -
      have "ex2 = clear_logs ex1" using that h(2) by (simp add: steps_halted)
      then have "concat (map epoch_logs es) = []" using es(2) by simp
      then show ?thesis using es(3) by (cases es) (simp_all add: full_epochs_def)
    qed
    show ?thesis
      using h(1,4) l es nil halted
      by (subst epochs_loop.simps, intro exI [of _ "epoch_of (ex_logs ex1) ex1 # es"])
        (auto simp: full_epochs_def epoch_of_def split: if_splits)
  qed
qed

text \<open>An execution that stops with an error, and one that returns.\<close>

lemma failing_chunk:
  assumes "steps K k (clear_logs ex) = Inl e" "0 < c"
  shows "resume_with_limit K c ex = Inl e
    \<or> (\<exists>ex1 k'. resume_with_limit K c ex = Inr (Some (ex_logs ex1), ex1)
         \<and> steps K k' (clear_logs ex1) = Inl e \<and> k' < k)"
proof -
  have pc: "ex_pc ex \<noteq> 0" using assms(1) steps_halted [of "clear_logs ex" K k] by auto
  have k: "0 < k" using assms(1) by (cases k) auto
  show ?thesis
  proof (cases "steps K c (clear_logs ex)")
    case (Inl e')
    have "steps K (max k c) (clear_logs ex) = Inl e" "steps K (max k c) (clear_logs ex) = Inl e'"
      using steps_add [of K k "max k c - k" "clear_logs ex"] assms(1)
        steps_add [of K c "max k c - c" "clear_logs ex"] Inl by simp_all
    then show ?thesis using Inl pc by (simp add: resume_with_limit_steps)
  next
    case (Inr ex1)
    have "c < k"
    proof (rule ccontr)
      assume "\<not> c < k"
      then show False using steps_add [of K k "c - k" "clear_logs ex"] assms(1) Inr by simp
    qed
    then have "steps K (k - c) ex1 = Inl e"
      using steps_add [of K c "k - c" "clear_logs ex"] assms(1) Inr by simp
    then have "steps K (k - c) (clear_logs ex1) = Inl e"
      using steps_prefix [of K "k - c" "ex_logs ex1" "clear_logs ex1"]
      by (cases "steps K (k - c) (clear_logs ex1)") (simp_all add: prefix_clear)
    moreover have "ex_logs ex1 \<noteq> []" using steps_logs_length [OF Inr] pc assms(2) by auto
    ultimately show ?thesis using Inr pc k assms(2) by (auto simp: resume_with_limit_steps)
  qed
qed

lemma run_loop_fails: "steps K k (clear_logs ex) = Inl e \<Longrightarrow> run_loop K logs ex = Some (Inl e)"
proof (induction k arbitrary: ex logs rule: less_induct)
  case (less k)
  have "0 < CHUNK_SIZE" by (simp add: CHUNK_SIZE_def)
  from failing_chunk [OF less.prems this] show ?case
    using less.IH by (subst run_loop.simps) (auto simp: resume_def)
qed

lemma run_loop_returns:
  "run_loop K logs ex = Some r \<Longrightarrow>
     \<exists>k. (case steps K k (clear_logs ex) of Inl e \<Rightarrow> True | Inr ex' \<Rightarrow> ex_pc ex' = 0)"
proof (erule run_loop.raw_induct [rotated])
  fix f :: "('a, 'b, 'c, 'd) k256 \<Rightarrow> log list \<Rightarrow> Executor
      \<Rightarrow> (ExecutorError, log list \<times> Executor) result option"
    and K :: "('a, 'b, 'c, 'd) k256" and logs ex r
  assume IH: "\<And>K logs ex r. f K logs ex = Some r \<Longrightarrow>
      \<exists>k. (case steps K k (clear_logs ex) of Inl e \<Rightarrow> True | Inr ex' \<Rightarrow> ex_pc ex' = 0)"
    and eq: "(case resume K ex of Inl e \<Rightarrow> Some (Inl e) | Inr (None, ex) \<Rightarrow> Some (Inr (logs, ex))
      | Inr (Some chunk, ex) \<Rightarrow> f K (logs @ chunk) ex) = Some r"
  show "\<exists>k. (case steps K k (clear_logs ex) of Inl e \<Rightarrow> True | Inr ex' \<Rightarrow> ex_pc ex' = 0)"
  proof (cases "ex_pc ex = 0")
    case True
    then show ?thesis by (intro exI [of _ 0]) simp
  next
    case False
    show ?thesis
    proof (cases "steps K CHUNK_SIZE (clear_logs ex)")
      case (Inl e)
      then show ?thesis by (intro exI [of _ CHUNK_SIZE]) simp
    next
      case (Inr ex1)
      have ne: "ex_logs ex1 \<noteq> []"
        using steps_logs_length [OF Inr] False by (auto simp: CHUNK_SIZE_def)
      then have "f K (logs @ ex_logs ex1) ex1 = Some r"
        using eq Inr False by (simp add: resume_def resume_with_limit_steps)
      from IH [OF this] obtain k where
        k: "case steps K k (clear_logs ex1) of Inl e \<Rightarrow> True | Inr ex' \<Rightarrow> ex_pc ex' = 0" by blast
      have "steps K (CHUNK_SIZE + k) (clear_logs ex) = steps K k ex1"
        using steps_add [of K CHUNK_SIZE k] Inr by simp
      also have "\<dots> = rbind (steps K k (clear_logs ex1)) (\<lambda>e. Inr (prefix_logs (ex_logs ex1) e))"
        using steps_prefix [of K k "ex_logs ex1" "clear_logs ex1"] by (simp add: prefix_clear)
      finally show ?thesis using k
        by (intro exI [of _ "CHUNK_SIZE + k"]) (auto split: sum.splits)
    qed
  qed
qed

section \<open>The step relation\<close>

inductive vm_step :: "('fe, 'sc, 'ep, 'pt) k256 \<Rightarrow> Executor \<Rightarrow> Executor \<Rightarrow> bool" for K where
  vm_stepI: "ex_pc ex \<noteq> 0 \<Longrightarrow> exec_step K ex = Inr ex' \<Longrightarrow> vm_step K ex ex'"

inductive vm_reaches :: "('fe, 'sc, 'ep, 'pt) k256 \<Rightarrow> Executor \<Rightarrow> Executor \<Rightarrow> bool" for K ex where
  vm_refl: "vm_reaches K ex ex"
| vm_trans: "vm_reaches K ex ex' \<Longrightarrow> vm_step K ex' ex'' \<Longrightarrow> vm_reaches K ex ex''"

inductive_cases vm_stepE: "vm_step K ex ex'"

text \<open>Consecutive logs: each starts at the aligned, non-zero address where the previous one ended.\<close>

fun log_chain :: "u64 \<Rightarrow> log list \<Rightarrow> u64 \<Rightarrow> bool" where
  "log_chain a [] b \<longleftrightarrow> a = b"
| "log_chain a (l # ls) b \<longleftrightarrow> current_pc l = a \<and> a \<noteq> 0 \<and> a mod 4 = 0 \<and> log_chain (next_pc l) ls b"

lemma log_chain_append: "log_chain a (ls @ ls') c \<longleftrightarrow> (\<exists>b. log_chain a ls b \<and> log_chain b ls' c)"
  by (induction ls arbitrary: a) auto

lemma exec_step_Inr:
  assumes "exec_step K ex = Inr ex'" "machine_wf (ex_machine ex)"
  shows "machine_wf (ex_machine ex') \<and> ex_instructions ex' = ex_instructions ex
    \<and> (\<exists>l. ex_logs ex' = ex_logs ex @ [l] \<and> current_pc l = ex_pc ex \<and> next_pc l = ex_pc ex')
    \<and> ex_pc ex mod 4 = 0"
proof -
  from assms(1) obtain i l m where i: "execute K i (ex_pc ex) (ex_machine ex) = Inr (l, m)"
    and ex': "ex' = ex\<lparr>ex_machine := m, ex_pc := next_pc l, ex_logs := ex_logs ex @ [l]\<rparr>"
    and al: "ex_pc ex mod 4 = 0"
    by (auto simp: exec_step_def run_def result_simps split: if_splits del: mod_0_imp_dvd)
  have "machine_wf m \<and> current_pc l = ex_pc ex"
    using executed_wf [OF assms(2) i] .
  then show ?thesis using ex' al by simp
qed

lemma steps_reaches: "steps K k ex = Inr ex' \<Longrightarrow> vm_reaches K ex ex'"
proof (induction k arbitrary: ex')
  case (Suc k)
  then have "rbind (steps K k ex) (steps K 1) = Inr ex'" using steps_add [of K k 1 ex] by simp
  then obtain ex1 where ex1: "steps K k ex = Inr ex1" "steps K 1 ex1 = Inr ex'"
    by (auto simp: result_simps)
  show ?case
  proof (cases "ex_pc ex1 = 0")
    case True
    then show ?thesis using Suc.IH [OF ex1(1)] ex1(2) by (simp add: steps_halted)
  next
    case False
    then have "exec_step K ex1 = Inr ex'" using ex1(2) by (auto simp: result_simps)
    then show ?thesis using Suc.IH [OF ex1(1)] False by (blast intro: vm_trans vm_stepI)
  qed
qed (simp add: vm_refl)

lemma reaches_invariant:
  assumes "vm_reaches K ex ex'" "machine_wf (ex_machine ex)"
  shows "machine_wf (ex_machine ex') \<and> ex_instructions ex' = ex_instructions ex
    \<and> (\<exists>ls. ex_logs ex' = ex_logs ex @ ls \<and> log_chain (ex_pc ex) ls (ex_pc ex'))"
  using assms(1)
proof induction
  case vm_refl
  show ?case using assms(2) by simp
next
  case (vm_trans ex1 ex2)
  from vm_trans.hyps(2) have s: "ex_pc ex1 \<noteq> 0" "exec_step K ex1 = Inr ex2" by (auto elim: vm_stepE)
  obtain ls where ls: "machine_wf (ex_machine ex1)" "ex_instructions ex1 = ex_instructions ex"
      "ex_logs ex1 = ex_logs ex @ ls" "log_chain (ex_pc ex) ls (ex_pc ex1)"
    using vm_trans.IH by blast
  obtain l where "machine_wf (ex_machine ex2)" "ex_instructions ex2 = ex_instructions ex1"
    "ex_logs ex2 = ex_logs ex1 @ [l]" "current_pc l = ex_pc ex1" "next_pc l = ex_pc ex2"
    "ex_pc ex1 mod 4 = 0"
    using exec_step_Inr [OF s(2) ls(1)] by metis
  then show ?case using ls s(1) by (intro conjI exI [of _ "ls @ [l]"]) (simp_all add: log_chain_append)
qed

section \<open>Properties of the run loops\<close>

text \<open>A program that sets the system-call number and halts.\<close>

definition sample_executor :: Executor where
  "sample_executor = \<lparr>ex_machine = machine_default, ex_pc = 0x1000,
     ex_instructions = [\<lparr>iseg_base = 0x1000,
        iseg_instructions = [ArithImm 17 0 93 Add, EcallEbreak]\<rparr>], ex_logs = []\<rparr>"

definition sample_logs :: "log list" where
  "sample_logs = [mk_log 0x1000 0x1004 0 0 93, mk_log 0x1004 0 93 0 0]"

lemma sample_steps:
  "\<exists>ex'. steps k256_none 2 (clear_logs sample_executor) = Inr ex' \<and> ex_pc ex' = 0 \<and> ex_logs ex' = sample_logs"
  unfolding numeral_2_eq_2
  by (simp add: sample_executor_def sample_logs_def clear_logs_def exec_step_def fetch_def
      cache_get_def segment_get_def end_addr_def run_def reg_read_def write_reg_def reg_write_def
      machine_default_def registers_default_def REGULAR_PC_UPDATE_def Let_def execute_ecall_def
      syscall_try_from_def)

lemma executor_run_Some:
  "executor_run K ex = Some r \<longleftrightarrow>
     (\<exists>r'. run_loop K [] ex = Some r' \<and> r = rbind r' (\<lambda>(logs, ex).
        rbind (get_return_values ex) (\<lambda>rv.
        Inr \<lparr>return_values = rv, result_logs = logs,
             result_instructions = into_instruction_map (ex_instructions ex)\<rparr>)))"
  by (auto simp: executor_run_def)

lemma executor_run_Inr:
  assumes "executor_run K ex = Some (Inr res)"
  shows "\<exists>k ex'. steps K k (clear_logs ex) = Inr ex' \<and> ex_pc ex' = 0 \<and> result_logs res = ex_logs ex'
    \<and> memory_values (return_values res) = public_output (mem (ex_machine ex'))"
proof -
  obtain r' where r': "run_loop K [] ex = Some r'" "Inr res = rbind r' (\<lambda>(logs, ex).
        rbind (get_return_values ex) (\<lambda>rv.
        Inr \<lparr>return_values = rv, result_logs = logs,
             result_instructions = into_instruction_map (ex_instructions ex)\<rparr>))"
    using assms by (auto simp: executor_run_Some)
  obtain k where k: "case steps K k (clear_logs ex) of Inl e \<Rightarrow> True | Inr ex' \<Rightarrow> ex_pc ex' = 0"
    using run_loop_returns [OF r'(1)] by blast
  show ?thesis
  proof (cases "steps K k (clear_logs ex)")
    case (Inl e)
    then have "r' = Inl e" using run_loop_fails [OF Inl, of "[]"] r'(1) by simp
    then show ?thesis using r'(2) by simp
  next
    case (Inr ex')
    then obtain exf where "r' = Inr (ex_logs ex', exf)" "clear_logs exf = clear_logs ex'"
      using run_loop_halts [of K k ex ex' "[]"] k r'(1) by auto
    moreover from this(2) have "ex_machine exf = ex_machine ex'" by (metis clear_logs_simps(3))
    ultimately show ?thesis
      using Inr k r'(2) by (intro exI [of _ k] exI [of _ ex']) (simp add: get_return_values_def read_return_value_def)
  qed
qed

text \<open>C18: chunked and epoch-wise execution agree. If running to completion returns a result, then
  splitting the same execution into epochs of any positive size returns too; the logs of the
  epochs concatenated are exactly the logs of the run, every epoch but the last has exactly the
  epoch size, and no epoch is empty.\<close>

theorem epochs_agree_with_run:
  assumes "executor_run K ex = Some (Inr res)" "0 < c"
  shows "\<exists>es. run_epochs K c ex = Some (Inr es) \<and> concat (map epoch_logs es) = result_logs res
    \<and> full_epochs c es"
proof -
  obtain k ex' where h: "steps K k (clear_logs ex) = Inr ex'" "ex_pc ex' = 0" "result_logs res = ex_logs ex'"
    using executor_run_Inr [OF assms(1)] by blast
  show ?thesis using epochs_loop_halts [OF h(1,2) assms(2), of "[]"] h(3) assms(2)
    by (auto simp: run_epochs_def)
qed

text \<open>C19: running to completion returns exactly when the program stops. The run returns a result
  (or an error) if and only if after finitely many steps the program counter is zero (or a step
  fails), and then the logs of the result are those of the steps.\<close>

theorem run_returns_iff_stops:
  "(\<exists>r. executor_run K ex = Some r)
     \<longleftrightarrow> (\<exists>k. case steps K k (clear_logs ex) of Inl e \<Rightarrow> True | Inr ex' \<Rightarrow> ex_pc ex' = 0)"
proof
  assume "\<exists>r. executor_run K ex = Some r"
  then show "\<exists>k. case steps K k (clear_logs ex) of Inl e \<Rightarrow> True | Inr ex' \<Rightarrow> ex_pc ex' = 0"
    using run_loop_returns by (auto simp: executor_run_Some)
next
  assume "\<exists>k. case steps K k (clear_logs ex) of Inl e \<Rightarrow> True | Inr ex' \<Rightarrow> ex_pc ex' = 0"
  then obtain k where k: "case steps K k (clear_logs ex) of Inl e \<Rightarrow> True | Inr ex' \<Rightarrow> ex_pc ex' = 0" ..
  show "\<exists>r. executor_run K ex = Some r"
  proof (cases "steps K k (clear_logs ex)")
    case (Inl e)
    then show ?thesis using run_loop_fails [OF Inl] by (auto simp: executor_run_Some)
  next
    case (Inr ex')
    then show ?thesis
      using run_loop_halts [OF Inr, of "[]"] k by (auto simp: executor_run_Some)
  qed
qed

lemma sample_run: "\<exists>res. executor_run k256_none sample_executor = Some (Inr res) \<and> result_logs res = sample_logs"
proof -
  obtain ex' where s: "steps k256_none 2 (clear_logs sample_executor) = Inr ex'" "ex_pc ex' = 0"
    "ex_logs ex' = sample_logs" using sample_steps by blast
  show ?thesis
    using run_loop_halts [OF s(1,2), of "[]"] s(3)
    by (auto simp: executor_run_def get_return_values_def read_return_value_def)
qed

theorem epochs_agree_with_run_witness:
  "\<exists>es. run_epochs k256_none 1 sample_executor = Some (Inr es) \<and> concat (map epoch_logs es) = sample_logs"
proof -
  obtain res where "executor_run k256_none sample_executor = Some (Inr res)" "result_logs res = sample_logs"
    using sample_run by blast
  then show ?thesis using epochs_agree_with_run [of k256_none sample_executor res 1] by auto
qed

end
