(* ===== verification/Vm_Loader.thy ===== *)
theory Vm_Loader
  imports Vm_Executor
begin

text \<open>
  Correctness of the instruction cache and of program loading: the binary search of the cache
  against the map of its instructions, the grouping of a map into segments, and the state in which
  \<open>Executor::new\<close> leaves memory and cache.
\<close>

section \<open>Binary search\<close>

lemma bsearch_loop_bound: "0 < sz \<Longrightarrow> bsearch_loop f xs base sz < base + sz"
proof (induction f xs base sz rule: bsearch_loop.induct)
  case (1 f xs base sz)
  show ?case
  proof (cases "1 < sz")
    case True
    have "bsearch_loop f xs (if 0 < f (xs ! (base + sz div 2)) then base else base + sz div 2) (sz - sz div 2)
      < (if 0 < f (xs ! (base + sz div 2)) then base else base + sz div 2) + (sz - sz div 2)"
      by (rule 1(1) [OF True refl refl]) (use True in simp)
    then show ?thesis using True by (subst bsearch_loop.simps) (auto simp: Let_def split: if_splits)
  next
    case False
    then show ?thesis using 1(2) by (simp add: bsearch_loop.simps)
  qed
qed

lemma bsearch_loop_finds:
  assumes "sorted (map f xs)" "base + sz \<le> length xs" "base \<le> i" "i < base + sz" "f (xs ! i) = 0"
  shows "f (xs ! bsearch_loop f xs base sz) = 0"
  using assms
proof (induction f xs base sz arbitrary: i rule: bsearch_loop.induct)
  case (1 f xs base sz)
  have mono: "a \<le> b \<Longrightarrow> b < length xs \<Longrightarrow> f (xs ! a) \<le> f (xs ! b)" for a b
    using sorted_nth_mono [OF 1(2), of a b] by simp
  show ?case
  proof (cases "1 < sz")
    case True
    let ?mid = "base + sz div 2"
    let ?b = "if 0 < f (xs ! ?mid) then base else ?mid"
    have mid: "?mid < length xs" using True 1(3) by linarith
    have "\<exists>j. ?b \<le> j \<and> j < ?b + (sz - sz div 2) \<and> f (xs ! j) = 0"
    proof (cases "0 < f (xs ! ?mid)")
      case t: True
      then have "i < ?mid" using mono [of ?mid i] 1(3,5,6) by (cases "?mid \<le> i") auto
      then show ?thesis using t 1(4,6) by (intro exI [of _ i]) auto
    next
      case f: False
      show ?thesis
      proof (cases "?mid \<le> i")
        case True
        then show ?thesis using f 1(5,6) by (intro exI [of _ i]) auto
      next
        case False
        then have "f (xs ! ?mid) = 0" using mono [of i ?mid] mid f 1(6) by simp
        then show ?thesis using f True by (intro exI [of _ ?mid]) auto
      qed
    qed
    then obtain j where j: "?b \<le> j" "j < ?b + (sz - sz div 2)" "f (xs ! j) = 0" by blast
    have "f (xs ! bsearch_loop f xs ?b (sz - sz div 2)) = 0"
      by (rule 1(1) [OF True refl refl 1(2) _ j]) (use 1(3) in auto)
    then show ?thesis using True by (subst bsearch_loop.simps) (simp add: Let_def)
  next
    case False
    then have "i = base" using 1(4,5) by linarith
    then show ?thesis using False 1(6) by (simp add: bsearch_loop.simps)
  qed
qed

lemma binary_search_Some:
  "binary_search_by f xs = Some i \<Longrightarrow> i < length xs \<and> f (xs ! i) = 0"
  using bsearch_loop_bound [of "length xs" f xs 0]
  by (auto simp: binary_search_by_def Let_def split: if_splits)

lemma binary_search_None:
  assumes "binary_search_by f xs = None" "sorted (map f xs)" "i < length xs"
  shows "f (xs ! i) \<noteq> 0"
proof
  assume z: "f (xs ! i) = 0"
  have "f (xs ! bsearch_loop f xs 0 (length xs)) = 0"
    by (rule bsearch_loop_finds [OF assms(2) _ _ _ z]) (use assms(3) in auto)
  then show False using assms(1,3) by (auto simp: binary_search_by_def Let_def split: if_splits)
qed

section \<open>The cache as a map\<close>

definition iseg_end :: "InstructionSegment \<Rightarrow> nat" where
  "iseg_end s = unat (iseg_base s) + 4 * length (iseg_instructions s)"

text \<open>Segments in order, disjoint, and within the address space.\<close>

definition cache_wf :: "InstructionCache \<Rightarrow> bool" where
  "cache_wf segs \<longleftrightarrow> list_all (\<lambda>s. iseg_end s < 2 ^ 64) segs
     \<and> sorted_wrt (\<lambda>s t. iseg_end s \<le> unat (iseg_base t)) segs"

definition seg_lookup :: "u64 \<Rightarrow> InstructionSegment \<Rightarrow> Instruction option" where
  "seg_lookup pc s = (if segment_order pc s = 0 then segment_get pc s else None)"

lemma unat_end_addr: "iseg_end s < 2 ^ 64 \<Longrightarrow> unat (end_addr s) = iseg_end s"
proof -
  assume e: "iseg_end s < 2 ^ 64"
  have "end_addr s = iseg_base s + of_nat (4 * length (iseg_instructions s))"
    by (simp add: end_addr_def mult.commute)
  then show ?thesis using unat_add_small [of "iseg_base s" "4 * length (iseg_instructions s)"] e
    by (simp add: iseg_end_def)
qed

lemma segment_order_cases:
  assumes "iseg_end s < 2 ^ 64"
  shows "segment_order pc s = (if unat pc < unat (iseg_base s) then 1
    else if iseg_end s \<le> unat pc then - 1 else 0)"
  using unat_end_addr [OF assms] by (simp add: segment_order_def word_less_nat_alt word_le_nat_alt)

text \<open>A lookup in a segment: the address is a multiple of four past the base.\<close>

lemma seg_lookup_iff:
  assumes "iseg_end s < 2 ^ 64"
  shows "seg_lookup pc s = Some i \<longleftrightarrow> (\<exists>k < length (iseg_instructions s).
    unat pc = unat (iseg_base s) + 4 * k \<and> i = iseg_instructions s ! k)"
proof (cases "unat pc < unat (iseg_base s)")
  case True
  then show ?thesis by (auto simp: seg_lookup_def segment_order_cases [OF assms])
next
  case False
  let ?d = "unat pc - unat (iseg_base s)"
  have d: "unat (pc - iseg_base s) = ?d" using False by (simp add: unat_sub_if')
  have m: "(pc - iseg_base s) mod 4 = 0 \<longleftrightarrow> ?d mod 4 = 0" using mod4_unat [of "pc - iseg_base s"] d by simp
  have q: "unat ((pc - iseg_base s) div 4) = ?d div 4" using d by (simp add: unat_div)
  have pc: "unat pc = unat (iseg_base s) + ?d" using False by simp
  have "iseg_end s \<le> unat pc \<longleftrightarrow> 4 * length (iseg_instructions s) \<le> ?d"
    using False unfolding iseg_end_def by linarith
  then have "seg_lookup pc s = Some i \<longleftrightarrow> ?d < 4 * length (iseg_instructions s) \<and> ?d mod 4 = 0
      \<and> ?d div 4 < length (iseg_instructions s) \<and> i = iseg_instructions s ! (?d div 4)"
    using False by (auto simp: seg_lookup_def segment_order_cases [OF assms] segment_get_def Let_def m q
        simp del: mod_0_imp_dvd)
  also have "\<dots> \<longleftrightarrow> (\<exists>k < length (iseg_instructions s).
    unat pc = unat (iseg_base s) + 4 * k \<and> i = iseg_instructions s ! k)"
  proof
    assume h: "?d < 4 * length (iseg_instructions s) \<and> ?d mod 4 = 0
      \<and> ?d div 4 < length (iseg_instructions s) \<and> i = iseg_instructions s ! (?d div 4)"
    then have "4 * (?d div 4) = ?d" using mult_div_mod_eq [of 4 ?d] by simp
    then show "\<exists>k < length (iseg_instructions s).
      unat pc = unat (iseg_base s) + 4 * k \<and> i = iseg_instructions s ! k"
      using h pc by (intro exI [of _ "?d div 4"]) simp
  next
    assume "\<exists>k < length (iseg_instructions s).
      unat pc = unat (iseg_base s) + 4 * k \<and> i = iseg_instructions s ! k"
    then show "?d < 4 * length (iseg_instructions s) \<and> ?d mod 4 = 0
      \<and> ?d div 4 < length (iseg_instructions s) \<and> i = iseg_instructions s ! (?d div 4)" by auto
  qed
  finally show ?thesis .
qed

lemma cache_wf_Cons:
  "cache_wf (s # segs) \<longleftrightarrow> iseg_end s < 2 ^ 64 \<and> (\<forall>t\<in>set segs. iseg_end s \<le> unat (iseg_base t)) \<and> cache_wf segs"
  by (auto simp: cache_wf_def list_all_iff)

lemma cache_wfD: "cache_wf segs \<Longrightarrow> s \<in> set segs \<Longrightarrow> iseg_end s < 2 ^ 64"
  by (simp add: cache_wf_def list_all_iff)

lemma seg_lookup_range:
  "iseg_end s < 2 ^ 64 \<Longrightarrow> seg_lookup pc s = Some i \<Longrightarrow> unat (iseg_base s) \<le> unat pc \<and> unat pc < iseg_end s"
  by (auto simp: seg_lookup_iff iseg_end_def)

text \<open>At most one segment contains an address.\<close>

lemma order_zero_unique:
  assumes "cache_wf segs" "s \<in> set segs" "t \<in> set segs" "segment_order pc s = 0" "segment_order pc t = 0"
  shows "s = t"
  using assms
proof (induction segs)
  case (Cons r segs)
  have ends: "iseg_end u < 2 ^ 64" if "u \<in> set (r # segs)" for u using Cons.prems(1) that by (rule cache_wfD)
  have "unat (iseg_base s) \<le> unat pc" "unat pc < iseg_end s" "unat (iseg_base t) \<le> unat pc"
      "unat pc < iseg_end t"
    using Cons.prems segment_order_cases [OF ends [of s], of pc] segment_order_cases [OF ends [of t], of pc]
    by (auto split: if_splits)
  then show ?case using Cons by (auto simp: cache_wf_Cons)
qed simp

lemma segment_order_sorted: "cache_wf segs \<Longrightarrow> sorted (map (segment_order pc) segs)"
proof (induction segs)
  case (Cons s segs)
  have "segment_order pc s \<le> segment_order pc t" if "t \<in> set segs" for t
  proof -
    have t: "iseg_end t < 2 ^ 64" using cache_wfD [OF Cons.prems, of t] that by simp
    have s: "iseg_end s < 2 ^ 64" "iseg_end s \<le> unat (iseg_base t)"
      using Cons.prems that by (auto simp: cache_wf_Cons)
    have "unat (iseg_base s) \<le> iseg_end s" by (simp add: iseg_end_def)
    then show ?thesis using s by (auto simp: segment_order_cases [OF t] segment_order_cases [OF s(1)])
  qed
  then show ?case using Cons by (simp add: cache_wf_Cons)
qed simp

lemma cache_get_iff:
  assumes "cache_wf segs"
  shows "cache_get segs pc = Some i \<longleftrightarrow> (\<exists>s\<in>set segs. seg_lookup pc s = Some i)"
proof (cases "length segs = 1")
  case True
  then obtain s where "segs = [s]" by (auto simp: length_Suc_conv)
  then show ?thesis
    by (auto simp: cache_get_def seg_lookup_def segment_order_def Let_def)
next
  case False
  show ?thesis
  proof (cases "binary_search_by (segment_order pc) segs")
    case None
    then have "segment_order pc s \<noteq> 0" if "s \<in> set segs" for s
      using binary_search_None [OF None segment_order_sorted [OF assms]] that by (auto simp: in_set_conv_nth)
    then show ?thesis using False None by (auto simp: cache_get_def seg_lookup_def)
  next
    case (Some k)
    have k: "k < length segs" "segment_order pc (segs ! k) = 0" using binary_search_Some [OF Some] by auto
    have "segment_get pc (segs ! k) = seg_lookup pc (segs ! k)" using k(2) by (simp add: seg_lookup_def)
    moreover have "s = segs ! k" if "s \<in> set segs" "segment_order pc s = 0" for s
      using order_zero_unique [OF assms that(1) _ that(2) k(2)] k(1) by simp
    ultimately show ?thesis
      using False Some k by (auto simp: cache_get_def seg_lookup_def split: if_splits)
  qed
qed

text \<open>Inserting the instructions of a segment at consecutive addresses.\<close>

lemma insert_segment:
  fixes b :: u64
  assumes "unat b + 4 * length is < 2 ^ 64"
  shows "fold (\<lambda>(i, instruction) m. m(b + of_nat i * 4 \<mapsto> instruction)) (enumerate 0 is) m pc =
    (if \<exists>k < length is. unat pc = unat b + 4 * k then Some (is ! ((unat pc - unat b) div 4)) else m pc)"
proof -
  define F where "F xs = fold (\<lambda>(i, instruction) m. m(b + of_nat i * 4 \<mapsto> instruction)) (enumerate 0 xs) m pc" for xs
  have "F is = (if \<exists>k < length is. unat pc = unat b + 4 * k then Some (is ! ((unat pc - unat b) div 4)) else m pc)"
    using assms
  proof (induction "is" rule: rev_induct)
    case Nil
    show ?case by (simp add: F_def)
  next
    case (snoc x xs)
    have "unat (b + of_nat (length xs) * 4) = unat b + 4 * length xs"
      using unat_add_small [of b "4 * length xs"] snoc.prems by (simp add: mult.commute)
    then have "b + of_nat (length xs) * 4 = pc \<longleftrightarrow> unat pc = unat b + 4 * length xs"
      by (auto simp: word_unat_eq_iff)
    then have step: "F (xs @ [x]) = (if unat pc = unat b + 4 * length xs then Some x else F xs)"
      by (auto simp: F_def enumerate_append_eq)
    have IH: "F xs = (if \<exists>k < length xs. unat pc = unat b + 4 * k
        then Some (xs ! ((unat pc - unat b) div 4)) else m pc)"
      using snoc by simp
    show ?case unfolding step IH by (auto simp: less_Suc_eq nth_append)
  qed
  then show ?thesis by (simp only: F_def)
qed

text \<open>Folding insertions of pairwise disjoint keys: exactly one of them answers a lookup.\<close>

lemma fold_insertions:
  assumes "\<And>s m. s \<in> set ss \<Longrightarrow> ins s m pc = (case look s of None \<Rightarrow> m pc | Some j \<Rightarrow> Some j)"
    and "sorted_wrt (\<lambda>s t. look s = None \<or> look t = None) ss"
  shows "fold ins ss m pc = Some i \<longleftrightarrow>
    (\<exists>s\<in>set ss. look s = Some i) \<or> (\<forall>s\<in>set ss. look s = None) \<and> m pc = Some i"
  using assms
proof (induction ss arbitrary: m)
  case (Cons s ss)
  have IH: "fold ins ss (ins s m) pc = Some i \<longleftrightarrow>
    (\<exists>s\<in>set ss. look s = Some i) \<or> (\<forall>s\<in>set ss. look s = None) \<and> ins s m pc = Some i"
    by (rule Cons.IH) (use Cons.prems in auto)
  have "ins s m pc = (case look s of None \<Rightarrow> m pc | Some j \<Rightarrow> Some j)" by (rule Cons.prems) simp
  then show ?case using Cons.prems(2) IH by (cases "look s") auto
qed simp

lemma seg_lookup_disjoint:
  assumes "cache_wf segs"
  shows "sorted_wrt (\<lambda>s t. seg_lookup pc s = None \<or> seg_lookup pc t = None) segs"
  using assms
proof (induction segs)
  case (Cons s segs)
  have "seg_lookup pc s = None \<or> seg_lookup pc t = None" if t: "t \<in> set segs" for t
  proof (rule ccontr)
    assume "\<not> (seg_lookup pc s = None \<or> seg_lookup pc t = None)"
    then obtain i j where "seg_lookup pc s = Some i" "seg_lookup pc t = Some j" by auto
    moreover have "iseg_end s < 2 ^ 64" "iseg_end t < 2 ^ 64" "iseg_end s \<le> unat (iseg_base t)"
      using Cons.prems t cache_wfD [OF Cons.prems, of t] by (simp_all add: cache_wf_Cons)
    ultimately show False using seg_lookup_range [of s pc i] seg_lookup_range [of t pc j] by simp
  qed
  then show ?case using Cons by (simp add: cache_wf_Cons)
qed simp

lemma into_map_iff:
  assumes "cache_wf segs"
  shows "into_instruction_map segs pc = Some i \<longleftrightarrow> (\<exists>s\<in>set segs. seg_lookup pc s = Some i)"
proof -
  let ?ins = "\<lambda>seg m. fold (\<lambda>(i, instruction) m. m(iseg_base seg + of_nat i * 4 \<mapsto> instruction))
                     (enumerate 0 (iseg_instructions seg)) m"
  have ins: "?ins s m pc = (case seg_lookup pc s of None \<Rightarrow> m pc | Some j \<Rightarrow> Some j)"
    if s: "s \<in> set segs" for s m
  proof -
    have e: "iseg_end s < 2 ^ 64" using assms s by (rule cache_wfD)
    note f = insert_segment [of "iseg_base s" "iseg_instructions s" m pc, folded iseg_end_def, OF e]
    show ?thesis
    proof (cases "seg_lookup pc s")
      case None
      then show ?thesis unfolding f using seg_lookup_iff [OF e, of pc] by auto
    next
      case (Some j)
      then show ?thesis unfolding f using seg_lookup_iff [OF e, of pc j] by auto
    qed
  qed
  show ?thesis
    using fold_insertions [where ss = segs and ins = ?ins and look = "seg_lookup pc" and pc = pc
        and m = Map.empty and i = i, OF ins seg_lookup_disjoint [OF assms]]
    unfolding into_instruction_map_def by simp
qed

text \<open>C20: the instruction cache is a map. For segments that are in order, disjoint and within the
  address space, as those of a loaded program without overlapping segments are, looking an address up by binary search gives exactly the instruction that the map
  of all cached instructions has at that address, and nothing where the map has nothing.\<close>

theorem cache_get_is_map:
  assumes "cache_wf segs"
  shows "cache_get segs pc = into_instruction_map segs pc"
proof (cases "cache_get segs pc")
  case None
  then show ?thesis using cache_get_iff [OF assms, of pc] into_map_iff [OF assms, of pc]
    by (cases "into_instruction_map segs pc") auto
next
  case (Some i)
  then show ?thesis using cache_get_iff [OF assms, of pc i] into_map_iff [OF assms, of pc i] by auto
qed

theorem cache_get_is_map_witness:
  "cache_get [\<lparr>iseg_base = 0x1000, iseg_instructions = [Fence, EcallEbreak]\<rparr>,
     \<lparr>iseg_base = 0x2000, iseg_instructions = [Fence]\<rparr>] 0x1004 = Some EcallEbreak"
proof -
  have "cache_wf [\<lparr>iseg_base = 0x1000, iseg_instructions = [Fence, EcallEbreak]\<rparr>,
     \<lparr>iseg_base = 0x2000, iseg_instructions = [Fence]\<rparr>]"
    by (simp add: cache_wf_def iseg_end_def)
  from cache_get_is_map [OF this, of "0x1004"] show ?thesis
    by (simp add: into_instruction_map_def)
qed

section \<open>Grouping a map into segments\<close>

text \<open>The instructions that a list of segments inserts, in order.\<close>

definition insert_segs :: "InstructionCache \<Rightarrow> (u64 \<rightharpoonup> Instruction) \<Rightarrow> (u64 \<rightharpoonup> Instruction)" where
  "insert_segs segs m =
     fold (\<lambda>seg m. fold (\<lambda>(i, instruction) m. m(iseg_base seg + of_nat i * 4 \<mapsto> instruction))
                     (enumerate 0 (iseg_instructions seg)) m) segs m"

lemma insert_segs_append: "insert_segs (xs @ ys) m = insert_segs ys (insert_segs xs m)"
  by (simp add: insert_segs_def)

lemma insert_segs_pair: "insert_segs [s, t] m = insert_segs [t] (insert_segs [s] m)"
  by (simp add: insert_segs_def)

lemma insert_segs_snoc_instruction:
  "insert_segs [\<lparr>iseg_base = b, iseg_instructions = cur @ [x]\<rparr>] m
     = (insert_segs [\<lparr>iseg_base = b, iseg_instructions = cur\<rparr>] m)(b + of_nat (length cur) * 4 \<mapsto> x)"
  by (simp add: insert_segs_def enumerate_append_eq)

lemma group_entries_insert:
  "insert_segs (group_entries es segs b cur) m =
     fold (\<lambda>(a, x) m. m(a \<mapsto> x)) es (insert_segs (segs @ [\<lparr>iseg_base = b, iseg_instructions = cur\<rparr>]) m)"
proof (induction es segs b cur rule: group_entries.induct)
  case (2 addr x es segs b cur)
  show ?case
  proof (cases "addr = b + of_nat (length cur) * 4")
    case True
    then show ?thesis
      using 2(1) [OF refl True]
      by (simp add: Let_def insert_segs_append insert_segs_snoc_instruction)
  next
    case False
    have "insert_segs [\<lparr>iseg_base = addr, iseg_instructions = [x]\<rparr>] m' = m'(addr \<mapsto> x)" for m'
      by (simp add: insert_segs_def)
    then show ?thesis using 2(2) [OF refl False] False
      by (simp add: Let_def insert_segs_append insert_segs_pair)
  qed
qed simp

lemma fold_entries:
  "fold (\<lambda>(a, x) m. m(a \<mapsto> x)) (map (\<lambda>a. (a, the (f a))) as) m k =
     (if k \<in> set as then Some (the (f k)) else m k)"
  by (induction as arbitrary: m) auto

text \<open>The cache built from a map holds that map. Grouping the entries of a finite map of
  instructions into segments of consecutive addresses and reading all the instructions of the
  segments back gives the map again, wherever its addresses are.\<close>

theorem from_map_roundtrip:
  assumes "finite (dom f)"
  shows "into_instruction_map (cache_from_map f) = f"
proof -
  let ?as = "sorted_list_of_set (dom f)"
  have set: "set ?as = dom f" using assms by simp
  have "insert_segs (cache_from_map f) Map.empty
      = fold (\<lambda>(a, x) m. m(a \<mapsto> x)) (map (\<lambda>a. (a, the (f a))) ?as) Map.empty"
  proof (cases ?as)
    case Nil
    then show ?thesis by (simp add: cache_from_map_def insert_segs_def)
  next
    case (Cons a as)
    have "insert_segs [\<lparr>iseg_base = a, iseg_instructions = [x]\<rparr>] m' = m'(a \<mapsto> x)" for x m'
      by (simp add: insert_segs_def)
    then show ?thesis using Cons by (simp add: cache_from_map_def group_entries_insert)
  qed
  also have "\<dots> = f"
  proof
    fix k
    show "fold (\<lambda>(a, x) m. m(a \<mapsto> x)) (map (\<lambda>a. (a, the (f a))) ?as) Map.empty k = f k"
      unfolding fold_entries set by (cases "f k") auto
  qed
  finally show ?thesis by (simp add: into_instruction_map_def insert_segs_def)
qed

section \<open>Loading a program\<close>

definition seg_bytes :: "Segment \<Rightarrow> u8 list" where
  "seg_bytes s = concat (map (to_le_bytes 4) (seg_values s))"

lemma length_word_bytes: "length (concat (map (to_le_bytes 4) vs)) = 4 * length vs"
  by (induction vs) simp_all

lemma length_seg_bytes [simp]: "length (seg_bytes s) = 4 * length (seg_values s)"
  by (simp add: seg_bytes_def length_word_bytes)

lemma word_bytes_nth:
  "k < 4 * length vs \<Longrightarrow> concat (map (to_le_bytes 4) vs) ! k = to_le_bytes 4 (vs ! (k div 4)) ! (k mod 4)"
proof (induction vs arbitrary: k)
  case (Cons v vs)
  show ?case
  proof (cases "k < 4")
    case False
    then have "k div 4 = Suc ((k - 4) div 4)" "k mod 4 = (k - 4) mod 4"
      by (simp_all add: le_div_geq le_mod_geq)
    then show ?thesis using False Cons by (simp add: nth_append)
  qed (simp add: nth_append)
qed simp

lemma seg_bytes_nth: "k < 4 * length (seg_values s) \<Longrightarrow> seg_bytes s ! k = segment_byte s k"
  by (simp add: seg_bytes_def segment_byte_def word_bytes_nth)

lemma store_words:
  assumes "cells_wf m" "unat b + 4 * (k + length vs) \<le> 2 ^ 64" "stores m0 b bs m" "length bs = 4 * k"
  shows "\<exists>m'. rfold (\<lambda>(i, inst) m. store_word m (b + of_nat i * 4) inst) (enumerate k vs) m = Inr m'
     \<and> stores m0 b (bs @ concat (map (to_le_bytes 4) vs)) m'"
  using assms
proof (induction vs arbitrary: k m bs)
  case (Cons v vs)
  have a: "b + of_nat k * 4 = b + of_nat (4 * k)" by (simp add: mult.commute)
  have u: "unat (b + of_nat (4 * k)) + 3 < 2 ^ 64"
    using Cons.prems(2) unat_add_small [of b "4 * k"] by simp
  obtain m1 where m1: "store_word m (b + of_nat (4 * k)) v = Inr m1"
      "stores m (b + of_nat (4 * k)) (to_le_bytes 4 v) m1"
    using store_word_eq [OF Cons.prems(1), of "b + of_nat (4 * k)" v] u by auto
  have s: "stores m0 b (bs @ to_le_bytes 4 v) m1"
    by (rule stores_append [OF Cons.prems(3)]) (use m1(2) Cons.prems in simp_all)
  have "cells_wf m1" using m1(2) by (simp add: stores_def)
  then show ?case
    using Cons.IH [of m1 "Suc k" "bs @ to_le_bytes 4 v"] s Cons.prems m1(1) [folded a] by simp
qed simp

definition image_write :: "Segment \<Rightarrow> (u64 \<Rightarrow> u8) \<Rightarrow> (u64 \<Rightarrow> u8)" where
  "image_write s f = flat_write f (base_addr s) (seg_bytes s)"

lemma load_program_image:
  assumes "memory_wf m" "list_all segment_wf segs"
  shows "\<exists>m'. load_program segs m = Inr m' \<and> load_byte m' = fold image_write segs (load_byte m)
    \<and> memory_wf m' \<and> public_output m' = public_output m"
  using assms
proof (induction segs arbitrary: m)
  case Nil
  then show ?case by (simp add: load_program_def)
next
  case (Cons s segs)
  have c: "cells_wf m" using Cons.prems(1) by (simp add: memory_wf_def)
  have "unat (base_addr s) + 4 * (0 + length (seg_values s)) \<le> 2 ^ 64"
    using Cons.prems(2) by (simp add: segment_wf_def PRIVATE_INPUT_START_INDEX_def)
  from store_words [OF c this stores_nil [OF c]] obtain m1 where
    m1: "rfold (\<lambda>(i, inst) m. store_word m (base_addr s + of_nat i * 4) inst)
        (enumerate 0 (seg_values s)) m = Inr m1" "stores m (base_addr s) (seg_bytes s) m1"
    by (auto simp: seg_bytes_def)
  have "memory_wf m1" "load_byte m1 = image_write s (load_byte m)" "public_output m1 = public_output m"
    using m1(2) stores_memory_wf [OF m1(2) Cons.prems(1)] by (simp_all add: stores_def image_write_def)
  then show ?case
    using Cons.IH [of m1] Cons.prems(2) m1(1) by (auto simp: load_program_def)
qed

text \<open>An address outside of a segment is not written by it.\<close>

lemma image_write_other:
  assumes "segment_wf s" "unat a < unat (base_addr s) \<or> unat (base_addr s) + 4 * length (seg_values s) \<le> unat a"
  shows "image_write s f a = f a"
proof -
  have "unat (base_addr s) + 4 * length (seg_values s) \<le> 2 ^ 64"
    using assms(1) by (simp add: segment_wf_def PRIVATE_INPUT_START_INDEX_def)
  then have "\<not> unat (a - base_addr s) < 4 * length (seg_values s)"
    using assms(2) by (auto simp: unat_sub_if')
  then show ?thesis by (simp add: image_write_def flat_write_def)
qed

lemma image_write_in:
  assumes "segment_wf s" "k < 4 * length (seg_values s)"
  shows "image_write s f (base_addr s + of_nat k) = segment_byte s k"
proof -
  have "k < 2 ^ 64" using assms by (simp add: segment_wf_def PRIVATE_INPUT_START_INDEX_def)
  then have "unat (base_addr s + of_nat k - base_addr s) = k" by (simp add: unat_of_nat_less)
  then show ?thesis using assms(2) by (simp add: image_write_def flat_write_def seg_bytes_nth)
qed

lemma images_other:
  assumes "list_all segment_wf segs"
    "\<forall>s\<in>set segs. unat a < unat (base_addr s) \<or> unat (base_addr s) + 4 * length (seg_values s) \<le> unat a"
  shows "fold image_write segs f a = f a"
  using assms by (induction segs arbitrary: f) (simp_all add: image_write_other)

definition in_segment :: "Segment \<Rightarrow> u64 \<Rightarrow> bool" where
  "in_segment s a \<longleftrightarrow> unat (base_addr s) \<le> unat a \<and> unat a < unat (base_addr s) + 4 * length (seg_values s)"

text \<open>Segments in address order without overlap.\<close>

definition segs_disjoint :: "Segment list \<Rightarrow> bool" where
  "segs_disjoint segs \<longleftrightarrow>
     sorted_wrt (\<lambda>s t. unat (base_addr s) + 4 * length (seg_values s) \<le> unat (base_addr t)) segs"

lemma images_in:
  assumes "list_all segment_wf segs" "segs_disjoint segs" "s \<in> set segs" "k < 4 * length (seg_values s)"
  shows "fold image_write segs f (base_addr s + of_nat k) = segment_byte s k"
  using assms(1-3)
proof (induction segs arbitrary: f)
  case (Cons t segs)
  have sw: "segment_wf s" using Cons.prems(1,3) by (auto simp: list_all_iff)
  have u: "unat (base_addr s + of_nat k) = unat (base_addr s) + k"
    using sw assms(4) by (intro unat_add_small) (simp add: segment_wf_def PRIVATE_INPUT_START_INDEX_def)
  show ?case
  proof (cases "s \<in> set segs")
    case True
    then show ?thesis using Cons by (simp add: segs_disjoint_def)
  next
    case False
    then have "s = t" using Cons.prems(3) by simp
    moreover have "fold image_write segs g (base_addr s + of_nat k) = g (base_addr s + of_nat k)" for g
    proof (rule images_other)
      show "list_all segment_wf segs" using Cons.prems(1) by simp
      show "\<forall>r\<in>set segs. unat (base_addr s + of_nat k) < unat (base_addr r)
          \<or> unat (base_addr r) + 4 * length (seg_values r) \<le> unat (base_addr s + of_nat k)"
        using Cons.prems(2) \<open>s = t\<close> u assms(4) by (auto simp: segs_disjoint_def)
    qed
    ultimately show ?thesis using image_write_in [OF sw assms(4)] by simp
  qed
qed simp

section \<open>The initial state\<close>

lemma cache_new_nth:
  assumes "cache_new segs = Inr cache" "j < length cache" "s = filter is_executable segs ! j"
  shows "s \<in> set segs \<and> is_executable s \<and> iseg_base (cache ! j) = base_addr s
    \<and> rcollect parse (seg_values s) = Inr (iseg_instructions (cache ! j))"
proof -
  note cn = assms(1) [unfolded cache_new_def]
  have j: "j < length (filter is_executable segs)" using rcollect_length [OF cn] assms(2) by simp
  have "s \<in> set (filter is_executable segs)" using j assms(3) by (metis nth_mem)
  moreover obtain ins where "rcollect parse (seg_values s) = Inr ins"
      "cache ! j = \<lparr>iseg_base = base_addr s, iseg_instructions = ins\<rparr>"
    using rcollect_nth [OF cn j] assms(3) by (auto simp: result_simps)
  ultimately show ?thesis by simp
qed

lemma cache_new_segment:
  assumes "cache_new segs = Inr cache" "c \<in> set cache"
  shows "\<exists>s\<in>set segs. is_executable s \<and> iseg_base c = base_addr s
    \<and> rcollect parse (seg_values s) = Inr (iseg_instructions c)"
proof -
  obtain j where "j < length cache" "c = cache ! j" using assms(2) by (auto simp: in_set_conv_nth)
  then show ?thesis using cache_new_nth [OF assms(1), of j] by blast
qed

lemma cache_new_wf:
  assumes "cache_new segs = Inr cache" "list_all segment_wf segs" "segs_disjoint segs"
  shows "cache_wf cache"
proof -
  let ?xs = "filter is_executable segs"
  have len: "length cache = length ?xs" using rcollect_length [OF assms(1) [unfolded cache_new_def]] .
  have el: "iseg_end (cache ! j) = unat (base_addr (?xs ! j)) + 4 * length (seg_values (?xs ! j))
      \<and> iseg_base (cache ! j) = base_addr (?xs ! j)" if "j < length cache" for j
    using cache_new_nth [OF assms(1) that refl] by (auto simp: iseg_end_def dest: rcollect_length)
  have sw: "sorted_wrt (\<lambda>s t. unat (base_addr s) + 4 * length (seg_values s) \<le> unat (base_addr t)) ?xs"
    using assms(3) unfolding segs_disjoint_def by (rule sorted_wrt_filter)
  have "iseg_end c < 2 ^ 64" if cc: "c \<in> set cache" for c
  proof -
    obtain j where j: "j < length cache" "c = cache ! j" using cc by (auto simp: in_set_conv_nth)
    have "?xs ! j \<in> set ?xs" using j(1) len by (metis nth_mem)
    then have "segment_wf (?xs ! j)" using assms(2) by (auto simp: list_all_iff)
    then show ?thesis using el [OF j(1)] j(2) by (simp add: segment_wf_def PRIVATE_INPUT_START_INDEX_def)
  qed
  moreover have "sorted_wrt (\<lambda>s t. iseg_end s \<le> unat (iseg_base t)) cache"
    using sw el len by (simp add: sorted_wrt_iff_nth_less)
  ultimately show ?thesis by (simp add: cache_wf_def list_all_iff)
qed

lemma load_word_image:
  assumes "cells_wf m" "segment_wf s" "j < length (seg_values s)"
    "\<forall>k < 4 * length (seg_values s). load_byte m (base_addr s + of_nat k) = segment_byte s k"
    "unat pc = unat (base_addr s) + 4 * j"
  shows "load_word m pc = Inr (seg_values s ! j)"
proof -
  have r: "unat pc + 3 < 2 ^ 64"
    using assms(2,3,5) by (simp add: segment_wf_def PRIVATE_INPUT_START_INDEX_def)
  have pc: "pc = base_addr s + of_nat (4 * j)"
    using assms(5) unat_add_small [of "base_addr s" "4 * j"] r by (simp add: word_unat_eq_iff)
  have "load_seq m pc 4 = to_le_bytes 4 (seg_values s ! j)"
  proof (rule nth_equalityI)
    fix i assume "i < length (load_seq m pc 4)"
    then have i: "i < 4" by simp
    have "load_byte m (base_addr s + of_nat (4 * j + i)) = segment_byte s (4 * j + i)"
      using assms(3,4) i by (intro assms(4) [rule_format]) simp
    then show "load_seq m pc 4 ! i = to_le_bytes 4 (seg_values s ! j) ! i"
      using i by (simp add: pc segment_byte_def add.assoc)
  qed simp
  then show ?thesis using r by (simp add: load_word_eq [OF assms(1)])
qed

lemma executor_new_Inr:
  assumes "executor_new elf inputs = Inr ex" "elf_wf elf"
  shows "\<exists>mp. store_private_inputs memory_default inputs = Inr mp
    \<and> cache_new (elf_data elf) = Inr (ex_instructions ex)
    \<and> load_byte (mem (ex_machine ex)) = fold image_write (elf_data elf) (load_byte mp)
    \<and> machine_wf (ex_machine ex) \<and> regs (ex_machine ex) = registers_default
    \<and> ex_pc ex = entry_point elf \<and> ex_logs ex = []"
proof -
  obtain mp ins mm where h: "store_private_inputs memory_default inputs = Inr mp"
    "cache_new (elf_data elf) = Inr ins" "load_program (elf_data elf) mp = Inr mm"
    "ex = \<lparr>ex_machine = \<lparr>regs = registers_default, mem = mm, stdout = []\<rparr>,
          ex_pc = entry_point elf, ex_instructions = ins, ex_logs = []\<rparr>"
    using assms(1) by (auto simp: executor_new_def result_simps)
  have "memory_wf mp"
  proof (cases "inputs = []")
    case True
    then show ?thesis using h(1) by (simp add: store_private_inputs_def)
  next
    case False
    have "cells_wf memory_default" by (simp add: cells_wf_def memory_default_def)
    from store_private_inputs_Inr(1) [OF this h(1) False] show ?thesis
      by (rule stores_memory_wf) simp
  qed
  moreover have "list_all segment_wf (elf_data elf)" using assms(2) by (simp add: elf_wf_def)
  ultimately show ?thesis
    using load_program_image [of mp "elf_data elf"] h by (auto simp: machine_wf_def)
qed

text \<open>C21: the initial state. For a program that the ELF loader accepted, the new executor starts at
  the entry point with the default registers and a well-formed machine. Loading the program leaves
  the private-input area as the private input was stored, and leaves every address that no segment
  covers unchanged; when the segments do not overlap, memory holds the image of each of them.\<close>

theorem executor_new_spec:
  assumes "elf_load input = Inr elf" "executor_new elf inputs = Inr ex"
  shows "machine_wf (ex_machine ex) \<and> regs (ex_machine ex) = registers_default
    \<and> ex_pc ex = entry_point elf \<and> ex_logs ex = []
    \<and> (\<exists>mp. store_private_inputs memory_default inputs = Inr mp
        \<and> (\<forall>a. PRIVATE_INPUT_START_INDEX \<le> a \<or> \<not> list_ex (\<lambda>s. in_segment s a) (elf_data elf) \<longrightarrow>
             load_byte (mem (ex_machine ex)) a = load_byte mp a))
    \<and> (segs_disjoint (elf_data elf) \<longrightarrow>
        list_all (\<lambda>s. \<forall>k < 4 * length (seg_values s).
           load_byte (mem (ex_machine ex)) (base_addr s + of_nat k) = segment_byte s k) (elf_data elf))"
proof -
  have wf: "elf_wf elf" using assms(1) by (rule elf_load_elf_wf)
  then have sw: "list_all segment_wf (elf_data elf)" by (simp add: elf_wf_def)
  obtain mp where h: "store_private_inputs memory_default inputs = Inr mp"
    "load_byte (mem (ex_machine ex)) = fold image_write (elf_data elf) (load_byte mp)"
    "machine_wf (ex_machine ex)" "regs (ex_machine ex) = registers_default"
    "ex_pc ex = entry_point elf" "ex_logs ex = []"
    using executor_new_Inr [OF assms(2) wf] by blast
  have "load_byte (mem (ex_machine ex)) a = load_byte mp a"
    if "PRIVATE_INPUT_START_INDEX \<le> a \<or> \<not> list_ex (\<lambda>s. in_segment s a) (elf_data elf)" for a
    unfolding h(2)
    by (rule images_other [OF sw])
      (use sw that in \<open>auto simp: list_all_iff list_ex_iff in_segment_def segment_wf_def word_le_nat_alt not_le\<close>)
  moreover have "load_byte (mem (ex_machine ex)) (base_addr s + of_nat k) = segment_byte s k"
    if "segs_disjoint (elf_data elf)" "s \<in> set (elf_data elf)" "k < 4 * length (seg_values s)" for s k
    unfolding h(2) by (rule images_in [OF sw that])
  ultimately show ?thesis using h by (auto simp: list_all_iff)
qed

lemma sample_executor_new:
  "\<exists>ex. executor_new \<lparr>entry_point = 0x1000, elf_data =
     [\<lparr>base_addr = 0x1000, seg_values = [0x00100013, 0x73], is_executable = True\<rparr>]\<rparr> [1, 2, 3] = Inr ex"
  by (simp add: executor_new_def store_private_inputs_def MAX_PRIVATE_INPUT_SIZE_def store_word_def
      set_bytes_aligned_def PRIVATE_INPUT_START_INDEX_def PRIVATE_INPUT_LENGTH_PREFIX_BYTES_def
      cache_new_def parse_def parse_opcode_def OPCODE_MASK_def opcode_values parse_i_instruction_def
      FUNC3_MASK_def RS1_MASK_def RD_MASK_def SIGN_MASK_def I_TYPE_IMM_MASK_def Let_def
      arith_imm_operation_def load_program_def)

theorem executor_new_spec_witness:
  "\<exists>ex. executor_new \<lparr>entry_point = 0x1000, elf_data =
       [\<lparr>base_addr = 0x1000, seg_values = [0x00100013, 0x73], is_executable = True\<rparr>]\<rparr> [1, 2, 3] = Inr ex
     \<and> ex_pc ex = 0x1000 \<and> load_byte (mem (ex_machine ex)) 0x1004 = 0x73"
proof -
  obtain ex where ex: "executor_new \<lparr>entry_point = 0x1000, elf_data =
     [\<lparr>base_addr = 0x1000, seg_values = [0x00100013, 0x73], is_executable = True\<rparr>]\<rparr> [1, 2, 3] = Inr ex"
    using sample_executor_new by blast
  note c = executor_new_spec [OF sample_elf_load ex]
  have "\<forall>k < 8. load_byte (mem (ex_machine ex)) (0x1000 + of_nat k)
      = segment_byte \<lparr>base_addr = 0x1000, seg_values = [0x00100013, 0x73], is_executable = True\<rparr> k"
    using c by (simp add: segs_disjoint_def)
  from this [rule_format, of 4] have "load_byte (mem (ex_machine ex)) 0x1004 = 0x73"
    by (simp add: segment_byte_def to_le_bytes_def upt_rec)
  then show ?thesis using ex c by auto
qed

text \<open>The word at an aligned address of an executable segment is in the cache.\<close>

lemma cache_new_get:
  assumes cn: "cache_new segs = Inr cache" and sw: "list_all segment_wf segs" and dj: "segs_disjoint segs"
    and s: "s \<in> set segs" "is_executable s" "j < length (seg_values s)" "unat pc = unat (base_addr s) + 4 * j"
  shows "\<exists>i. cache_get cache pc = Some i \<and> parse (seg_values s ! j) = Inr i"
proof -
  let ?xs = "filter is_executable segs"
  have cw: "cache_wf cache" by (rule cache_new_wf [OF cn sw dj])
  have "s \<in> set ?xs" using s(1,2) by simp
  then obtain n where n: "n < length ?xs" "?xs ! n = s" by (metis in_set_conv_nth)
  have nc: "n < length cache" using rcollect_length [OF cn [unfolded cache_new_def]] n(1) by simp
  let ?c = "cache ! n"
  have c: "iseg_base ?c = base_addr s" "rcollect parse (seg_values s) = Inr (iseg_instructions ?c)"
    using cache_new_nth [OF cn nc n(2) [symmetric]] by blast+
  have p: "parse (seg_values s ! j) = Inr (iseg_instructions ?c ! j)" using rcollect_nth [OF c(2) s(3)] .
  have "seg_lookup pc ?c = Some (iseg_instructions ?c ! j)"
    using seg_lookup_iff [OF cache_wfD [OF cw nth_mem [OF nc]]] s(3,4) c(1) rcollect_length [OF c(2)] by auto
  then have "cache_get cache pc = Some (iseg_instructions ?c ! j)" using cache_get_iff [OF cw] nth_mem [OF nc] by blast
  then show ?thesis using p by blast
qed

text \<open>Nothing else is in the cache.\<close>

lemma cache_new_get_None:
  assumes cn: "cache_new segs = Inr cache" and sw: "list_all segment_wf segs" and dj: "segs_disjoint segs"
    and out: "\<not> list_ex (\<lambda>s. is_executable s \<and> in_segment s pc) segs"
  shows "cache_get cache pc = None"
proof (rule ccontr)
  assume "cache_get cache pc \<noteq> None"
  then obtain i where "cache_get cache pc = Some i" by blast
  have cw: "cache_wf cache" by (rule cache_new_wf [OF cn sw dj])
  obtain c where c: "c \<in> set cache" "seg_lookup pc c = Some i" using cache_get_iff [OF cw] \<open>cache_get cache pc = Some i\<close> by auto
  obtain j where j: "j < length (iseg_instructions c)" "unat pc = unat (iseg_base c) + 4 * j"
    using seg_lookup_iff [OF cache_wfD [OF cw c(1)]] c(2) by auto
  obtain s where "s \<in> set segs" "is_executable s" "iseg_base c = base_addr s" "rcollect parse (seg_values s) = Inr (iseg_instructions c)"
    using cache_new_segment [OF cn c(1)] by blast
  then show False using out j rcollect_length [of parse "seg_values s"] by (auto simp: list_ex_iff in_segment_def)
qed

lemma aligned_in_segment:
  assumes "segment_wf s" "in_segment s pc" "pc mod 4 = 0"
  obtains j where "j < length (seg_values s)" "unat pc = unat (base_addr s) + 4 * j"
proof -
  have "unat pc mod 4 = 0" "unat (base_addr s) mod 4 = 0" using assms(1,3) by (simp_all add: segment_wf_def mod4_unat)
  then have "4 dvd unat pc" "4 dvd unat (base_addr s)" by (simp_all only: mod_eq_0_iff_dvd)
  then have "4 dvd unat pc - unat (base_addr s)" by (rule dvd_diff_nat)
  then obtain j where "unat pc - unat (base_addr s) = 4 * j" by (rule dvdE)
  then show thesis using assms(2) that [of j] by (auto simp: in_segment_def)
qed

text \<open>C22: what a step fetches. In every state that a program without overlapping segments reaches, at an
  aligned program counter: inside an executable segment the instruction is the decoding of the word
  that memory held at that address in the \<^emph>\<open>initial\<close> state, whatever the program has stored there
  since; at every other address it is the decoding of the word that memory holds now, with the
  errors of the load and of the decoder.\<close>

theorem cache_agrees_with_memory:
  assumes "elf_load input = Inr elf" "executor_new elf inputs = Inr ex" "segs_disjoint (elf_data elf)"
    "vm_reaches K ex ex'" "ex_pc ex' mod 4 = 0"
  shows "if list_ex (\<lambda>s. is_executable s \<and> in_segment s (ex_pc ex')) (elf_data elf)
     then \<exists>w i. load_word (mem (ex_machine ex)) (ex_pc ex') = Inr w \<and> parse w = Inr i \<and> fetch ex' = Inr i
     else fetch ex' = rbind (map_err ErrMemory (load_word (mem (ex_machine ex')) (ex_pc ex')))
            (\<lambda>w. map_err ErrInstruction (parse w))"
proof -
  have wf: "elf_wf elf" using assms(1) by (rule elf_load_elf_wf)
  then have sw: "list_all segment_wf (elf_data elf)" by (simp add: elf_wf_def)
  obtain mp where h: "cache_new (elf_data elf) = Inr (ex_instructions ex)"
    "load_byte (mem (ex_machine ex)) = fold image_write (elf_data elf) (load_byte mp)"
    "machine_wf (ex_machine ex)"
    using executor_new_Inr [OF assms(2) wf] by blast
  have c: "ex_instructions ex' = ex_instructions ex" using reaches_invariant [OF assms(4) h(3)] by blast
  show ?thesis
  proof (cases "list_ex (\<lambda>s. is_executable s \<and> in_segment s (ex_pc ex')) (elf_data elf)")
    case True
    then obtain s where s: "s \<in> set (elf_data elf)" "is_executable s" "in_segment s (ex_pc ex')" by (auto simp: list_ex_iff)
    have w: "segment_wf s" using sw s(1) by (simp add: list_all_iff)
    obtain j where j: "j < length (seg_values s)" "unat (ex_pc ex') = unat (base_addr s) + 4 * j"
      using aligned_in_segment [OF w s(3) assms(5)] .
    obtain i where i: "cache_get (ex_instructions ex) (ex_pc ex') = Some i" "parse (seg_values s ! j) = Inr i"
      using cache_new_get [OF h(1) sw assms(3) s(1,2) j] by blast
    have "\<forall>k<4 * length (seg_values s). load_byte (mem (ex_machine ex)) (base_addr s + of_nat k) = segment_byte s k"
      unfolding h(2) using images_in [OF sw assms(3) s(1)] by simp
    from load_word_image [OF machine_wfD(3) [OF h(3)] w j(1) this j(2)]
    show ?thesis using True i c by (auto simp: fetch_def)
  next
    case False
    then show ?thesis using cache_new_get_None [OF h(1) sw assms(3) False] c by (auto simp: fetch_def)
  qed
qed

theorem cache_agrees_with_memory_witness:
  "\<exists>ex. executor_new \<lparr>entry_point = 0x1000, elf_data =
       [\<lparr>base_addr = 0x1000, seg_values = [0x00100013, 0x73], is_executable = True\<rparr>]\<rparr> [1, 2, 3] = Inr ex
     \<and> (\<exists>w i. load_word (mem (ex_machine ex)) 0x1000 = Inr w \<and> parse w = Inr i \<and> fetch ex = Inr i)"
proof -
  obtain ex where ex: "executor_new \<lparr>entry_point = 0x1000, elf_data =
     [\<lparr>base_addr = 0x1000, seg_values = [0x00100013, 0x73], is_executable = True\<rparr>]\<rparr> [1, 2, 3] = Inr ex"
    using sample_executor_new by blast
  have d: "segs_disjoint [\<lparr>base_addr = 0x1000, seg_values = [0x00100013, 0x73], is_executable = True\<rparr>]"
    by (simp add: segs_disjoint_def)
  have pc: "ex_pc ex = 0x1000" using ex by (auto simp: executor_new_def result_simps)
  show ?thesis
    using cache_agrees_with_memory [OF sample_elf_load ex _ vm_refl [of k256_none]] d ex pc by (simp add: in_segment_def)
qed

end
