(* ===== verification/Ecsm_Replay.thy ===== *)
theory Ecsm_Replay
  imports Complex_Main Ecsm_Curve
begin

text \<open>
  The replay of the double-and-add ladder of the elliptic-curve accelerator
  (\<^verbatim>\<open>crypto/ecsm/src/curve.rs\<close>): the schedule of the scalar, Montgomery's batch inversion, the
  Jacobian formulas and the steps with their slopes.  Field elements are those of the third-party
  crate \<open>k256\<close>: a type of class \<open>field\<close> for the operators, and the parameter record for conversion
  and inversion; \<open>normalize\<close> keeps the value of a field element, and \<open>double\<close> adds it to itself.
\<close>

section \<open>The schedule\<close>

record StepPts =
  step_a :: AffinePoint
  step_g :: AffinePoint
  step_round :: u8
  step_op :: u8
  step_next_op :: u8
  step_r :: AffinePoint
  step_lambda :: nat

text \<open>\<open>BigUint::bits\<close>\<close>

fun biguint_bits :: "nat \<Rightarrow> nat" where
  "biguint_bits v = (if v = 0 then 0 else Suc (biguint_bits (v div 2)))"

declare biguint_bits.simps [simp del]

lemma biguint_bits_0_1 [simp]: "biguint_bits 0 = 0" "biguint_bits (Suc 0) = Suc 0"
  by (simp_all add: biguint_bits.simps)

definition msb_position :: "nat \<Rightarrow> u32" where
  "msb_position k = of_nat (biguint_bits k) - 1"

type_synonym sched_row = "u8 \<times> u8 \<times> u8"

function sched_loop :: "nat \<Rightarrow> int \<Rightarrow> u8 \<Rightarrow> sched_row list \<Rightarrow> sched_row list" where
  "sched_loop k rnd oper sched =
     (if 0 \<le> rnd then
        (let next_op = (if oper = 0 then (if bit k (nat rnd) then 1 else 0) else 0);
             sched = sched @ [(word_of_int rnd, oper, next_op)];
             round_sent = rnd - (1 - uint next_op)
         in if round_sent < 0 then sched else sched_loop k round_sent next_op sched)
      else sched)"
  by pat_completeness auto
termination
  by (relation "measure (\<lambda>(k, rnd, oper, sched). nat (2 * rnd + (if oper = 0 then 1 else 0)))")
    (auto split: if_splits)

declare sched_loop.simps [simp del]

definition schedule :: "nat \<Rightarrow> sched_row list" where
  "schedule k = sched_loop k (uint (msb_position k) - 1) 0 []"

section \<open>Field arithmetic\<close>

text \<open>The first loop of \<open>batch_invert\<close>: the running products before each element, and the product.\<close>

fun prefix_products :: "'fe::field list \<Rightarrow> 'fe list \<Rightarrow> 'fe \<Rightarrow> 'fe list \<times> 'fe" where
  "prefix_products [] prefix acc = (prefix, acc)"
| "prefix_products (x # xs) prefix acc = prefix_products xs (prefix @ [acc]) (acc * x)"

definition batch_invert :: "('fe::field, 'sc, 'ep, 'pt) k256 \<Rightarrow> 'fe list \<Rightarrow> 'fe list option" where
  "batch_invert K xs =
     (let n = length xs; (prefix, acc) = prefix_products xs [] 1
      in Option.bind (fe_invert K acc) (\<lambda>inv.
           Some (fst (fold (\<lambda>i (out, inv). (out[i := prefix ! i * inv], inv * xs ! i))
                        (rev [0..<n]) (replicate n 1, inv)))))"

definition jac_double :: "'fe::field \<Rightarrow> 'fe \<Rightarrow> 'fe \<Rightarrow> 'fe \<times> 'fe \<times> 'fe" where
  "jac_double x y z =
     (let a = x * x; b = y * y; c = b * b;
          d0 = (x + b) * (x + b) - a - c; d = d0 + d0;
          e = (a + a) + a; f = e * e;
          x3 = f - d - d; c8 = 8 * c;
          y3 = e * (d - x3) - c8; z3 = y * z + y * z
      in (x3, y3, z3))"

definition jac_madd :: "'fe::field \<Rightarrow> 'fe \<Rightarrow> 'fe \<Rightarrow> 'fe \<Rightarrow> 'fe \<Rightarrow> 'fe \<times> 'fe \<times> 'fe" where
  "jac_madd x1 y1 z1 x2 y2 =
     (let z1z1 = z1 * z1; u2 = x2 * z1z1; s2 = y2 * z1 * z1z1;
          h = u2 - x1; r = s2 - y1; hh = h * h; hhh = h * hh; x1hh = x1 * hh;
          x3 = r * r - hhh - x1hh - x1hh;
          y3 = r * (x1hh - x3) - y1 * hhh; z3 = h * z1
      in (x3, y3, z3))"

section \<open>The replay\<close>

text \<open>The loop that records the points of the ladder after the given one.\<close>

fun jac_ladder :: "'fe::field \<Rightarrow> 'fe \<Rightarrow> sched_row list \<Rightarrow> 'fe \<times> 'fe \<times> 'fe \<Rightarrow> ('fe \<times> 'fe \<times> 'fe) list" where
  "jac_ladder gx gy [] p = []"
| "jac_ladder gx gy ((rnd, oper, next_op) # sched) (ax, ay, az) =
     (let p = (if oper = 0 then jac_double ax ay az else jac_madd ax ay az gx gy)
      in p # jac_ladder gx gy sched p)"

definition affine_of_fe :: "('fe, 'sc, 'ep, 'pt) k256 \<Rightarrow> 'fe \<times> 'fe \<Rightarrow> AffinePoint" where
  "affine_of_fe K p = \<lparr>x_coord = biguint_from_fe K (fst p), y_coord = biguint_from_fe K (snd p)\<rparr>"

definition jac_to_affine :: "'fe::field \<times> 'fe \<times> 'fe \<Rightarrow> 'fe \<Rightarrow> 'fe \<times> 'fe" where
  "jac_to_affine p zi = (case p of (x, y, z) \<Rightarrow> (let zi2 = zi * zi in (x * zi2, y * zi2 * zi)))"

definition slope_denom :: "'fe::field \<Rightarrow> u8 \<Rightarrow> 'fe \<times> 'fe \<Rightarrow> 'fe" where
  "slope_denom gx oper a = (if oper = 1 then gx - fst a else (let ya = snd a in ya + ya))"

definition slope_num :: "'fe::field \<Rightarrow> u8 \<Rightarrow> 'fe \<times> 'fe \<Rightarrow> 'fe" where
  "slope_num gy oper a =
     (if oper = 1 then gy - snd a else (let x2 = fst a * fst a in x2 + x2 + x2))"

definition replay_double_and_add ::
  "('fe::field, 'sc, 'ep, 'pt) k256 \<Rightarrow> nat \<Rightarrow> AffinePoint \<Rightarrow> (StepPts list \<times> AffinePoint) option" where
  "replay_double_and_add K k g =
     (let sched = schedule k
      in if sched = [] then Some ([], g)
         else
           (let n = length sched
            in Option.bind (fe_from_biguint K (x_coord g)) (\<lambda>gx.
               Option.bind (fe_from_biguint K (y_coord g)) (\<lambda>gy.
               (let pts = (gx, gy, 1) # jac_ladder gx gy sched (gx, gy, 1);
                    zs = map (\<lambda>p. snd (snd p)) pts
                in Option.bind (batch_invert K zs) (\<lambda>zinvs.
                   (let aff_fe = map2 jac_to_affine pts zinvs;
                        aff = map (affine_of_fe K) aff_fe;
                        denoms = map (\<lambda>i. slope_denom gx (fst (snd (sched ! i))) (aff_fe ! i)) [0..<n]
                    in Option.bind (batch_invert K denoms) (\<lambda>inv_denoms.
                       (let steps = map (\<lambda>i.
                              (case sched ! i of (rnd, oper, next_op) \<Rightarrow>
                                \<lparr>step_a = aff ! i, step_g = g, step_round = rnd, step_op = oper,
                                 step_next_op = next_op, step_r = aff ! (i + 1),
                                 step_lambda = biguint_from_fe K
                                   (slope_num gy oper (aff_fe ! i) * inv_denoms ! i)\<rparr>)) [0..<n]
                        in Some (steps, aff ! n))))))))))"

section \<open>The schedule computes the scalar\<close>

text \<open>The rows for one bit of the scalar, and the multiple of the base point that a list of rows
  computes from a given multiple.\<close>

definition sched_block :: "nat \<Rightarrow> nat \<Rightarrow> sched_row list" where
  "sched_block k r = (if bit k r then [(of_nat r, 0, 1), (of_nat r, 1, 0)] else [(of_nat r, 0, 0)])"

definition sched_multiple :: "sched_row list \<Rightarrow> nat \<Rightarrow> nat" where
  "sched_multiple = fold (\<lambda>(rnd, oper, next_op) c. if oper = 0 then 2 * c else c + 1)"

text \<open>Each row announces the operation of the next one, and the last announces a doubling.\<close>

fun sched_linked :: "sched_row list \<Rightarrow> bool" where
  "sched_linked [] \<longleftrightarrow> True"
| "sched_linked [(_, _, next_op)] \<longleftrightarrow> next_op = 0"
| "sched_linked ((_, _, next_op) # (r, oper, n) # rows) \<longleftrightarrow> next_op = oper \<and> sched_linked ((r, oper, n) # rows)"

lemma sched_loop_add:
  "sched_loop k (int r) 1 acc =
     (if r = 0 then acc @ [(0, 1, 0)] else sched_loop k (int r - 1) 0 (acc @ [(of_nat r, 1, 0)]))"
  by (subst sched_loop.simps) (simp add: Let_def)

lemma sched_loop_double:
  "sched_loop k (int r) 0 acc =
     (if bit k r then sched_loop k (int r) 1 (acc @ [(of_nat r, 0, 1)])
      else if r = 0 then acc @ [(0, 0, 0)] else sched_loop k (int r - 1) 0 (acc @ [(of_nat r, 0, 0)]))"
  by (subst sched_loop.simps) (simp add: Let_def)

lemma sched_loop_blocks:
  "sched_loop k (int r) 0 acc = acc @ concat (map (sched_block k) (rev [0..<Suc r]))"
proof (induction r arbitrary: acc)
  case 0
  then show ?case using sched_loop_add [of k 0] sched_loop_double [of k 0 acc] by (simp add: sched_block_def)
next
  case (Suc r)
  have r: "int (Suc r) - 1 = int r" by simp
  show ?case
    unfolding sched_loop_double [of k "Suc r" acc] sched_loop_add [of k "Suc r"] r Suc.IH
    by (simp add: sched_block_def [of k "Suc r"])
qed

lemma biguint_bits_bounds:
  "0 < v \<Longrightarrow> 2 ^ (biguint_bits v - 1) \<le> v \<and> v < 2 ^ biguint_bits v"
proof (induction v rule: biguint_bits.induct)
  case (1 v)
  show ?case
  proof (cases "v = 1")
    case False
    then have p: "0 < v div 2" using 1(2) by simp
    then have b: "0 < biguint_bits (v div 2)" by (subst biguint_bits.simps) simp
    have bits: "biguint_bits v = Suc (biguint_bits (v div 2))" using 1(2) by (subst biguint_bits.simps) simp
    have ih: "2 ^ (biguint_bits (v div 2) - 1) \<le> v div 2" "v div 2 < 2 ^ biguint_bits (v div 2)"
      using 1(1) [OF _ p] 1(2) by auto
    have "2 * 2 ^ (biguint_bits (v div 2) - 1) \<le> v" using ih(1) by linarith
    moreover have "2 * 2 ^ (biguint_bits (v div 2) - 1) = (2::nat) ^ biguint_bits (v div 2)"
      using b by (metis Suc_diff_1 power_Suc)
    moreover have "v < 2 * 2 ^ biguint_bits (v div 2)" using ih(2) by linarith
    ultimately show ?thesis by (simp add: bits)
  qed simp
qed

lemma biguint_bits_le: "v < 2 ^ n \<Longrightarrow> biguint_bits v \<le> n"
proof (cases "v = 0")
  case False
  assume v: "v < 2 ^ n"
  from False have "(2::nat) ^ (biguint_bits v - 1) < 2 ^ n"
    using le_less_trans [OF conjunct1 [OF biguint_bits_bounds [of v]] v] by blast
  then have "biguint_bits v - 1 < n" by (metis one_less_numeral_iff power_less_imp_less_exp semiring_norm(76))
  then show ?thesis by simp
qed (simp add: biguint_bits.simps)

lemma msb_position_uint:
  assumes "0 < k" "k < 2 ^ 256"
  shows "uint (msb_position k) = int (biguint_bits k - 1)" "0 < biguint_bits k"
proof -
  show pos: "0 < biguint_bits k" using assms(1) by (subst biguint_bits.simps) simp
  have "(of_nat (biguint_bits k) - 1 :: u32) = of_nat (biguint_bits k - 1)"
    using pos by (simp add: of_nat_diff)
  moreover have "biguint_bits k - 1 < 2 ^ 32"
    using biguint_bits_le [OF assms(2)] by simp
  ultimately show "uint (msb_position k) = int (biguint_bits k - 1)"
    using unat_of_nat_less [of "biguint_bits k - 1", where 'a = 32]
    by (simp add: msb_position_def uint_nat)
qed

lemma schedule_blocks:
  assumes "0 < k" "k < 2 ^ 256"
  shows "schedule k = concat (map (sched_block k) (rev [0..<biguint_bits k - 1]))"
proof (cases "biguint_bits k - 1")
  case 0
  then show ?thesis
    by (simp add: schedule_def msb_position_uint [OF assms] sched_loop.simps)
next
  case (Suc r)
  then have "uint (msb_position k) - 1 = int r" by (simp add: msb_position_uint(1) [OF assms])
  then show ?thesis unfolding schedule_def Suc using sched_loop_blocks [of k r "[]"] by simp
qed

lemma sched_multiple_simps [simp]:
  "sched_multiple [] c = c"
  "sched_multiple ((r, oper, n) # rows) c = sched_multiple rows (if oper = 0 then 2 * c else c + 1)"
  "sched_multiple (rows @ rows') c = sched_multiple rows' (sched_multiple rows c)"
  by (auto simp: sched_multiple_def)

lemma sched_multiple_block: "sched_multiple (sched_block k r) (k div 2 ^ Suc r) = k div 2 ^ r"
proof -
  have "k div 2 ^ Suc r = k div 2 ^ r div 2" by (metis div_mult2_eq mult.commute power_Suc)
  moreover have "bit k r = odd (k div 2 ^ r)" by (simp add: bit_iff_odd)
  ultimately show ?thesis by (auto simp: sched_block_def)
qed

lemma sched_multiple_blocks:
  "sched_multiple (concat (map (sched_block k) (rev [0..<n]))) (k div 2 ^ n) = k"
proof (induction n)
  case (Suc n)
  then show ?case using sched_multiple_block [of k n] by simp
qed simp

lemma sched_linked_blocks:
  "sched_linked rows \<Longrightarrow> (\<forall>r oper n xs. rows = (r, oper, n) # xs \<longrightarrow> oper = 0) \<Longrightarrow>
     sched_linked (sched_block k r @ rows)"
  by (cases rows rule: sched_linked.cases) (auto simp: sched_block_def)

lemma sched_linked_schedule: "sched_linked (concat (map (sched_block k) (rev [0..<n])))"
proof (induction n)
  case (Suc n)
  have "oper = 0" if "concat (map (sched_block k) (rev [0..<n])) = (r, oper, m) # xs" for r oper m xs
    using that by (cases n) (auto simp: sched_block_def split: if_splits)
  then show ?case using sched_linked_blocks [OF Suc] by auto
qed simp

text \<open>C24: the schedule of the accelerator computes the scalar. For a scalar in range, the rows,
  read as doublings and additions of the base point from the base point itself on, give the
  scalar-fold multiple; every row announces the operation of the next one, starting with a
  doubling and ending without a pending addition, and there are at most two rows for each bit
  below the most significant one.\<close>

theorem schedule_computes_scalar:
  assumes "0 < k" "k < 2 ^ 256"
  shows "sched_multiple (schedule k) 1 = k \<and> sched_linked (schedule k)
    \<and> (\<forall>r oper n xs. schedule k = (r, oper, n) # xs \<longrightarrow> oper = 0)
    \<and> length (schedule k) \<le> 2 * unat (msb_position k) \<and> unat (msb_position k) < 256"
proof -
  let ?n = "biguint_bits k - 1"
  note s = schedule_blocks [OF assms]
  have n: "unat (msb_position k) = ?n" using msb_position_uint(1) [OF assms] by (simp add: unat_eq_nat_uint)
  have "2 ^ ?n \<le> k \<and> k < 2 ^ Suc ?n"
    using biguint_bits_bounds [OF assms(1)] msb_position_uint(2) [OF assms] by simp
  then have "k div 2 ^ ?n = 1"
    by (metis Suc_1 div_less_iff_less_mult div_greater_zero_iff less_2_cases_iff less_Suc_eq_le
        linorder_not_less nat_neq_iff power_Suc zero_less_numeral zero_less_power)
  then have "sched_multiple (schedule k) 1 = k" unfolding s using sched_multiple_blocks [of k ?n] by simp
  moreover have "oper = 0" if "schedule k = (r, oper, m) # xs" for r oper m xs
    using that unfolding s by (cases ?n) (auto simp: sched_block_def split: if_splits)
  moreover have "length (schedule k) \<le> 2 * ?n"
  proof -
    have "length (concat (map (sched_block k) (rev [0..<m]))) \<le> 2 * m" for m
      by (induction m) (auto simp: sched_block_def)
    then show ?thesis unfolding s .
  qed
  ultimately show ?thesis
    using sched_linked_schedule [of k ?n] biguint_bits_le [OF assms(2)] msb_position_uint(2) [OF assms]
    by (auto simp: s n)
qed

lemma schedule_sample: "schedule 5 = [(1, 0, 0), (0, 0, 1), (0, 1, 0)]"
proof -
  have b: "biguint_bits 5 - 1 = 2" by (simp add: biguint_bits.simps [of 5] biguint_bits.simps [of 2])
  show ?thesis using schedule_blocks [of 5] unfolding b
    by (simp add: sched_block_def upt_rec bit_iff_odd)
qed

theorem schedule_computes_scalar_witness:
  "sched_multiple [(1, 0, 0), (0, 0, 1), (0, 1, 0)] 1 = 5"
  using schedule_computes_scalar [of 5] by (simp add: schedule_sample)

section \<open>The replay is the affine double-and-add\<close>

text \<open>What the sources rely on of the field elements of \<open>k256\<close>: inversion fails exactly for zero,
  and the bytes of a decoded element are the ones it was decoded from.\<close>

definition k256_field_laws :: "('fe::field, 'sc, 'ep, 'pt) k256 \<Rightarrow> bool" where
  "k256_field_laws K \<longleftrightarrow> (\<forall>x. fe_invert K x = (if x = 0 then None else Some (inverse x)))
     \<and> (\<forall>bs f. fe_from_bytes K bs = Some f \<longrightarrow> fe_to_bytes K f = bs)"

lemma prefix_products_eq:
  "prefix_products xs prefix acc =
     (prefix @ map (\<lambda>i. acc * prod_list (take i xs)) [0..<length xs], acc * prod_list xs)"
proof (induction xs arbitrary: prefix acc)
  case (Cons x xs)
  have "map (\<lambda>i. acc * prod_list (take i (x # xs))) [0..<length (x # xs)]
      = acc # map (\<lambda>i. acc * x * prod_list (take i xs)) [0..<length xs]"
    by (simp add: upt_conv_Cons map_Suc_upt [symmetric] mult.assoc del: upt_Suc map_Suc_upt)
  then show ?case using Cons by (simp add: mult.assoc)
qed simp

text \<open>After the elements from position \<open>k\<close> on, the backward loop has their inverses and the inverse
  of the product of the elements before.\<close>

lemma batch_invert_loop:
  fixes xs :: "'fe::field list"
  assumes "0 \<notin> set xs" "k \<le> length xs"
  shows "fold (\<lambda>i (out, inv). (out[i := prod_list (take i xs) * inv], inv * xs ! i))
           (rev [k..<length xs]) (replicate (length xs) 1, inverse (prod_list xs))
     = (replicate k 1 @ map inverse (drop k xs), inverse (prod_list (take k xs)))"
  using assms(2)
proof (induction k rule: inc_induct)
  case (step k)
  then have k: "k < length xs" by simp
  have x: "xs ! k \<noteq> 0" using assms(1) k by (metis nth_mem)
  have p: "prod_list (take k xs) \<noteq> 0" using assms(1) by (auto simp: prod_list_zero_iff dest: in_set_takeD)
  have rep: "replicate (Suc k) (1::'fe) = replicate k 1 @ [1]" by (simp add: replicate_append_same)
  have t: "prod_list (take (Suc k) xs) = prod_list (take k xs) * xs ! k"
    using k by (simp add: take_Suc_conv_app_nth)
  have "(replicate (Suc k) 1 @ map inverse (drop (Suc k) xs))[k := inverse (xs ! k)]
      = replicate k 1 @ map inverse (drop k xs)"
    unfolding rep using k by (simp add: list_update_append Cons_nth_drop_Suc [symmetric])
  moreover have "prod_list (take k xs) * inverse (prod_list (take (Suc k) xs)) = inverse (xs ! k)"
    "inverse (prod_list (take (Suc k) xs)) * xs ! k = inverse (prod_list (take k xs))"
    using x p by (simp_all add: t)
  ultimately show ?case unfolding upt_conv_Cons [OF k] rev.simps fold_append fold_simps comp_apply step.IH
    by (simp del: replicate_Suc)
qed simp

lemma batch_invert_eq:
  assumes "k256_field_laws K"
  shows "batch_invert K xs = (if 0 \<in> set xs then None else Some (map inverse xs))"
proof -
  have z: "prod_list xs = 0 \<longleftrightarrow> 0 \<in> set xs" by (rule prod_list_zero_iff)
  have c: "fold (\<lambda>i (out, inv). (out[i := map (\<lambda>i. prod_list (take i xs)) [0..<length xs] ! i * inv], inv * xs ! i))
           (rev [0..<length xs]) s
      = fold (\<lambda>i (out, inv). (out[i := prod_list (take i xs) * inv], inv * xs ! i)) (rev [0..<length xs]) s"
    for s :: "'a list \<times> 'a"
    by (rule fold_cong) auto
  show ?thesis
    using assms batch_invert_loop [of xs 0]
    by (auto simp: batch_invert_def prefix_products_eq k256_field_laws_def z c Let_def)
qed

text \<open>The reference: affine doubling and addition of the base point, with their slopes.\<close>

definition affine_slope :: "'fe::field \<times> 'fe \<Rightarrow> u8 \<Rightarrow> 'fe \<times> 'fe \<Rightarrow> 'fe" where
  "affine_slope g oper a =
     (if oper = 0 then 3 * fst a ^ 2 / (2 * snd a) else (snd g - snd a) / (fst g - fst a))"

definition affine_step :: "'fe::field \<times> 'fe \<Rightarrow> u8 \<Rightarrow> 'fe \<times> 'fe \<Rightarrow> 'fe \<times> 'fe" where
  "affine_step g oper a =
     (let l = affine_slope g oper a;
          xr = l ^ 2 - fst a - (if oper = 0 then fst a else fst g)
      in (xr, l * (fst a - xr) - snd a))"

definition step_defined :: "'fe::field \<times> 'fe \<Rightarrow> u8 \<Rightarrow> 'fe \<times> 'fe \<Rightarrow> bool" where
  "step_defined g oper a \<longleftrightarrow> (if oper = 0 then 2 * snd a \<noteq> 0 else fst a \<noteq> fst g)"

fun affine_ladder :: "'fe::field \<times> 'fe \<Rightarrow> sched_row list \<Rightarrow> 'fe \<times> 'fe \<Rightarrow> ('fe \<times> 'fe) list" where
  "affine_ladder g [] a = []"
| "affine_ladder g ((rnd, oper, next_op) # sched) a =
     affine_step g oper a # affine_ladder g sched (affine_step g oper a)"

fun ladder_defined :: "'fe::field \<times> 'fe \<Rightarrow> sched_row list \<Rightarrow> 'fe \<times> 'fe \<Rightarrow> bool" where
  "ladder_defined g [] a \<longleftrightarrow> True"
| "ladder_defined g ((rnd, oper, next_op) # sched) a \<longleftrightarrow>
     step_defined g oper a \<and> ladder_defined g sched (affine_step g oper a)"

text \<open>Jacobian coordinates of an affine point.\<close>

definition jac_rep :: "'fe::field \<times> 'fe \<times> 'fe \<Rightarrow> 'fe \<times> 'fe \<Rightarrow> bool" where
  "jac_rep p a \<longleftrightarrow> (case p of (x, y, z) \<Rightarrow> z \<noteq> 0 \<and> x = fst a * z ^ 2 \<and> y = snd a * z ^ 3)"

lemma jac_double_rep:
  assumes "jac_rep (x, y, z) a"
  shows "if step_defined g 0 a then jac_rep (jac_double x y z) (affine_step g 0 a)
    else snd (snd (jac_double x y z)) = 0"
proof -
  obtain u v where a: "a = (u, v)" by (cases a)
  define l where "l = affine_slope g 0 a"
  have z: "z \<noteq> 0" "x = u * z ^ 2" "y = v * z ^ 3" using assms by (auto simp: jac_rep_def a)
  have z3: "y * z + y * z = 2 * v * z ^ 4" by (simp add: z(3) power_def algebra_simps numeral_eq_Suc)
  show ?thesis
  proof (cases "2 * v = 0")
    case False
    then have l: "l * (2 * v) = 3 * u ^ 2" by (simp add: l_def affine_slope_def a)
    define d where "d = ((x + y * y) * (x + y * y) - x * x - y * y * (y * y)) + ((x + y * y) * (x + y * y) - x * x - y * y * (y * y))"
    define e where "e = (x * x + x * x) + x * x"
    define x3 where "x3 = e * e - d - d"
    have d: "d = 4 * u * v ^ 2 * z ^ 8" unfolding d_def z(2,3) by algebra
    have e: "e = l * (2 * v) * z ^ 4" unfolding e_def z(2) l by algebra
    have x3: "x3 = (l ^ 2 - u - u) * (2 * v * z ^ 4) ^ 2" unfolding x3_def d e by algebra
    have y3: "e * (d - x3) - 8 * (y * y * (y * y)) = (l * (u - (l ^ 2 - u - u)) - v) * (2 * v * z ^ 4) ^ 3"
      unfolding d e x3 z(3) by algebra
    have j: "jac_double x y z = (x3, e * (d - x3) - 8 * (y * y * (y * y)), 2 * v * z ^ 4)"
      by (simp add: jac_double_def Let_def z3 d_def e_def x3_def)
    have s: "affine_step g 0 a = (l ^ 2 - u - u, l * (u - (l ^ 2 - u - u)) - v)"
      unfolding affine_step_def Let_def l_def [symmetric] by (simp add: a)
    have "step_defined g 0 a" using False by (simp add: step_defined_def a)
    moreover have "2 * v * z ^ 4 \<noteq> 0" using False z(1) by simp
    ultimately show ?thesis
      unfolding j s jac_rep_def using x3 y3 by simp
  qed (simp add: step_defined_def a jac_double_def Let_def z3)
qed

lemma jac_madd_rep:
  assumes "jac_rep (x, y, z) a" "oper \<noteq> 0"
  shows "if step_defined g oper a then jac_rep (jac_madd x y z (fst g) (snd g)) (affine_step g oper a)
    else snd (snd (jac_madd x y z (fst g) (snd g))) = 0"
proof -
  obtain u v where a: "a = (u, v)" by (cases a)
  obtain p q where g: "g = (p, q)" by (cases g)
  define l where "l = affine_slope g oper a"
  have z: "z \<noteq> 0" "x = u * z ^ 2" "y = v * z ^ 3" using assms by (auto simp: jac_rep_def a)
  define h where "h = p * (z * z) - x"
  define r where "r = q * z * (z * z) - y"
  have h: "h = (p - u) * z ^ 2" unfolding h_def z by algebra
  show ?thesis
  proof (cases "u = p")
    case False
    then have l: "l * (p - u) = q - v" by (simp add: l_def affine_slope_def a g assms(2))
    have r: "r = l * (p - u) * z ^ 3" unfolding r_def z l by algebra
    define x3 where "x3 = r * r - h * (h * h) - x * (h * h) - x * (h * h)"
    have x3: "x3 = (l ^ 2 - u - p) * (h * z) ^ 2" unfolding x3_def r h z by algebra
    have y3: "r * (x * (h * h) - x3) - y * (h * (h * h)) = (l * (u - (l ^ 2 - u - p)) - v) * (h * z) ^ 3"
      unfolding x3 r h z by algebra
    have j: "jac_madd x y z p q = (x3, r * (x * (h * h) - x3) - y * (h * (h * h)), h * z)"
      by (simp add: jac_madd_def Let_def h_def r_def x3_def)
    have s: "affine_step g oper a = (l ^ 2 - u - p, l * (u - (l ^ 2 - u - p)) - v)"
      unfolding affine_step_def Let_def l_def [symmetric] by (simp add: a g assms(2))
    have "step_defined g oper a" using False by (simp add: step_defined_def a g assms(2))
    moreover have "h * z \<noteq> 0" using False z(1) by (simp add: h)
    ultimately show ?thesis unfolding g fst_conv snd_conv j s [unfolded g] jac_rep_def using x3 y3 by simp
  next
    case True
    then have "jac_madd x y z p q = (x3, y3, 0)" if "jac_madd x y z p q = (x3, y3, z3)" for x3 y3 z3
      using that h by (auto simp: jac_madd_def Let_def h_def)
    then show ?thesis using True by (cases "jac_madd x y z p q") (auto simp: step_defined_def a g assms(2))
  qed
qed

lemma jac_ladder_rep:
  assumes "jac_rep p a"
  shows "if ladder_defined g sched a
    then list_all2 jac_rep (jac_ladder (fst g) (snd g) sched p) (affine_ladder g sched a)
    else 0 \<in> (\<lambda>p. snd (snd p)) ` set (jac_ladder (fst g) (snd g) sched p)"
  using assms
proof (induction sched arbitrary: p a)
  case (Cons row sched)
  obtain r oper n where row: "row = (r, oper, n)" by (metis prod_cases3)
  obtain x y z where p: "p = (x, y, z)" by (metis prod_cases3)
  define q where "q = (if oper = 0 then jac_double x y z else jac_madd x y z (fst g) (snd g))"
  have st: "if step_defined g oper a then jac_rep q (affine_step g oper a) else snd (snd q) = 0"
    using jac_double_rep [of x y z a g] jac_madd_rep [of x y z a oper g] Cons.prems by (simp add: q_def p)
  have l: "jac_ladder (fst g) (snd g) (row # sched) p = q # jac_ladder (fst g) (snd g) sched q"
    by (simp add: row p q_def Let_def)
  show ?case
  proof (cases "step_defined g oper a")
    case True
    then show ?thesis using Cons.IH [of q "affine_step g oper a"] st unfolding l by (auto simp: row)
  next
    case False
    then have "snd (snd q) = 0" using st by simp
    then show ?thesis using False unfolding l by (force simp: row)
  qed
qed simp

lemma jac_to_affine_rep: "jac_rep p a \<Longrightarrow> jac_to_affine p (inverse (snd (snd p))) = a"
  by (cases p, cases a) (simp add: jac_rep_def jac_to_affine_def Let_def field_simps power2_eq_square power3_eq_cube)

lemma jac_to_affine_ladder:
  "list_all2 jac_rep ps as \<Longrightarrow> map2 jac_to_affine ps (map inverse (map (\<lambda>p. snd (snd p)) ps)) = as"
  by (induction rule: list_all2_induct) (simp_all add: jac_to_affine_rep)

lemma ladder_nonzero: "list_all2 jac_rep ps as \<Longrightarrow> 0 \<notin> set (map (\<lambda>p. snd (snd p)) ps)"
  by (induction rule: list_all2_induct) (auto simp: jac_rep_def)

lemma length_affine_ladder [simp]: "length (affine_ladder g sched a) = length sched"
  by (induction g sched a rule: affine_ladder.induct) auto

lemma ladder_step_defined:
  "ladder_defined g sched a \<Longrightarrow> i < length sched \<Longrightarrow>
     step_defined g (fst (snd (sched ! i))) ((a # affine_ladder g sched a) ! i)"
proof (induction g sched a arbitrary: i rule: ladder_defined.induct)
  case (2 g rnd oper next_op sched a)
  then show ?case by (cases i) auto
qed simp

lemma slope_cases:
  "slope_denom p 0 a = 2 * snd a" "slope_num q 0 a = 3 * fst a ^ 2"
  "slope_denom p 1 a = p - fst a" "slope_num q 1 a = q - snd a"
proof -
  show "slope_denom p 0 a = 2 * snd a" by (simp only: slope_denom_def Let_def zero_neq_one if_False mult_2)
  have "x + x + x = 3 * x" for x :: 'a by algebra
  then show "slope_num q 0 a = 3 * fst a ^ 2"
    by (simp only: slope_num_def Let_def zero_neq_one if_False power2_eq_square)
qed (simp_all add: slope_denom_def slope_num_def)

lemma slope_quotient:
  "oper = 0 \<or> oper = 1 \<Longrightarrow> slope_num (snd g) oper a * inverse (slope_denom (fst g) oper a) = affine_slope g oper a"
  by (elim disjE) (simp_all only: slope_cases affine_slope_def divide_inverse if_True if_False one_neq_zero simp_thms)

lemma slope_denom_nonzero:
  "oper = 0 \<or> oper = 1 \<Longrightarrow> slope_denom (fst g) oper a \<noteq> 0 \<longleftrightarrow> step_defined g oper a"
  by (elim disjE) (auto simp only: slope_cases step_defined_def if_True if_False one_neq_zero right_minus_eq simp_thms)

text \<open>The denominators of the slopes of a defined ladder, and the slopes.\<close>

lemma ladder_slopes:
  fixes g :: "'fe::field \<times> 'fe"
  assumes "ladder_defined g s a"
    and op01: "\<And>i. i < length s \<Longrightarrow> fst (snd (s ! i)) = 0 \<or> fst (snd (s ! i)) = 1"
  shows "0 \<notin> set (map (\<lambda>i. slope_denom (fst g) (fst (snd (s ! i))) ((a # affine_ladder g s a) ! i)) [0..<length s])"
    "i < length s \<Longrightarrow> slope_num (snd g) (fst (snd (s ! i))) ((a # affine_ladder g s a) ! i)
       * inverse (map (\<lambda>i. slope_denom (fst g) (fst (snd (s ! i))) ((a # affine_ladder g s a) ! i)) [0..<length s] ! i)
     = affine_slope g (fst (snd (s ! i))) ((a # affine_ladder g s a) ! i)"
proof -
  have "slope_denom (fst g) (fst (snd (s ! i))) ((a # affine_ladder g s a) ! i) \<noteq> 0" if "i < length s" for i
    using slope_denom_nonzero [OF op01 [OF that], of g] ladder_step_defined [OF assms(1) that] by blast
  then show "0 \<notin> set (map (\<lambda>i. slope_denom (fst g) (fst (snd (s ! i))) ((a # affine_ladder g s a) ! i)) [0..<length s])"
    by fastforce
qed (use slope_quotient [OF op01, of i] in simp)

text \<open>The replay in affine coordinates: each step with its points and its slope.\<close>

fun affine_replay :: "('fe::field, 'sc, 'ep, 'pt) k256 \<Rightarrow> AffinePoint \<Rightarrow> 'fe \<times> 'fe \<Rightarrow> sched_row list
    \<Rightarrow> 'fe \<times> 'fe \<Rightarrow> StepPts list \<times> AffinePoint" where
  "affine_replay K g gp [] a = ([], affine_of_fe K a)"
| "affine_replay K g gp ((rnd, oper, next_op) # sched) a =
     (let r = affine_step gp oper a; (steps, res) = affine_replay K g gp sched r
      in (\<lparr>step_a = affine_of_fe K a, step_g = g, step_round = rnd, step_op = oper,
           step_next_op = next_op, step_r = affine_of_fe K r,
           step_lambda = biguint_from_fe K (affine_slope gp oper a)\<rparr> # steps, res))"

lemma affine_replay_map:
  "affine_replay K g gp sched a =
     (let pts = a # affine_ladder gp sched a
      in (map (\<lambda>i. case sched ! i of (rnd, oper, next_op) \<Rightarrow>
             \<lparr>step_a = affine_of_fe K (pts ! i), step_g = g, step_round = rnd, step_op = oper,
              step_next_op = next_op, step_r = affine_of_fe K (pts ! (i + 1)),
              step_lambda = biguint_from_fe K (affine_slope gp oper (pts ! i))\<rparr>) [0..<length sched],
          affine_of_fe K (pts ! length sched)))"
proof (induction K g gp sched a rule: affine_replay.induct)
  case (2 K g gp rnd oper next_op sched a)
  show ?case
    by (simp add: 2 Let_def upt_conv_Cons map_Suc_upt [symmetric] comp_def del: upt_Suc map_Suc_upt)
qed simp

section \<open>Properties of the replay\<close>

lemma affine_of_fe_decoded:
  assumes "k256_field_laws K" "fe_from_biguint K (x_coord g) = Some gx" "fe_from_biguint K (y_coord g) = Some gy"
  shows "affine_of_fe K (gx, gy) = (g :: AffinePoint)"
proof -
  have v: "biguint_from_fe K f = v" if "fe_from_biguint K v = Some f" for v f
    using that assms(1) be32_Some(1) [of v]
    by (auto simp: fe_from_biguint_def biguint_from_fe_def k256_field_laws_def bind_eq_Some_conv)
  then show ?thesis using assms(2,3) by (simp add: affine_of_fe_def v)
qed

lemma schedule_valid:
  assumes "0 < k" "k < 2 ^ 256" "i < length (schedule k)"
  shows "fst (snd (schedule k ! i)) = 0 \<or> fst (snd (schedule k ! i)) = 1"
proof -
  have "fst (snd row) = 0 \<or> fst (snd row) = 1" if "row \<in> set (schedule k)" for row
    using that unfolding schedule_blocks [OF assms(1,2)] by (auto simp: sched_block_def split: if_splits)
  then show ?thesis using assms(3) by simp
qed

text \<open>C25: the Jacobian replay is the affine double-and-add. For a base point whose coordinates
  decode to field elements, the replay with its two batched inversions gives exactly the points,
  the slopes and the result of the affine chord-and-tangent ladder along the schedule of the
  scalar, if every step of that ladder is defined (no doubling of a point of order two, no addition
  of a point with the same abscissa); otherwise it panics.\<close>

theorem replay_is_affine_ladder:
  assumes "k256_field_laws K" "0 < k" "k < 2 ^ 256"
    "fe_from_biguint K (x_coord g) = Some gx" "fe_from_biguint K (y_coord g) = Some gy"
  shows "replay_double_and_add K k g =
    (if ladder_defined (gx, gy) (schedule k) (gx, gy)
     then Some (affine_replay K g (gx, gy) (schedule k) (gx, gy)) else None)"
proof (cases "schedule k = []")
  case True
  then show ?thesis using affine_of_fe_decoded [OF assms(1,4,5)] by (simp add: replay_double_and_add_def)
next
  case ne: False
  let ?s = "schedule k" and ?g = "(gx, gy)"
  define pts where "pts = (gx, gy, 1) # jac_ladder gx gy ?s (gx, gy, 1)"
  define zs where "zs = map (\<lambda>p. snd (snd p)) pts"
  have rep: "jac_rep (gx, gy, 1) ?g" by (simp add: jac_rep_def)
  note lad = jac_ladder_rep [OF rep, of ?g ?s, unfolded fst_conv snd_conv]
  show ?thesis
  proof (cases "ladder_defined ?g ?s ?g")
    case False
    then have "0 \<in> (\<lambda>p. snd (snd p)) ` set (jac_ladder gx gy ?s (gx, gy, 1))" using lad by simp
    then show ?thesis using False ne
      by (simp add: replay_double_and_add_def assms(4,5) batch_invert_eq [OF assms(1)] Let_def)
  next
    case True
    define as where "as = ?g # affine_ladder ?g ?s ?g"
    have all: "list_all2 jac_rep pts as" using True lad rep by (simp add: pts_def as_def)
    have aff: "map2 jac_to_affine pts (map inverse zs) = as"
      using jac_to_affine_ladder [OF all] by (simp add: zs_def)
    have z: "0 \<notin> set zs" using ladder_nonzero [OF all] by (simp add: zs_def)
    define denoms where "denoms = map (\<lambda>i. slope_denom gx (fst (snd (?s ! i))) (as ! i)) [0..<length ?s]"
    note slopes = ladder_slopes [OF True schedule_valid [OF assms(2,3)], folded as_def, unfolded fst_conv snd_conv,
        folded denoms_def]
    have bz: "batch_invert K zs = Some (map inverse zs)" and bd: "batch_invert K denoms = Some (map inverse denoms)"
      using z slopes(1) by (simp_all add: batch_invert_eq [OF assms(1)])
    have l: "length as = Suc (length ?s)" "length denoms = length ?s" by (simp_all add: as_def denoms_def)
    have "replay_double_and_add K k g = Some (map (\<lambda>i. case ?s ! i of (rnd, oper, next_op) \<Rightarrow>
          \<lparr>step_a = map (affine_of_fe K) as ! i, step_g = g, step_round = rnd, step_op = oper,
           step_next_op = next_op, step_r = map (affine_of_fe K) as ! (i + 1),
           step_lambda = biguint_from_fe K (slope_num gy oper (as ! i) * map inverse denoms ! i)\<rparr>) [0..<length ?s],
        map (affine_of_fe K) as ! length ?s)"
      unfolding replay_double_and_add_def Let_def if_not_P [OF ne] assms(4,5) bind.bind_lunit
        pts_def [symmetric] zs_def [symmetric] bz aff denoms_def [symmetric] bd ..
    also have "\<dots> = Some (affine_replay K g ?g ?s ?g)"
      unfolding affine_replay_map Let_def as_def [symmetric]
      using l by (auto split: prod.splits) (metis fst_conv slopes(2) snd_conv)
    finally show ?thesis using True by simp
  qed
qed

text \<open>A concrete parameter: rational field elements, encoded by the bytes of their integral part.\<close>

definition k256_rat :: "(rat, unit, unit, unit) k256" where
  "k256_rat =
     \<lparr>fe_from_bytes = (\<lambda>bs. if length bs = 32 then Some (of_nat (from_bytes_be bs)) else None),
      fe_to_bytes = (\<lambda>f. case be32 (nat \<lfloor>f\<rfloor>) of Some bs \<Rightarrow> bs | None \<Rightarrow> []),
      fe_invert = (\<lambda>x. if x = 0 then None else Some (inverse x)), fe_sqrt = (\<lambda>_. None),
      sc_from_repr = (\<lambda>_. None), sc_to_bytes = (\<lambda>_. []), sc_invert = (\<lambda>_. None),
      ep_from_bytes = (\<lambda>_. None), ep_from_affine_coordinates = (\<lambda>_ _. ()), ep_x = (\<lambda>_. None),
      ep_y = (\<lambda>_. None), affine_from_encoded_point = (\<lambda>_. None),
      affine_to_encoded_point = (\<lambda>_. ()), point_mul = (\<lambda>_ _. ())\<rparr>"

lemma k256_rat_laws: "k256_field_laws k256_rat"
  by (auto simp: k256_field_laws_def k256_rat_def be32_from_bytes_be split: if_splits)

lemma k256_rat_decode: "v < 2 ^ 256 \<Longrightarrow> fe_from_biguint k256_rat v = Some (of_nat v)"
proof -
  assume "v < 2 ^ 256"
  then obtain bs where "be32 v = Some bs" by (simp add: be32_eq)
  then show ?thesis using be32_Some [of v bs] by (simp add: fe_from_biguint_def k256_rat_def)
qed

theorem replay_is_affine_ladder_witness:
  "\<exists>steps res. replay_double_and_add k256_rat 5 \<lparr>x_coord = 1, y_coord = 2\<rparr> = Some (steps, res)
     \<and> length steps = 3 \<and> map step_op steps = [0, 0, 1]"
proof -
  let ?g = "\<lparr>x_coord = 1, y_coord = 2\<rparr> :: AffinePoint"
  have g: "fe_from_biguint k256_rat (x_coord ?g) = Some 1" "fe_from_biguint k256_rat (y_coord ?g) = Some 2"
    using k256_rat_decode [of 1] k256_rat_decode [of 2] by simp_all
  have ok: "ladder_defined (1, 2) (schedule 5) (1, 2 :: rat)"
    by (simp add: schedule_sample step_defined_def affine_step_def affine_slope_def Let_def power2_eq_square)
  show ?thesis
    using replay_is_affine_ladder [OF k256_rat_laws _ _ g, of 5] ok
    by (simp add: schedule_sample Let_def split: prod.splits)
qed

end
