(* ===== verification/Merkle_Tree.thy ===== *)
theory Merkle_Tree
  imports Vm_Prelude
begin

text \<open>
  Merkle trees (\<^verbatim>\<open>crypto/crypto/src/merkle_tree\<close>): the flat node array and its construction, inclusion
  proofs for one leaf and for several, and their verification.  The backend trait is a record of its
  two hash functions.  Indices (\<open>usize\<close>) are natural numbers; where a sum of a caller's position can
  overflow, the wrap-around of the release profile is written out.  A panic (a slice out of range,
  the logarithm of zero) is the value \<open>None\<close>.  The \<open>disk-spill\<close> storage of the nodes, a feature of
  the build, is not modelled: nodes are in memory.
\<close>

unbundle bit_operations_syntax

section \<open>Backends\<close>

record ('d, 'n) merkle_backend =
  hash_data :: "'d \<Rightarrow> 'n"
  hash_new_parent :: "'n \<Rightarrow> 'n \<Rightarrow> 'n"

definition hash_leaves :: "('d, 'n) merkle_backend \<Rightarrow> 'd list \<Rightarrow> 'n list" where
  "hash_leaves B unhashed_leaves = map (hash_data B) unhashed_leaves"

text \<open>The byte-oriented backends over a digest and the byte encoding of field elements.\<close>

definition hash_streamed :: "(u8 list \<Rightarrow> u8 list) \<Rightarrow> u8 list list \<Rightarrow> u8 list" where
  "hash_streamed digest chunks = digest (concat chunks)"

definition field_element_backend ::
  "(u8 list \<Rightarrow> u8 list) \<Rightarrow> ('f \<Rightarrow> u8 list) \<Rightarrow> ('f, u8 list) merkle_backend" where
  "field_element_backend digest as_bytes =
     \<lparr>hash_data = (\<lambda>x. digest (as_bytes x)), hash_new_parent = (\<lambda>l r. digest (l @ r))\<rparr>"

definition field_element_pair_backend ::
  "(u8 list \<Rightarrow> u8 list) \<Rightarrow> ('f \<Rightarrow> u8 list) \<Rightarrow> ('f \<times> 'f, u8 list) merkle_backend" where
  "field_element_pair_backend digest as_bytes =
     \<lparr>hash_data = (\<lambda>(x, y). hash_streamed digest [as_bytes x, as_bytes y]),
      hash_new_parent = (\<lambda>l r. hash_streamed digest [l, r])\<rparr>"

definition hash_data_from_slices ::
  "(u8 list \<Rightarrow> u8 list) \<Rightarrow> ('f \<Rightarrow> u8 list) \<Rightarrow> 'f list \<Rightarrow> 'f list \<Rightarrow> u8 list" where
  "hash_data_from_slices digest as_bytes a b = hash_streamed digest (map as_bytes (a @ b))"

definition field_element_vector_backend ::
  "(u8 list \<Rightarrow> u8 list) \<Rightarrow> ('f \<Rightarrow> u8 list) \<Rightarrow> ('f list, u8 list) merkle_backend" where
  "field_element_vector_backend digest as_bytes =
     \<lparr>hash_data = (\<lambda>xs. hash_data_from_slices digest as_bytes xs []),
      hash_new_parent = (\<lambda>l r. hash_streamed digest [l, r])\<rparr>"

section \<open>Indices\<close>

definition ROOT :: nat where "ROOT = 0"

definition sibling_index :: "nat \<Rightarrow> nat" where
  "sibling_index i = (if i mod 2 = 0 then i - 1 else i + 1)"

definition parent_index :: "nat \<Rightarrow> nat" where
  "parent_index i = (if i mod 2 = 0 then (i - 1) div 2 else i div 2)"

definition get_sibling_pos :: "nat \<Rightarrow> nat option" where
  "get_sibling_pos i = (if i = 0 then None else if i mod 2 = 0 then Some (i - 1) else Some (i + 1))"

definition get_parent_pos :: "nat \<Rightarrow> nat" where
  "get_parent_pos i = (if i = 0 then i else if i mod 2 = 0 then (i - 1) div 2 else i div 2)"

text \<open>\<open>is_power_of_two\<close> of the tree, which is applied to positive numbers only.\<close>

definition is_power_of_two :: "nat \<Rightarrow> bool" where
  "is_power_of_two x \<longleftrightarrow> x AND (x - 1) = 0"

lemma is_power_of_two_double: "0 < m \<Longrightarrow> is_power_of_two (2 * m) \<longleftrightarrow> is_power_of_two m"
proof -
  assume m: "0 < m"
  then have "2 * m - 1 = 2 * (m - 1) + 1" by simp
  then have "2 * m AND (2 * m - 1) = 2 * (m AND (m - 1))"
    by (simp add: and_rec [of "2 * m"] and_rec [of "2 * m" "2 * m - 1"])
  then show ?thesis by (simp add: is_power_of_two_def)
qed

lemma is_power_of_two_odd: "is_power_of_two (2 * m + 1) \<longleftrightarrow> m = 0"
proof -
  have "(2 * m + 1) AND (2 * m) = 2 * m" by (subst and_rec) simp
  then show ?thesis by (simp add: is_power_of_two_def)
qed

lemma is_power_of_two_iff: "0 < x \<Longrightarrow> is_power_of_two x \<longleftrightarrow> (\<exists>d. x = 2 ^ d)"
proof (induction x rule: less_induct)
  case (less x)
  show ?case
  proof (cases "even x")
    case True
    then obtain m where m: "x = 2 * m" "0 < m" using less.prems by (auto elim: evenE)
    then have "is_power_of_two x \<longleftrightarrow> (\<exists>d. m = 2 ^ d)" using less.IH [of m] is_power_of_two_double [of m] by simp
    also have "\<dots> \<longleftrightarrow> (\<exists>d. x = 2 ^ d)"
    proof
      assume "\<exists>d. x = 2 ^ d"
      then obtain d where d: "x = 2 ^ d" ..
      then have "d \<noteq> 0" using m(1) by (cases d) auto
      then show "\<exists>d. m = 2 ^ d" using d m(1) by (cases d) auto
    qed (use m in \<open>metis power_Suc\<close>)
    finally show ?thesis .
  next
    case False
    then obtain m where m: "x = 2 * m + 1" by (auto elim: oddE)
    have "(\<exists>d. x = 2 ^ d) \<longleftrightarrow> m = 0"
    proof
      assume "\<exists>d. x = 2 ^ d"
      then obtain d where d: "x = 2 ^ d" ..
      then show "m = 0" using m by (cases d) (auto, presburger)
    qed (use m in \<open>auto intro: exI [of _ 0]\<close>)
    then show ?thesis using is_power_of_two_odd m by simp
  qed
qed

text \<open>The padding loop: each round adds the last value once more. It ends, because there is a power
  of two above every length.\<close>

definition next_power :: "nat \<Rightarrow> nat" where
  "next_power n = (LEAST m. n \<le> m \<and> is_power_of_two m)"

lemma next_power_exists: "\<exists>m\<ge>n. is_power_of_two m"
  using is_power_of_two_iff [of "2 ^ n"] by (intro exI [of _ "2 ^ n"]) (auto simp: less_imp_le [OF less_exp])

lemma next_power_ge: "n \<le> next_power n" "is_power_of_two (next_power n)"
  using LeastI_ex [of "\<lambda>m. n \<le> m \<and> is_power_of_two m"] next_power_exists [of n] by (auto simp: next_power_def)

lemma next_power_Suc: "\<not> is_power_of_two n \<Longrightarrow> next_power (Suc n) = next_power n"
  unfolding next_power_def by (rule arg_cong [where f = Least]) (metis Suc_leD le_antisym not_less_eq_eq)

function complete_until_power_of_two :: "'n list \<Rightarrow> 'n list" where
  "complete_until_power_of_two values =
     (if is_power_of_two (length values) then values
      else complete_until_power_of_two (values @ [values ! (length values - 1)]))"
  by pat_completeness auto
termination
proof (relation "measure (\<lambda>values. next_power (length values) - length values)")
  fix "values" :: "'n list"
  assume np: "\<not> is_power_of_two (length values)"
  then have "next_power (length values) \<noteq> length values" using next_power_ge(2) by metis
  then show "(values @ [values ! (length values - 1)], values) \<in> measure (\<lambda>values. next_power (length values) - length values)"
    using np next_power_ge(1) [of "length values"] by (simp add: next_power_Suc)
qed simp

declare complete_until_power_of_two.simps [simp del]

section \<open>Construction\<close>

text \<open>One level of \<open>build\<close>: the parents of the nodes from \<open>level_begin\<close> to \<open>level_end\<close> are written from
  \<open>new_begin\<close> on; the slice panics when the level is not within the nodes.\<close>

definition build_level :: "('d, 'n) merkle_backend \<Rightarrow> nat \<Rightarrow> nat \<Rightarrow> nat \<Rightarrow> 'n list \<Rightarrow> 'n list" where
  "build_level B new_begin level_begin level_end nodes =
     fold (\<lambda>i ns. ns[new_begin + i :=
             hash_new_parent B (ns ! (level_begin + 2 * i)) (ns ! (level_begin + 2 * i + 1))])
       [0..<min (level_begin - new_begin) ((level_end + 1 - level_begin) div 2)] nodes"

function build_levels :: "('d, 'n) merkle_backend \<Rightarrow> nat \<Rightarrow> nat \<Rightarrow> 'n list \<Rightarrow> 'n list option" where
  "build_levels B level_begin level_end nodes =
     (if level_begin \<noteq> level_end then
        (let new_begin = level_begin div 2
         in if level_begin = 0 \<or> length nodes < level_end + 1 then None
            else build_levels B new_begin (level_begin - 1)
                   (build_level B new_begin level_begin level_end nodes))
      else Some nodes)"
  by pat_completeness auto
termination by (relation "measure (\<lambda>(B, level_begin, level_end, nodes). level_begin)") auto

declare build_levels.simps [simp del]

definition build_nodes :: "('d, 'n) merkle_backend \<Rightarrow> 'n list \<Rightarrow> nat \<Rightarrow> 'n list option" where
  "build_nodes B nodes leaves_len = build_levels B (leaves_len - 1) (2 * (leaves_len - 1)) nodes"

record 'n merkle_tree =
  tree_root :: 'n
  tree_nodes :: "'n list"

text \<open>The outer option of the constructors that build a tree is the panic, the inner one their result.\<close>

definition build_from_hashed_leaves ::
  "('d, 'n) merkle_backend \<Rightarrow> 'n list \<Rightarrow> 'n merkle_tree option option" where
  "build_from_hashed_leaves B hashed_leaves =
     (if hashed_leaves = [] then Some None
      else
        (let hashed_leaves = complete_until_power_of_two hashed_leaves;
             leaves_len = length hashed_leaves;
             nodes = replicate (leaves_len - 1) (hashed_leaves ! 0) @ hashed_leaves
         in Option.bind (build_nodes B nodes leaves_len) (\<lambda>nodes.
              Some (Some \<lparr>tree_root = nodes ! ROOT, tree_nodes = nodes\<rparr>))))"

definition merkle_build :: "('d, 'n) merkle_backend \<Rightarrow> 'd list \<Rightarrow> 'n merkle_tree option option" where
  "merkle_build B unhashed_leaves =
     (if unhashed_leaves = [] then Some None
      else build_from_hashed_leaves B (hash_leaves B unhashed_leaves))"

text \<open>\<open>usize::is_power_of_two\<close> is false for zero.\<close>

definition from_precomputed_nodes :: "'n list \<Rightarrow> 'n merkle_tree option" where
  "from_precomputed_nodes nodes =
     (if nodes = [] then None
      else if \<not> is_power_of_two (length nodes + 1) then None
      else Some \<lparr>tree_root = nodes ! ROOT, tree_nodes = nodes\<rparr>)"

definition is_root_only :: "'n merkle_tree \<Rightarrow> bool" where
  "is_root_only t \<longleftrightarrow> tree_nodes t = []"

definition from_root :: "'n \<Rightarrow> 'n merkle_tree" where
  "from_root r = \<lparr>tree_root = r, tree_nodes = []\<rparr>"

definition node_count :: "'n merkle_tree \<Rightarrow> nat" where
  "node_count t = length (tree_nodes t)"

definition node_get :: "'n merkle_tree \<Rightarrow> nat \<Rightarrow> 'n option" where
  "node_get t i = (if i < length (tree_nodes t) then Some (tree_nodes t ! i) else None)"

section \<open>Inclusion proofs\<close>

datatype MerkleError = OutOfBounds | EmptyPositionList

record 'n merkle_proof =
  merkle_path :: "'n list"

function path_loop :: "'n merkle_tree \<Rightarrow> nat \<Rightarrow> 'n list \<Rightarrow> (MerkleError, 'n list) result" where
  "path_loop t pos path =
     (if pos \<noteq> ROOT then
        (case node_get t (sibling_index pos) of
           None \<Rightarrow> Inl OutOfBounds
         | Some node \<Rightarrow> path_loop t (parent_index pos) (path @ [node]))
      else Inr path)"
  by pat_completeness auto
termination
  by (relation "measure (\<lambda>(t, pos, path). pos)") (auto simp: parent_index_def ROOT_def)

declare path_loop.simps [simp del]

definition build_merkle_path :: "'n merkle_tree \<Rightarrow> nat \<Rightarrow> (MerkleError, 'n list) result" where
  "build_merkle_path t pos = path_loop t pos []"

definition get_proof_by_pos :: "'n merkle_tree \<Rightarrow> nat \<Rightarrow> 'n merkle_proof option" where
  "get_proof_by_pos t pos =
     (if is_root_only t then None
      else
        (let pos = (pos + node_count t div 2) mod 2 ^ 64
         in case build_merkle_path t pos of
              Inl e \<Rightarrow> None
            | Inr path \<Rightarrow> Some \<lparr>merkle_path = path\<rparr>))"

text \<open>The fold of the verifier: the root that a path gives for a leaf hash at an index.\<close>

fun path_root :: "('d, 'n) merkle_backend \<Rightarrow> 'n list \<Rightarrow> nat \<Rightarrow> 'n \<Rightarrow> 'n" where
  "path_root B [] i h = h"
| "path_root B (sibling # path) i h =
     path_root B path (i div 2)
       (if i mod 2 = 0 then hash_new_parent B h sibling else hash_new_parent B sibling h)"

definition verify_merkle_path_from_leaf_hash ::
  "('d, 'n) merkle_backend \<Rightarrow> 'n list \<Rightarrow> 'n \<Rightarrow> nat \<Rightarrow> 'n \<Rightarrow> bool" where
  "verify_merkle_path_from_leaf_hash B path root_hash i h \<longleftrightarrow> root_hash = path_root B path i h"

definition verify_merkle_path ::
  "('d, 'n) merkle_backend \<Rightarrow> 'n list \<Rightarrow> 'n \<Rightarrow> nat \<Rightarrow> 'd \<Rightarrow> bool" where
  "verify_merkle_path B path root_hash i value =
     verify_merkle_path_from_leaf_hash B path root_hash i (hash_data B value)"

definition proof_verify :: "('d, 'n) merkle_backend \<Rightarrow> 'n merkle_proof \<Rightarrow> 'n \<Rightarrow> nat \<Rightarrow> 'd \<Rightarrow> bool" where
  "proof_verify B p root_hash i value = verify_merkle_path B (merkle_path p) root_hash i value"

section \<open>The built tree\<close>

lemma next_power_power: "0 < n \<Longrightarrow> \<exists>d. next_power n = 2 ^ d"
  using next_power_ge [of n] is_power_of_two_iff [of "next_power n"] by simp

lemma next_power_fixed: "is_power_of_two n \<Longrightarrow> next_power n = n"
  unfolding next_power_def by (rule Least_equality) auto

lemma complete_until_power_of_two_eq:
  "values \<noteq> [] \<Longrightarrow> complete_until_power_of_two values
     = values @ replicate (next_power (length values) - length values) (last values)"
proof (induction "values" rule: complete_until_power_of_two.induct)
  case (1 "values")
  let ?n = "length values"
  show ?case
  proof (cases "is_power_of_two ?n")
    case True
    then show ?thesis by (subst complete_until_power_of_two.simps) (simp add: next_power_fixed)
  next
    case False
    then have "next_power ?n \<noteq> ?n" using next_power_ge(2) by metis
    then obtain m where m: "next_power ?n - ?n = Suc m" using next_power_ge(1) [of ?n]
      by (metis Suc_diff_1 diff_is_0_eq' gr0I le_antisym diff_diff_cancel diff_zero)
    have l: "last values = values ! (?n - 1)" using 1(2) by (simp add: last_conv_nth)
    have "complete_until_power_of_two values = complete_until_power_of_two (values @ [last values])"
      by (subst complete_until_power_of_two.simps) (simp add: False l)
    also have "\<dots> = values @ last values # replicate (next_power (Suc ?n) - Suc ?n) (last values)"
      using 1(1) [OF False] l by simp
    also have "\<dots> = values @ replicate (next_power ?n - ?n) (last values)"
      using m by (simp add: next_power_Suc [OF False])
    finally show ?thesis .
  qed
qed

lemma two_power_Suc: "\<exists>u. (2::nat) ^ l = Suc u"
  by (metis gr0_implies_Suc zero_less_numeral zero_less_power)

text \<open>Every inner node is the hash of its two children.\<close>

definition heap_from :: "('d, 'n) merkle_backend \<Rightarrow> nat \<Rightarrow> 'n list \<Rightarrow> bool" where
  "heap_from B k ns \<longleftrightarrow> (\<forall>j\<ge>k. 2 * j + 2 < length ns \<longrightarrow>
     ns ! j = hash_new_parent B (ns ! (2 * j + 1)) (ns ! (2 * j + 2)))"

lemma build_level_fold:
  fixes B :: "('d, 'n) merkle_backend"
  assumes "new_begin + m \<le> level_begin" "level_begin \<le> length ns"
  defines "f \<equiv> \<lambda>i ns. ns[new_begin + i :=
     hash_new_parent B (ns ! (level_begin + 2 * i)) (ns ! (level_begin + 2 * i + 1))]"
  shows "length (fold f [0..<m] ns) = length ns \<and>
    (\<forall>j. fold f [0..<m] ns ! j = (if new_begin \<le> j \<and> j < new_begin + m
       then hash_new_parent B (ns ! (level_begin + 2 * (j - new_begin))) (ns ! (level_begin + 2 * (j - new_begin) + 1))
       else ns ! j))"
  using assms(1)
proof (induction m)
  case (Suc m)
  then have ih: "length (fold f [0..<m] ns) = length ns"
    "\<And>j. fold f [0..<m] ns ! j = (if new_begin \<le> j \<and> j < new_begin + m
       then hash_new_parent B (ns ! (level_begin + 2 * (j - new_begin))) (ns ! (level_begin + 2 * (j - new_begin) + 1))
       else ns ! j)" by auto
  have s: "fold f [0..<Suc m] ns = f m (fold f [0..<m] ns)" by simp
  show ?case
    unfolding s using Suc.prems assms(2) ih
    by (auto simp: f_def nth_list_update less_Suc_eq)
qed auto

lemma build_level_step:
  assumes "length ns = 2 ^ (D + 1) - 1" "Suc l \<le> D" "heap_from B (2 ^ Suc l - 1) ns"
  defines "r \<equiv> build_level B (2 ^ l - 1) (2 ^ Suc l - 1) (2 ^ (Suc l + 1) - 2) ns"
  shows "length r = length ns" "heap_from B (2 ^ l - 1) r" "\<And>j. 2 ^ Suc l - 1 \<le> j \<Longrightarrow> r ! j = ns ! j"
proof -
  let ?p = "2 ^ l :: nat"
  have p: "0 < ?p" by simp
  have "?p * 2 \<le> 2 ^ D" using assms(2) power_increasing [of "Suc l" D "2::nat"] by simp
  then have le: "2 ^ Suc l - 1 \<le> length ns" using assms(1) by simp
  have m: "min (2 ^ Suc l - 1 - (?p - 1)) ((2 ^ (Suc l + 1) - 2 + 1 - (2 ^ Suc l - 1)) div 2) = ?p"
    using p by simp
  have f: "length r = length ns \<and> (\<forall>j. r ! j = (if ?p - 1 \<le> j \<and> j < ?p - 1 + ?p
       then hash_new_parent B (ns ! (2 ^ Suc l - 1 + 2 * (j - (?p - 1)))) (ns ! (2 ^ Suc l - 1 + 2 * (j - (?p - 1)) + 1))
       else ns ! j))"
    unfolding r_def build_level_def m by (rule build_level_fold) (use p le in simp_all)
  then show len: "length r = length ns" by simp
  show same: "r ! j = ns ! j" if "2 ^ Suc l - 1 \<le> j" for j
  proof -
    have "\<not> j < ?p - 1 + ?p" using that p by simp
    then show ?thesis using f by simp
  qed
  show "heap_from B (?p - 1) r"
    unfolding heap_from_def
  proof (intro allI impI)
    fix j assume j: "?p - 1 \<le> j" "2 * j + 2 < length r"
    have ch: "2 ^ Suc l - 1 \<le> 2 * j + 1" "2 ^ Suc l - 1 \<le> 2 * j + 2" using j(1) p by simp_all
    show "r ! j = hash_new_parent B (r ! (2 * j + 1)) (r ! (2 * j + 2))"
    proof (cases "j < 2 ^ Suc l - 1")
      case True
      have i: "2 ^ Suc l - 1 + 2 * (j - (?p - 1)) = 2 * j + 1" using j(1) p by simp
      have in_level: "j < ?p - 1 + ?p" using True by simp
      have "r ! j = hash_new_parent B (ns ! (2 ^ Suc l - 1 + 2 * (j - (?p - 1)))) (ns ! (2 ^ Suc l - 1 + 2 * (j - (?p - 1)) + 1))"
        using conjunct2 [OF f, rule_format, of j] j(1) in_level by presburger
      then show ?thesis unfolding i same [OF ch(1)] same [OF ch(2)] by simp
    next
      case False
      then show ?thesis using assms(3) j(2) len same [OF ch(1)] same [OF ch(2)] same [of j] by (auto simp: heap_from_def)
    qed
  qed
qed

lemma build_levels_heap:
  assumes "length ns = 2 ^ (D + 1) - 1" "l \<le> D" "heap_from B (2 ^ l - 1) ns"
  shows "\<exists>r. build_levels B (2 ^ l - 1) (2 ^ (l + 1) - 2) ns = Some r \<and> length r = length ns
    \<and> heap_from B 0 r \<and> (\<forall>j\<ge>2 ^ l - 1. r ! j = ns ! j)"
  using assms
proof (induction l arbitrary: ns)
  case 0
  then show ?case by (subst build_levels.simps) simp
next
  case (Suc l)
  let ?p = "2 ^ l :: nat"
  define r1 where "r1 = build_level B (?p - 1) (2 ^ Suc l - 1) (2 ^ (Suc l + 1) - 2) ns"
  note st = build_level_step [OF Suc.prems, folded r1_def]
  obtain r where r: "build_levels B (?p - 1) (2 ^ (l + 1) - 2) r1 = Some r" "length r = length r1"
    "heap_from B 0 r" "\<forall>j\<ge>?p - 1. r ! j = r1 ! j"
    using Suc.IH [of r1] Suc.prems st(1,2) by auto
  have p: "0 < ?p" by simp
  have d: "(2 ^ Suc l - 1) div 2 = ?p - 1" using p by simp
  have "?p * 2 \<le> 2 ^ D" using Suc.prems(2) power_increasing [of "Suc l" D "2::nat"] by simp
  then have le: "\<not> length ns < 2 ^ (Suc l + 1) - 2 + 1" using Suc.prems(1) p by (simp, linarith)
  have "build_levels B (2 ^ Suc l - 1) (2 ^ (Suc l + 1) - 2) ns = build_levels B (?p - 1) (2 ^ (l + 1) - 2) r1"
  proof -
    have "2 ^ Suc l - 1 \<noteq> (2 ^ (Suc l + 1) - 2 :: nat)" "2 ^ Suc l - 1 \<noteq> (0::nat)"
      "2 ^ Suc l - 1 - 1 = (2 ^ (l + 1) - 2 :: nat)" using p by (simp_all, linarith+)
    then show ?thesis unfolding r1_def by (subst build_levels.simps) (simp only: Let_def d le if_True if_False simp_thms)
  qed
  moreover have "r ! j = ns ! j" if "2 ^ Suc l - 1 \<le> j" for j using that r(4) st(3) p by simp
  ultimately show ?case using r st(1) by simp
qed

text \<open>The reference: the root of \<open>2 ^ d\<close> leaves is the hash of the roots of the two halves.\<close>

fun merkle_root :: "('d, 'n) merkle_backend \<Rightarrow> nat \<Rightarrow> 'n list \<Rightarrow> 'n" where
  "merkle_root B 0 leaves = leaves ! 0"
| "merkle_root B (Suc d) leaves =
     hash_new_parent B (merkle_root B d (take (2 ^ d) leaves)) (merkle_root B d (drop (2 ^ d) leaves))"

lemma merkle_root_take: "merkle_root B d (take (2 ^ d) leaves) = merkle_root B d leaves"
proof (induction d arbitrary: leaves)
  case (Suc d)
  have "drop (2 ^ d) (take (2 ^ Suc d) leaves) = take (2 ^ d) (drop (2 ^ d) leaves)"
    by (simp add: drop_take)
  then show ?case using Suc by (simp add: min_def)
qed simp

lemma heap_merkle_root:
  assumes "heap_from B 0 ns" "length ns = 2 ^ (D + 1) - 1" "l \<le> D" "i < 2 ^ l"
  shows "ns ! (2 ^ l - 1 + i) = merkle_root B (D - l) (drop (i * 2 ^ (D - l)) (drop (2 ^ D - 1) ns))"
  using assms(3,4)
proof (induction "D - l" arbitrary: l i)
  case 0
  then have l: "l = D" by simp
  have "2 ^ D - 1 + i < length ns" using 0 l assms(2) by simp
  then show ?case using l by (simp add: drop_drop nth_drop add.commute)
next
  case (Suc e)
  let ?p = "2 ^ l :: nat" and ?j = "2 ^ l - 1 + i"
  have l: "Suc l \<le> D" "e = D - Suc l" "D - l = Suc e" using Suc.hyps(2) by simp_all
  have "?p * 2 \<le> 2 ^ D" using l(1) power_increasing [of "Suc l" D "2::nat"] by simp
  then have "2 * ?j + 2 < length ns" using Suc.prems(2) assms(2) by simp
  then have h: "ns ! ?j = hash_new_parent B (ns ! (2 * ?j + 1)) (ns ! (2 * ?j + 2))"
    using assms(1) by (simp add: heap_from_def)
  obtain u where "?p = Suc u" using two_power_Suc by blast
  then have c: "2 * ?j + 1 = 2 ^ Suc l - 1 + 2 * i" "2 * ?j + 2 = 2 ^ Suc l - 1 + (2 * i + 1)"
    by simp_all
  have "ns ! (2 * ?j + 1) = merkle_root B e (drop (2 * i * 2 ^ e) (drop (2 ^ D - 1) ns))"
    "ns ! (2 * ?j + 2) = merkle_root B e (drop ((2 * i + 1) * 2 ^ e) (drop (2 ^ D - 1) ns))"
    unfolding c using Suc.hyps(1) [of "Suc l" "2 * i"] Suc.hyps(1) [of "Suc l" "2 * i + 1"] l Suc.prems(2) by simp_all
  then show ?case unfolding h l(3)
    by (simp add: merkle_root_take drop_drop algebra_simps)
qed

definition padded_leaves :: "'n list \<Rightarrow> 'n list" where
  "padded_leaves ls = ls @ replicate (next_power (length ls) - length ls) (last ls)"

text \<open>A tree over padded leaves: \<open>2 ^ d\<close> of them in the last nodes, and inner nodes that hash their
  children.\<close>

definition tree_over :: "('d, 'n) merkle_backend \<Rightarrow> nat \<Rightarrow> 'n list \<Rightarrow> 'n merkle_tree \<Rightarrow> bool" where
  "tree_over B d leaves t \<longleftrightarrow> length leaves = 2 ^ d \<and> length (tree_nodes t) = 2 ^ (d + 1) - 1
     \<and> heap_from B 0 (tree_nodes t) \<and> drop (2 ^ d - 1) (tree_nodes t) = leaves
     \<and> tree_root t = tree_nodes t ! 0"

lemma build_from_hashed_leaves_tree:
  assumes "ls \<noteq> []"
  shows "\<exists>t d. build_from_hashed_leaves B ls = Some (Some t) \<and> tree_over B d (padded_leaves ls) t"
proof -
  define ps where "ps = padded_leaves ls"
  have c: "complete_until_power_of_two ls = ps"
    using complete_until_power_of_two_eq [OF assms] by (simp add: ps_def padded_leaves_def)
  obtain d where "next_power (length ls) = 2 ^ d" using next_power_power [of "length ls"] assms by auto
  then have d: "length ps = 2 ^ d"
    using next_power_ge(1) [of "length ls"] by (simp add: ps_def padded_leaves_def)
  define ns where "ns = replicate (2 ^ d - 1) (ps ! 0) @ ps"
  have len: "length ns = 2 ^ (d + 1) - 1" using d by (simp add: ns_def)
  have "heap_from B (2 ^ d - 1) ns" using len by (auto simp: heap_from_def)
  from build_levels_heap [OF len order_refl this]
  obtain r where r: "build_levels B (2 ^ d - 1) (2 ^ (d + 1) - 2) ns = Some r" "length r = length ns"
    "heap_from B 0 r" "\<forall>j\<ge>2 ^ d - 1. r ! j = ns ! j" by blast
  have "drop (2 ^ d - 1) r = drop (2 ^ d - 1) ns"
    using r(2,4) by (intro nth_equalityI) auto
  then have "drop (2 ^ d - 1) r = ps" by (simp add: ns_def)
  moreover have "build_from_hashed_leaves B ls = Some (Some \<lparr>tree_root = r ! 0, tree_nodes = r\<rparr>)"
  proof -
    have "2 * (2 ^ d - 1) = (2 ^ (d + 1) - 2 :: nat)" by simp
    then show ?thesis
      using assms r(1) unfolding build_from_hashed_leaves_def Let_def c d ns_def [symmetric] build_nodes_def
      by (simp add: ROOT_def)
  qed
  ultimately show ?thesis using d len r(2,3) unfolding ps_def [symmetric]
    by (intro exI [of _ "\<lparr>tree_root = r ! 0, tree_nodes = r\<rparr>"] exI [of _ d]) (simp add: tree_over_def)
qed

lemma tree_over_root:
  assumes "tree_over B d leaves t"
  shows "tree_root t = merkle_root B d leaves"
  using assms heap_merkle_root [of B "tree_nodes t" d 0 0] by (simp add: tree_over_def)

section \<open>Inclusion proofs are complete\<close>

lemma tree_parent:
  assumes "tree_over B d leaves t" "Suc l \<le> d" "i < 2 ^ Suc l"
  defines "q \<equiv> 2 ^ Suc l - 1 + i" and "p \<equiv> 2 ^ l - 1 + i div 2"
  shows "q \<noteq> 0" "parent_index q = p"
    "\<exists>s. node_get t (sibling_index q) = Some s \<and> tree_nodes t ! p =
       (if i mod 2 = 0 then hash_new_parent B (tree_nodes t ! q) s else hash_new_parent B s (tree_nodes t ! q))"
proof -
  let ?p = "2 ^ l :: nat"
  have pp: "0 < ?p" by simp
  show "q \<noteq> 0" using pp unfolding q_def power_Suc by linarith
  have bound: "?p * 2 \<le> 2 ^ d" using assms(2) power_increasing [of "Suc l" d "2::nat"] by simp
  have len: "length (tree_nodes t) = 2 * 2 ^ d - 1" and hp: "heap_from B 0 (tree_nodes t)"
    using assms(1) by (simp_all add: tree_over_def)
  have lt: "2 * p + 2 < length (tree_nodes t)"
  proof -
    obtain u where u: "?p = Suc u" using two_power_Suc by blast
    have "i div 2 \<le> u" using assms(3) u by simp
    then show ?thesis using bound u unfolding len p_def by simp
  qed
  have h: "tree_nodes t ! p = hash_new_parent B (tree_nodes t ! (2 * p + 1)) (tree_nodes t ! (2 * p + 2))"
    using hp lt by (simp add: heap_from_def)
  show "parent_index q = p"
    using pp unfolding parent_index_def q_def p_def by (cases "even i") (auto elim!: evenE oddE)
  show "\<exists>s. node_get t (sibling_index q) = Some s \<and> tree_nodes t ! p =
       (if i mod 2 = 0 then hash_new_parent B (tree_nodes t ! q) s else hash_new_parent B s (tree_nodes t ! q))"
  proof (cases "i mod 2 = 0")
    case True
    then obtain m where m: "i = 2 * m" by auto
    have q: "q = 2 * p + 1" using two_power_Suc [of l] by (auto simp: q_def p_def m)
    then show ?thesis using lt h True by (simp add: sibling_index_def node_get_def)
  next
    case False
    then obtain m where m: "i = 2 * m + 1" by (metis oddE odd_iff_mod_2_eq_one parity_cases)
    have q: "q = 2 * p + 2" using two_power_Suc [of l] by (auto simp: q_def p_def m)
    then show ?thesis using lt h False by (simp add: sibling_index_def node_get_def)
  qed
qed

lemma path_loop_complete:
  assumes "tree_over B d leaves t" "l \<le> d" "i < 2 ^ l"
  shows "\<exists>path. path_loop t (2 ^ l - 1 + i) acc = Inr (acc @ path) \<and> length path = l
    \<and> path_root B path i (tree_nodes t ! (2 ^ l - 1 + i)) = tree_root t"
  using assms(2,3)
proof (induction l arbitrary: i acc)
  case 0
  then show ?case using assms(1) by (subst path_loop.simps) (simp add: ROOT_def tree_over_def)
next
  case (Suc l)
  note par = tree_parent [OF assms(1) Suc.prems]
  obtain s where s: "node_get t (sibling_index (2 ^ Suc l - 1 + i)) = Some s"
    "tree_nodes t ! (2 ^ l - 1 + i div 2) = (if i mod 2 = 0
       then hash_new_parent B (tree_nodes t ! (2 ^ Suc l - 1 + i)) s
       else hash_new_parent B s (tree_nodes t ! (2 ^ Suc l - 1 + i)))"
    using par(3) by blast
  obtain path where path: "path_loop t (2 ^ l - 1 + i div 2) (acc @ [s]) = Inr ((acc @ [s]) @ path)"
    "length path = l" "path_root B path (i div 2) (tree_nodes t ! (2 ^ l - 1 + i div 2)) = tree_root t"
    using Suc.IH [of "i div 2" "acc @ [s]"] Suc.prems by (metis Suc_leD less_mult_imp_div_less mult.commute power_Suc)
  have "path_loop t (2 ^ Suc l - 1 + i) acc = Inr (acc @ s # path)"
    using par(1) s(1) path(1) unfolding path_loop.simps [of t "2 ^ Suc l - 1 + i"] ROOT_def par(2) by simp
  moreover have "path_root B (s # path) i (tree_nodes t ! (2 ^ Suc l - 1 + i)) = tree_root t"
    using path(3) unfolding path_root.simps s(2) .
  ultimately show ?case using path(2) by (metis length_Cons)
qed

lemma tree_over_leaf:
  assumes "tree_over B d leaves t" "i < 2 ^ d"
  shows "tree_nodes t ! (2 ^ d - 1 + i) = leaves ! i"
  using assms nth_drop [of "2 ^ d - 1" "tree_nodes t" i] by (auto simp: tree_over_def)

lemma get_proof_complete:
  assumes "tree_over B d leaves t" "pos < 2 ^ d" "node_count t < 2 ^ 64"
  shows "\<exists>p. get_proof_by_pos t pos = Some p \<and> length (merkle_path p) = d
    \<and> path_root B (merkle_path p) pos (leaves ! pos) = tree_root t"
proof -
  have n: "node_count t = 2 ^ (d + 1) - 1" using assms(1) by (simp add: tree_over_def node_count_def)
  then have e: "(pos + node_count t div 2) mod 2 ^ 64 = 2 ^ d - 1 + pos" using assms(2,3) by simp
  have "(0::nat) < 2 ^ d" by simp
  then have "node_count t \<noteq> 0" unfolding n power_add power_one_right by linarith
  then have "\<not> is_root_only t" by (simp add: is_root_only_def node_count_def)
  then show ?thesis
    using path_loop_complete [OF assms(1) order_refl assms(2), of "[]"] tree_over_leaf [OF assms(1,2)]
    unfolding get_proof_by_pos_def Let_def e build_merkle_path_def by auto
qed

section \<open>Properties of Merkle trees\<close>

lemma merkle_build_tree:
  assumes "merkle_build B ds = Some (Some t)"
  shows "ds \<noteq> [] \<and> (\<exists>d. tree_over B d (padded_leaves (map (hash_data B) ds)) t)"
proof -
  have ds: "ds \<noteq> []" using assms by (auto simp: merkle_build_def)
  then show ?thesis
    using assms build_from_hashed_leaves_tree [of "map (hash_data B) ds" B]
    by (auto simp: merkle_build_def hash_leaves_def)
qed

text \<open>C27: building a tree never panics, and its root is the Merkle root. For data that is not empty
  the tree exists; its leaves are the hashes of the data, padded with copies of the last one to the
  least power of two that is not below their number, and its root is the one that hashing the roots
  of the two halves recursively gives.\<close>

theorem merkle_build_root:
  "merkle_build B [] = Some None
   \<and> (ds \<noteq> [] \<longrightarrow> (\<exists>t d. merkle_build B ds = Some (Some t) \<and> length (padded_leaves (map (hash_data B) ds)) = 2 ^ d
        \<and> (\<forall>e. length ds \<le> 2 ^ e \<longrightarrow> d \<le> e)
        \<and> tree_root t = merkle_root B d (padded_leaves (map (hash_data B) ds))))"
proof (intro conjI impI)
  assume ne: "ds \<noteq> []"
  then obtain t d where t: "merkle_build B ds = Some (Some t)" "tree_over B d (padded_leaves (map (hash_data B) ds)) t"
    using build_from_hashed_leaves_tree [of "map (hash_data B) ds" B] by (auto simp: merkle_build_def hash_leaves_def)
  have len: "length (padded_leaves (map (hash_data B) ds)) = 2 ^ d" using t(2) by (simp add: tree_over_def)
  have "next_power (length ds) = 2 ^ d"
    using len next_power_ge(1) [of "length ds"] by (simp add: padded_leaves_def)
  moreover have "next_power (length ds) \<le> 2 ^ e" if "length ds \<le> 2 ^ e" for e
    unfolding next_power_def by (rule Least_le) (use that is_power_of_two_iff [of "2 ^ e"] in auto)
  ultimately have "d \<le> e" if "length ds \<le> 2 ^ e" for e
    using that by (metis power_le_imp_le_exp one_less_numeral_iff semiring_norm(76))
  then show "\<exists>t d. merkle_build B ds = Some (Some t) \<and> length (padded_leaves (map (hash_data B) ds)) = 2 ^ d
        \<and> (\<forall>e. length ds \<le> 2 ^ e \<longrightarrow> d \<le> e)
        \<and> tree_root t = merkle_root B d (padded_leaves (map (hash_data B) ds))"
    using t len tree_over_root [OF t(2)] by blast
qed (simp add: merkle_build_def)

text \<open>A concrete backend: numbers with an injective pairing as the hash of two nodes.\<close>

definition sample_backend :: "(nat, nat) merkle_backend" where
  "sample_backend = \<lparr>hash_data = (\<lambda>x. 2 * x), hash_new_parent = (\<lambda>l r. 2 ^ l * (2 * r + 1))\<rparr>"

theorem merkle_build_root_witness:
  "\<exists>t. merkle_build sample_backend [1, 2, 3] = Some (Some t)
     \<and> tree_root t = merkle_root sample_backend 2 [2, 4, 6, 6]"
proof -
  have p: "padded_leaves (map (hash_data sample_backend) [1, 2, 3]) = [2, 4, 6, 6]"
  proof -
    have "next_power 3 = 4"
      using next_power_Suc [of 3] next_power_fixed [of 4] by (simp add: is_power_of_two_def)
    then have "next_power (Suc (Suc (Suc 0))) = 4" by (simp add: numeral_3_eq_3)
    then show ?thesis by (simp add: padded_leaves_def sample_backend_def)
  qed
  obtain t d where t: "merkle_build sample_backend [1, 2, 3] = Some (Some t)" "length [2::nat, 4, 6, 6] = 2 ^ d"
    "tree_root t = merkle_root sample_backend d [2, 4, 6, 6]"
    using merkle_build_root [of sample_backend "[1, 2, 3]", unfolded p] by blast
  have "2 ^ d = (2::nat) ^ 2" using t(2) by simp
  then have "d = 2" by (metis power_inject_exp one_less_numeral_iff semiring_norm(76))
  then show ?thesis using t by blast
qed

text \<open>A position past the padded leaves has no opening.\<close>

lemma get_proof_none:
  assumes "tree_over B d leaves t" "2 ^ d \<le> pos" "pos + node_count t div 2 < 2 ^ 64"
  shows "get_proof_by_pos t pos = None"
proof -
  have n: "node_count t = 2 * 2 ^ d - 1" using assms(1) by (simp add: tree_over_def node_count_def)
  let ?q = "pos + node_count t div 2"
  have q: "node_count t \<le> ?q" using assms(2) n by simp
  have "0 < node_count t" "odd (node_count t)" using n two_power_Suc [of d] by auto
  then have "node_count t \<le> sibling_index ?q" using q by (cases "?q = node_count t") (auto simp: sibling_index_def odd_iff_mod_2_eq_one)
  then have "node_get t (sibling_index ?q) = None" by (simp add: node_get_def node_count_def)
  moreover have "?q \<noteq> ROOT" using q \<open>0 < node_count t\<close> unfolding ROOT_def by linarith
  ultimately have "path_loop t ?q [] = Inl OutOfBounds" by (subst path_loop.simps) (simp del: add_is_0)
  then show ?thesis using assms(3) by (simp add: get_proof_by_pos_def build_merkle_path_def)
qed

lemma padded_leaves_map_nth:
  assumes "ds \<noteq> []" "pos < next_power (length ds)"
  shows "padded_leaves (map f ds) ! pos = f (ds ! min pos (length ds - 1))"
proof (cases "pos < length ds")
  case True
  then have "min pos (length ds - 1) = pos" by simp
  then show ?thesis using True by (simp add: padded_leaves_def nth_append)
next
  case False
  then have "min pos (length ds - 1) = length ds - 1" by simp
  then show ?thesis using False assms by (simp add: padded_leaves_def nth_append last_map last_conv_nth)
qed

text \<open>C28: inclusion proofs are complete. A tree over \<open>2\<^sup>d\<close> padded leaves, \<open>node_count\<close> being
  \<open>2\<^sup>d\<^sup>+\<^sup>1 - 1\<close>, gives a proof at exactly the positions below \<open>2\<^sup>d\<close>, among which are those of all the
  data; the proof has \<open>d\<close> nodes, and the verifier accepts it for the root, the position and the datum
  there, which is the last one at the positions that the padding filled.  At every other position the
  tree gives no proof.\<close>

theorem merkle_proof_complete:
  assumes "merkle_build B ds = Some (Some t)" "pos + node_count t div 2 < 2 ^ 64" "node_count t < 2 ^ 64"
  shows "\<exists>d. node_count t + 1 = 2 * 2 ^ d \<and> length ds \<le> 2 ^ d \<and>
    (if pos < 2 ^ d
     then \<exists>p. get_proof_by_pos t pos = Some p \<and> length (merkle_path p) = d
            \<and> proof_verify B p (tree_root t) pos (ds ! min pos (length ds - 1))
     else get_proof_by_pos t pos = None)"
proof -
  obtain d where d: "tree_over B d (padded_leaves (map (hash_data B) ds)) t" and ne: "ds \<noteq> []"
    using merkle_build_tree [OF assms(1)] by blast
  have n: "node_count t + 1 = 2 * 2 ^ d" using d two_power_Suc [of d] by (auto simp: tree_over_def node_count_def)
  have len: "next_power (length ds) = 2 ^ d" "length ds \<le> 2 ^ d"
    using d next_power_ge(1) [of "length ds"] by (simp_all add: tree_over_def padded_leaves_def)
  have "\<exists>p. get_proof_by_pos t pos = Some p \<and> length (merkle_path p) = d
      \<and> proof_verify B p (tree_root t) pos (ds ! min pos (length ds - 1))" if "pos < 2 ^ d"
    using get_proof_complete [OF d that assms(3)] padded_leaves_map_nth [OF ne, of pos "hash_data B"] that len(1)
    by (auto simp: proof_verify_def verify_merkle_path_def verify_merkle_path_from_leaf_hash_def)
  moreover have "get_proof_by_pos t pos = None" if "\<not> pos < 2 ^ d" using get_proof_none [OF d _ assms(2)] that by simp
  ultimately show ?thesis using n len(2) by auto
qed

lemma sample_tree:
  "\<exists>t. merkle_build sample_backend [1, 2, 3] = Some (Some t) \<and> node_count t = 7"
proof -
  obtain t d where t: "merkle_build sample_backend [1, 2, 3] = Some (Some t)"
    "tree_over sample_backend d (padded_leaves [2, 4, 6]) t"
    using build_from_hashed_leaves_tree [of "[2, 4, 6]" sample_backend]
    by (auto simp: merkle_build_def hash_leaves_def sample_backend_def)
  have "next_power 3 = 4"
    using next_power_Suc [of 3] next_power_fixed [of 4] by (simp add: is_power_of_two_def)
  then have "length (padded_leaves [2::nat, 4, 6]) = 4" by (simp add: padded_leaves_def numeral_3_eq_3)
  then have "(2::nat) ^ d = 4" using t(2) by (simp add: tree_over_def)
  then show ?thesis using t by (auto simp: tree_over_def node_count_def)
qed

theorem merkle_proof_complete_witness:
  "\<exists>t p. merkle_build sample_backend [1, 2, 3] = Some (Some t) \<and> get_proof_by_pos t 3 = Some p
     \<and> proof_verify sample_backend p (tree_root t) 3 3 \<and> get_proof_by_pos t 4 = None"
proof -
  obtain t where t: "merkle_build sample_backend [1, 2, 3] = Some (Some t)" "node_count t = 7"
    using sample_tree by blast
  have d: "(8::nat) = 2 * 2 ^ d \<longleftrightarrow> d = 2" for d :: nat
  proof
    assume "(8::nat) = 2 * 2 ^ d"
    then have "(2::nat) ^ d = 2 ^ 2" by simp
    then show "d = 2" by (metis power_inject_exp one_less_numeral_iff semiring_norm(76))
  qed simp
  show ?thesis
    using merkle_proof_complete [OF t(1), of 3] merkle_proof_complete [OF t(1), of 4] t by (auto simp: d numeral_3_eq_3)
qed

section \<open>Binding\<close>

text \<open>The pairs of nodes that the verifier hashes, from the leaf up.\<close>

fun path_pairs :: "('d, 'n) merkle_backend \<Rightarrow> 'n list \<Rightarrow> nat \<Rightarrow> 'n \<Rightarrow> ('n \<times> 'n) list" where
  "path_pairs B [] i h = []"
| "path_pairs B (sibling # path) i h =
     (let (l, r) = (if i mod 2 = 0 then (h, sibling) else (sibling, h))
      in (l, r) # path_pairs B path (i div 2) (hash_new_parent B l r))"

lemma length_path_pairs [simp]: "length (path_pairs B path i h) = length path"
  by (induction path arbitrary: i h) (simp_all split: prod.split)

text \<open>A collision: two different pairs with the same parent.\<close>

definition parent_collision :: "('d, 'n) merkle_backend \<Rightarrow> 'n \<times> 'n \<Rightarrow> 'n \<times> 'n \<Rightarrow> bool" where
  "parent_collision B x y \<longleftrightarrow> x \<noteq> y \<and> hash_new_parent B (fst x) (snd x) = hash_new_parent B (fst y) (snd y)"

lemma path_root_binding:
  assumes "length path = length path'" "path_root B path i h = path_root B path' i h'" "(path, h) \<noteq> (path', h')"
  shows "\<exists>j<length path. parent_collision B (path_pairs B path i h ! j) (path_pairs B path' i h' ! j)"
  using assms
proof (induction path path' arbitrary: i h h' rule: list_induct2)
  case (Cons s path s' path')
  define x where "x = (if i mod 2 = 0 then (h, s) else (s, h))"
  define x' where "x' = (if i mod 2 = 0 then (h', s') else (s', h'))"
  define v where "v = hash_new_parent B (fst x) (snd x)"
  define v' where "v' = hash_new_parent B (fst x') (snd x')"
  have pp: "path_pairs B (s # path) i h = x # path_pairs B path (i div 2) v"
    "path_pairs B (s' # path') i h' = x' # path_pairs B path' (i div 2) v'"
    by (simp_all add: x_def x'_def v_def v'_def)
  have r: "path_root B path (i div 2) v = path_root B path' (i div 2) v'"
    using Cons.prems(1) by (simp add: v_def v'_def x_def x'_def split: if_splits)
  show ?case
  proof (cases "(path, v) = (path', v')")
    case True
    then have "x \<noteq> x'" using Cons.prems(2) by (auto simp: x_def x'_def split: if_splits)
    then have "parent_collision B x x'" using True by (simp add: parent_collision_def v_def v'_def)
    then show ?thesis unfolding pp by (intro exI [of _ 0]) simp
  next
    case False
    then obtain j where "j < length path"
      "parent_collision B (path_pairs B path (i div 2) v ! j) (path_pairs B path' (i div 2) v' ! j)"
      using Cons.IH [OF r] by blast
    then show ?thesis unfolding pp by (intro exI [of _ "Suc j"]) simp
  qed
qed simp

text \<open>C29: openings are binding. If two proofs of the same length are accepted for the same root and
  the same index with different values, then a collision can be read off the two openings: the two
  values have the same leaf hash, or at some level the pairs of nodes that the verifier hashes for
  the two proofs differ and have the same parent hash.\<close>

theorem merkle_opening_binding:
  assumes "proof_verify B p r i v" "proof_verify B p' r i v'" "length (merkle_path p) = length (merkle_path p')" "v \<noteq> v'"
  shows "hash_data B v = hash_data B v'
    \<or> (\<exists>j<length (merkle_path p). parent_collision B
         (path_pairs B (merkle_path p) i (hash_data B v) ! j) (path_pairs B (merkle_path p') i (hash_data B v') ! j))"
proof (cases "hash_data B v = hash_data B v'")
  case False
  have "path_root B (merkle_path p) i (hash_data B v) = path_root B (merkle_path p') i (hash_data B v')"
    using assms(1,2) by (simp add: proof_verify_def verify_merkle_path_def verify_merkle_path_from_leaf_hash_def)
  from path_root_binding [OF assms(3) this] show ?thesis using False by blast
qed simp

text \<open>A backend that adds: the root 105 opens at index 1 to 1 and to 2.\<close>

theorem merkle_opening_binding_witness:
  "\<exists>B :: (nat, nat) merkle_backend. proof_verify B \<lparr>merkle_path = [3, 100]\<rparr> 105 1 1 \<and> proof_verify B \<lparr>merkle_path = [1, 100]\<rparr> 105 1 2
     \<and> (\<exists>j<2. parent_collision B (path_pairs B [3, 100] 1 (hash_data B 1) ! j) (path_pairs B [1, 100] 1 (hash_data B 2) ! j))"
proof -
  define B :: "(nat, nat) merkle_backend" where "B = \<lparr>hash_data = (\<lambda>x. 2 * x), hash_new_parent = (+)\<rparr>"
  have v: "proof_verify B \<lparr>merkle_path = [3, 100]\<rparr> 105 1 1" "proof_verify B \<lparr>merkle_path = [1, 100]\<rparr> 105 1 2"
    by (simp_all add: B_def proof_verify_def verify_merkle_path_def verify_merkle_path_from_leaf_hash_def)
  have h: "hash_data B 1 \<noteq> hash_data B 2" by (simp add: B_def)
  show ?thesis
    using merkle_opening_binding [OF v] h v by (intro exI [of _ B]) (simp add: numeral_2_eq_2)
qed

end
