(* ===== verification/Merkle_Batch.thy ===== *)
theory Merkle_Batch
  imports Merkle_Tree
begin

text \<open>
  Batch inclusion proofs of Merkle trees (\<open>get_batch_proof\<close> of \<^verbatim>\<open>merkle.rs\<close> and \<open>BatchProof::verify\<close> of
  \<^verbatim>\<open>proof.rs\<close>): the positions whose nodes the prover sends, and the verifier that recomputes the
  levels.  An ordered set is a finite set that is iterated by its sorted list, an ordered map a
  finite map with the sorted list of its domain.  The option around a result is the panic.
\<close>

section \<open>The prover\<close>

fun ilog2 :: "nat \<Rightarrow> nat" where
  "ilog2 n = (if n < 2 then 0 else Suc (ilog2 (n div 2)))"

declare ilog2.simps [simp del]

definition u32_dec :: "nat \<Rightarrow> nat" where
  "u32_dec n = (n + (2 ^ 32 - 1)) mod 2 ^ 32"

definition auth_step :: "nat set \<Rightarrow> nat \<Rightarrow> nat set \<times> nat set \<Rightarrow> nat set \<times> nat set" where
  "auth_step obtainable pos = (\<lambda>(auth, next_obtainable).
     ((case get_sibling_pos pos of
         None \<Rightarrow> auth
       | Some sibling_pos \<Rightarrow>
           if sibling_pos \<in> obtainable \<or> sibling_pos \<in> auth then auth else insert sibling_pos auth),
      insert (get_parent_pos pos) next_obtainable))"

definition auth_level :: "nat set \<times> nat set \<Rightarrow> nat set \<times> nat set" where
  "auth_level = (\<lambda>(obtainable, auth).
     (let (auth, next_obtainable) = fold (auth_step obtainable) (sorted_list_of_set obtainable) (auth, {})
      in (next_obtainable, auth)))"

definition get_batch_auth_path_positions :: "'n merkle_tree \<Rightarrow> nat list \<Rightarrow> nat list" where
  "get_batch_auth_path_positions t leaf_positions =
     (let num_levels = ilog2 (node_count t + 1);
          (obtainable, auth) = (auth_level ^^ u32_dec num_levels) (set leaf_positions, {})
      in rev (sorted_list_of_set auth))"

fun nodes_at :: "'n merkle_tree \<Rightarrow> nat list \<Rightarrow> 'n list option" where
  "nodes_at t [] = Some []"
| "nodes_at t (pos # ps) =
     Option.bind (node_get t pos) (\<lambda>node. Option.bind (nodes_at t ps) (\<lambda>ns. Some (node # ns)))"

definition get_batch_proof :: "'n merkle_tree \<Rightarrow> nat list \<Rightarrow> (MerkleError, 'n list) result option" where
  "get_batch_proof t pos_list =
     (if pos_list = [] then Some (Inl EmptyPositionList)
      else
        (let num_leaves = (node_count t + 2) div 2
         in if list_ex (\<lambda>pos. num_leaves \<le> pos) pos_list then Some (Inl OutOfBounds)
            else
              (let leaf_positions = map (\<lambda>pos. pos + node_count t div 2) pos_list
               in map_option Inr (nodes_at t (get_batch_auth_path_positions t leaf_positions)))))"

section \<open>The verifier\<close>

text \<open>The map of the known leaves; \<open>None\<close> when a position is given with two different values.\<close>

fun insert_leaves :: "('d, 'n) merkle_backend \<Rightarrow> nat \<Rightarrow> (nat \<times> 'd) list \<Rightarrow> (nat \<rightharpoonup> 'n) \<Rightarrow> (nat \<rightharpoonup> 'n) option" where
  "insert_leaves B first [] known = Some known"
| "insert_leaves B first ((pos, value) # ps) known =
     (let tree_index = (pos + first) mod 2 ^ 64; hashed_value = hash_data B value
      in case known tree_index of
           Some existing \<Rightarrow> if existing \<noteq> hashed_value then None else insert_leaves B first ps known
         | None \<Rightarrow> insert_leaves B first ps (known(tree_index \<mapsto> hashed_value)))"

text \<open>The loop over the known nodes of a level: the known nodes of the next level and the rest of
  the proof; \<open>None\<close> when the proof is exhausted.\<close>

fun batch_level :: "('d, 'n) merkle_backend \<Rightarrow> (nat \<rightharpoonup> 'n) \<Rightarrow> nat list \<Rightarrow> (nat \<rightharpoonup> 'n) \<Rightarrow> 'n list
    \<Rightarrow> ((nat \<rightharpoonup> 'n) \<times> 'n list) option" where
  "batch_level B known [] next_known path = Some (next_known, path)"
| "batch_level B known (pos # ps) next_known path =
     (let parent_pos = get_parent_pos pos
      in if next_known parent_pos \<noteq> None then batch_level B known ps next_known path
         else
           (case get_sibling_pos pos of
              None \<Rightarrow> batch_level B known ps next_known path
            | Some sibling_pos \<Rightarrow>
                (case (case known sibling_pos of
                         Some h \<Rightarrow> Some (h, path)
                       | None \<Rightarrow> (case path of [] \<Rightarrow> None | h # path \<Rightarrow> Some (h, path))) of
                   None \<Rightarrow> None
                 | Some (sibling_hash, path) \<Rightarrow>
                     (let value = the (known pos);
                          parent_hash = (if pos mod 2 = 1 then hash_new_parent B value sibling_hash
                                         else hash_new_parent B sibling_hash value)
                      in batch_level B known ps (next_known(parent_pos \<mapsto> parent_hash)) path))))"

fun batch_levels :: "('d, 'n) merkle_backend \<Rightarrow> nat \<Rightarrow> (nat \<rightharpoonup> 'n) \<Rightarrow> 'n list
    \<Rightarrow> ((nat \<rightharpoonup> 'n) \<times> 'n list) option" where
  "batch_levels B 0 known path = Some (known, path)"
| "batch_levels B (Suc n) known path =
     Option.bind (batch_level B known (rev (sorted_list_of_set (dom known))) Map.empty path)
       (\<lambda>(known, path). batch_levels B n known path)"

definition batch_verify :: "('d, 'n) merkle_backend \<Rightarrow> 'n list \<Rightarrow> 'n \<Rightarrow> nat list \<Rightarrow> 'd list \<Rightarrow> nat \<Rightarrow> bool option" where
  "batch_verify B path root_hash pos_list values num_leaves =
     (if length pos_list \<noteq> length values \<or> pos_list = [] then Some False
      else
        (let first_leaf_index = (num_leaves + (2 ^ 64 - 1)) mod 2 ^ 64
         in case insert_leaves B first_leaf_index (zip pos_list values) Map.empty of
              None \<Rightarrow> Some False
            | Some known \<Rightarrow>
                (if 2 * num_leaves mod 2 ^ 64 = 0 then None
                 else
                   (let num_levels = ilog2 (2 * num_leaves mod 2 ^ 64)
                    in case batch_levels B (u32_dec num_levels) known path of
                         None \<Rightarrow> Some False
                       | Some (known, path) \<Rightarrow>
                           Some (path = [] \<and> card (dom known) = 1 \<and> known 0 = Some root_hash)))))"

section \<open>The positions of the proof\<close>

definition missing :: "nat set \<Rightarrow> nat set" where
  "missing obt = {s. \<exists>p\<in>obt. get_sibling_pos p = Some s \<and> s \<notin> obt}"

fun missing_below :: "nat \<Rightarrow> nat set \<Rightarrow> nat set" where
  "missing_below 0 obt = {}"
| "missing_below (Suc n) obt = missing obt \<union> missing_below n (get_parent_pos ` obt)"

lemma auth_step_fold:
  "fold (auth_step obt) xs (auth, nxt)
     = (auth \<union> {s. \<exists>p\<in>set xs. get_sibling_pos p = Some s \<and> s \<notin> obt}, nxt \<union> get_parent_pos ` set xs)"
proof (induction xs arbitrary: auth nxt)
  case (Cons x xs)
  then show ?case
    by (cases "get_sibling_pos x") (auto simp: auth_step_def)
qed simp

lemma auth_level_eq:
  "finite obt \<Longrightarrow> auth_level (obt, auth) = (get_parent_pos ` obt, auth \<union> missing obt)"
  by (simp add: auth_level_def auth_step_fold missing_def)

lemma auth_levels_eq:
  "finite obt \<Longrightarrow> snd ((auth_level ^^ n) (obt, auth)) = auth \<union> missing_below n obt"
proof (induction n arbitrary: obt auth)
  case (Suc n)
  have "(auth_level ^^ Suc n) (obt, auth) = (auth_level ^^ n) (auth_level (obt, auth))"
    by (simp add: funpow_swap1)
  then show ?case using Suc by (simp add: auth_level_eq Un_assoc)
qed simp

section \<open>Levels\<close>

definition level :: "nat \<Rightarrow> nat set" where
  "level l = {2 ^ l - 1..<2 ^ (l + 1) - 1}"

lemma children_pos [simp]:
  "get_parent_pos (Suc (2 * q)) = q" "get_parent_pos (Suc (Suc (2 * q))) = q"
  "get_sibling_pos (Suc (2 * q)) = Some (Suc (Suc (2 * q)))" "get_sibling_pos (Suc (Suc (2 * q))) = Some (Suc (2 * q))"
  by (auto simp: get_parent_pos_def get_sibling_pos_def mod_Suc)

lemma level_SucE:
  assumes "p \<in> level (Suc l)"
  obtains q where "q \<in> level l" "p = 2 * q + 1" | q where "q \<in> level l" "p = 2 * q + 2"
proof -
  obtain u where u: "(2::nat) ^ l = Suc u" using two_power_Suc by blast
  show thesis
  proof (cases "even p")
    case True
    then obtain m where "p = 2 * m" by (auto elim: evenE)
    then have "p = 2 * (m - 1) + 2" "m - 1 \<in> level l" using assms u by (auto simp: level_def)
    then show thesis using that(2) by blast
  next
    case False
    then obtain m where "p = 2 * m + 1" by (auto elim: oddE)
    then show thesis using that(1) [of m] assms u by (auto simp: level_def)
  qed
qed

lemma level_children:
  "q \<in> level l \<Longrightarrow> 2 * q + 1 \<in> level (Suc l)" "q \<in> level l \<Longrightarrow> 2 * q + 2 \<in> level (Suc l)"
  using two_power_Suc [of l] by (auto simp: level_def)

lemma level_parent: "p \<in> level (Suc l) \<Longrightarrow> get_parent_pos p \<in> level l"
  by (erule level_SucE) simp_all

lemma level_sibling: "p \<in> level (Suc l) \<Longrightarrow> \<exists>s. get_sibling_pos p = Some s \<and> s \<in> level (Suc l)"
  by (erule level_SucE) (use level_children in auto)

text \<open>A known node with the parent of another is its sibling.\<close>

lemma same_parent_sibling:
  assumes "p \<in> level (Suc l)" "p' \<in> level (Suc l)" "get_parent_pos p = get_parent_pos p'" "p \<noteq> p'"
  shows "get_sibling_pos p = Some p'"
  using assms(1)
proof (cases rule: level_SucE)
  case (1 q)
  show ?thesis using assms(2) by (cases rule: level_SucE) (use 1 assms(3,4) in auto)
next
  case (2 q)
  show ?thesis using assms(2) by (cases rule: level_SucE) (use 2 assms(3,4) in auto)
qed

lemma sibling_order:
  assumes "p \<in> level (Suc l)" "p' \<in> level (Suc l)" "p' < p" "get_parent_pos p \<noteq> get_parent_pos p'"
    "get_sibling_pos p = Some s" "get_sibling_pos p' = Some s'"
  shows "s' < s"
  using assms(1)
proof (cases rule: level_SucE)
  case (1 q)
  show ?thesis using assms(2) by (cases rule: level_SucE) (use 1 assms(3-6) in auto)
next
  case (2 q)
  show ?thesis using assms(2) by (cases rule: level_SucE) (use 2 assms(3-6) in auto)
qed

lemma missing_level: "obt \<subseteq> level (Suc l) \<Longrightarrow> missing obt \<subseteq> level (Suc l)"
  using level_sibling by (fastforce simp: missing_def)

lemma missing_below_bound: "obt \<subseteq> level l \<Longrightarrow> s \<in> missing_below l obt \<Longrightarrow> s < 2 ^ (l + 1) - 1"
proof (induction l arbitrary: obt)
  case (Suc l)
  then have par: "get_parent_pos ` obt \<subseteq> level l" using level_parent by blast
  from Suc.prems(2) have "s \<in> missing obt \<or> s \<in> missing_below l (get_parent_pos ` obt)" by auto
  then show ?case
  proof
    assume "s \<in> missing obt"
    then show ?case using missing_level [OF Suc.prems(1)] by (auto simp: level_def)
  next
    assume "s \<in> missing_below l (get_parent_pos ` obt)"
    from Suc.IH [OF par this] show ?case by simp
  qed
qed simp

lemma finite_level [simp]: "finite (level l)" by (simp add: level_def)

lemma finite_missing_below: "obt \<subseteq> level l \<Longrightarrow> finite (missing_below l obt)"
  using missing_below_bound by (metis finite_nat_set_iff_bounded)

lemma sorted_list_of_union:
  assumes "finite A" "finite B" "\<And>a b. a \<in> A \<Longrightarrow> b \<in> B \<Longrightarrow> b < a"
  shows "sorted_list_of_set (A \<union> B) = sorted_list_of_set B @ sorted_list_of_set (A :: nat set)"
proof (rule sorted_distinct_set_unique)
  show "sorted (sorted_list_of_set B @ sorted_list_of_set A)"
    using assms by (auto simp: sorted_append intro: less_imp_le)
  show "distinct (sorted_list_of_set B @ sorted_list_of_set A)" using assms by fastforce
qed (use assms in auto)

text \<open>The missing siblings of a level in the order of the proof.\<close>

lemma missing_sorted:
  assumes "obt \<subseteq> level (Suc l)"
  shows "rev (sorted_list_of_set (missing obt))
    = map (\<lambda>p. the (get_sibling_pos p)) (filter (\<lambda>p. the (get_sibling_pos p) \<notin> obt) (rev (sorted_list_of_set obt)))"
proof -
  have fin: "finite obt" using assms by (rule finite_subset) simp
  let ?f = "\<lambda>p. the (get_sibling_pos p)"
  define xs where "xs = filter (\<lambda>p. ?f p \<notin> obt) (sorted_list_of_set obt)"
  have set: "set (map ?f xs) = missing obt"
    using fin assms level_sibling by (force simp: xs_def missing_def image_iff)
  have "sorted_wrt (<) xs" unfolding xs_def by (intro sorted_wrt_filter strict_sorted_list_of_set)
  moreover have "?f p' < ?f p" if "p \<in> set xs" "p' \<in> set xs" "p' < p" for p p'
  proof -
    have lev: "p \<in> level (Suc l)" "p' \<in> level (Suc l)" "p \<in> obt" "p' \<in> obt" "?f p \<notin> obt" using that assms fin by (auto simp: xs_def)
    obtain s s' where s: "get_sibling_pos p = Some s" "get_sibling_pos p' = Some s'" using level_sibling lev(1,2) by blast
    have "get_parent_pos p \<noteq> get_parent_pos p'"
      using same_parent_sibling [OF lev(1,2)] that(3) lev(4,5) by auto
    then show ?thesis using sibling_order [OF lev(1,2) that(3) _ s] s by simp
  qed
  ultimately have "sorted_wrt (<) (map ?f xs)"
    by (auto simp: sorted_wrt_map intro: sorted_wrt_mono_rel)
  then have "sorted_list_of_set (set (map ?f xs)) = map ?f xs"
    unfolding strict_sorted_iff by (blast intro: sorted_list_of_set.idem_if_sorted_distinct)
  then show ?thesis unfolding set by (simp add: xs_def rev_map rev_filter)
qed

section \<open>The verifier recomputes the levels\<close>

definition known_nodes :: "'n list \<Rightarrow> nat set \<Rightarrow> (nat \<rightharpoonup> 'n)" where
  "known_nodes ns obt = (\<lambda>p. if p \<in> obt then Some (ns ! p) else None)"

lemma dom_known_nodes [simp]: "dom (known_nodes ns obt) = obt"
  by (auto simp: known_nodes_def dom_def)

lemma known_nodes_upd: "(known_nodes ns obt)(p \<mapsto> ns ! p) = known_nodes ns (insert p obt)"
  by (auto simp: known_nodes_def)

lemma parent_node:
  assumes "heap_from B 0 ns" "length ns = 2 ^ (d + 1) - 1" "Suc l \<le> d" "p \<in> level (Suc l)" "get_sibling_pos p = Some s"
  shows "ns ! get_parent_pos p =
    (if p mod 2 = 1 then hash_new_parent B (ns ! p) (ns ! s) else hash_new_parent B (ns ! s) (ns ! p))"
proof -
  have bound: "2 ^ (Suc l + 1) \<le> (2 ^ (d + 1) :: nat)" using assms(3) by (intro power_increasing) auto
  have h: "ns ! q = hash_new_parent B (ns ! Suc (2 * q)) (ns ! Suc (Suc (2 * q)))" if "q \<in> level l" for q
  proof -
    have "2 * q + 2 \<in> level (Suc l)" using that by (rule level_children)
    then have "2 * q + 2 < length ns" using bound assms(2) by (auto simp: level_def)
    then show ?thesis using assms(1) by (simp add: heap_from_def)
  qed
  show ?thesis using assms(4)
    by (cases rule: level_SucE) (use assms(5) h in \<open>auto simp: mod_Suc\<close>)
qed

lemma batch_level_known:
  assumes "heap_from B 0 ns" "length ns = 2 ^ (d + 1) - 1" "Suc l \<le> d" "obt \<subseteq> level (Suc l)"
    "distinct xs" "set xs \<subseteq> obt"
  shows "batch_level B (known_nodes ns obt) xs (known_nodes ns (get_parent_pos ` (obt - set xs)))
      (map (\<lambda>p. ns ! the (get_sibling_pos p)) (filter (\<lambda>p. the (get_sibling_pos p) \<notin> obt) xs) @ rest)
    = Some (known_nodes ns (get_parent_pos ` obt), rest)"
  using assms(5,6)
proof (induction xs)
  case (Cons p xs)
  then have p: "p \<in> obt" "p \<in> level (Suc l)" using assms(4) by auto
  obtain s where s: "get_sibling_pos p = Some s" using level_sibling [OF p(2)] by blast
  have ins: "insert (get_parent_pos p) (get_parent_pos ` (obt - set (p # xs))) = get_parent_pos ` (obt - set xs)"
    using p(1) Cons.prems(1) by (auto simp: image_iff)
  show ?case
  proof (cases "get_parent_pos p \<in> get_parent_pos ` (obt - set (p # xs))")
    case True
    then obtain p' where p': "p' \<in> obt" "p' \<notin> set (p # xs)" "get_parent_pos p = get_parent_pos p'" by auto
    then have "s \<in> obt" using same_parent_sibling [OF p(2) _ p'(3)] assms(4) s by auto
    then show ?thesis using True ins Cons s by (simp add: known_nodes_def insert_absorb)
  next
    case False
    have par: "p mod 2 = Suc 0 \<Longrightarrow> hash_new_parent B (ns ! p) (ns ! s) = ns ! get_parent_pos p"
      "p mod 2 = 0 \<Longrightarrow> hash_new_parent B (ns ! s) (ns ! p) = ns ! get_parent_pos p"
      using parent_node [OF assms(1-3) p(2) s] by simp_all
    have upd: "(known_nodes ns (get_parent_pos ` (obt - set (p # xs))))(get_parent_pos p \<mapsto> ns ! get_parent_pos p)
        = known_nodes ns (get_parent_pos ` (obt - set xs))" by (simp only: known_nodes_upd ins)
    have ih: "batch_level B (known_nodes ns obt) xs (known_nodes ns (get_parent_pos ` (obt - set xs)))
      (map (\<lambda>p. ns ! the (get_sibling_pos p)) (filter (\<lambda>p. the (get_sibling_pos p) \<notin> obt) xs) @ rest)
      = Some (known_nodes ns (get_parent_pos ` obt), rest)" using Cons.IH Cons.prems by simp
    have k: "known_nodes ns obt p = Some (ns ! p)" using p(1) by (simp add: known_nodes_def)
    have ks: "known_nodes ns obt s = (if s \<in> obt then Some (ns ! s) else None)" by (simp add: known_nodes_def)
    have n: "known_nodes ns (get_parent_pos ` (obt - set (p # xs))) (get_parent_pos p) = None"
      using False by (simp add: known_nodes_def)
    show ?thesis
      by (cases "s \<in> obt") (simp_all add: n s k ks par upd ih Let_def del: list.set)
  qed
qed simp

lemma batch_levels_known:
  assumes "heap_from B 0 ns" "length ns = 2 ^ (d + 1) - 1" "l \<le> d" "obt \<subseteq> level l" "obt \<noteq> {}"
  shows "batch_levels B l (known_nodes ns obt) (map ((!) ns) (rev (sorted_list_of_set (missing_below l obt))) @ rest)
    = Some (known_nodes ns {0}, rest)"
  using assms(3-5)
proof (induction l arbitrary: obt)
  case 0
  then have "obt = {0}" by (auto simp: level_def)
  then show ?case by simp
next
  case (Suc l)
  have fin: "finite obt" using Suc.prems(2) by (rule finite_subset) simp
  have par: "get_parent_pos ` obt \<subseteq> level l" using Suc.prems(2) level_parent by blast
  have ord: "b < a" if "a \<in> missing obt" "b \<in> missing_below l (get_parent_pos ` obt)" for a b
    using missing_below_bound [OF par that(2)] missing_level [OF Suc.prems(2)] that(1) by (auto simp: level_def)
  have fm: "finite (missing obt)" using missing_level [OF Suc.prems(2)] by (rule finite_subset) simp
  have split: "rev (sorted_list_of_set (missing_below (Suc l) obt))
      = rev (sorted_list_of_set (missing obt)) @ rev (sorted_list_of_set (missing_below l (get_parent_pos ` obt)))"
    using sorted_list_of_union [OF fm finite_missing_below [OF par] ord] by simp
  have lev: "batch_level B (known_nodes ns obt) (rev (sorted_list_of_set obt)) Map.empty
      (map ((!) ns) (rev (sorted_list_of_set (missing obt))) @ rest') = Some (known_nodes ns (get_parent_pos ` obt), rest')"
    for rest'
  proof -
    have "known_nodes ns (get_parent_pos ` (obt - set (rev (sorted_list_of_set obt)))) = Map.empty"
      using fin by (auto simp: known_nodes_def)
    then show ?thesis
      using batch_level_known [OF assms(1,2) Suc.prems(1,2), of "rev (sorted_list_of_set obt)" rest'] fin
      unfolding missing_sorted [OF Suc.prems(2)] by (simp add: comp_def)
  qed
  show ?case
    unfolding split batch_levels.simps dom_known_nodes map_append append_assoc lev
    using Suc.IH [OF _ par] Suc.prems by simp
qed

section \<open>Batch proofs are complete\<close>

lemma ilog2_power: "ilog2 (2 ^ n) = n"
  by (induction n) (simp_all add: ilog2.simps [of "2 * m" for m] ilog2.simps [of "Suc 0"])

lemma nodes_at_eq:
  "list_all (\<lambda>p. p < length (tree_nodes t)) ps \<Longrightarrow> nodes_at t ps = Some (map ((!) (tree_nodes t)) ps)"
  by (induction ps) (auto simp: node_get_def)

lemma insert_leaves_known:
  assumes "list_all (\<lambda>(pos, v). pos + first < 2 ^ 64 \<and> hash_data B v = ns ! (pos + first)) ps"
  shows "insert_leaves B first ps (known_nodes ns obt)
    = Some (known_nodes ns (obt \<union> (\<lambda>(pos, v). pos + first) ` set ps))"
  using assms
proof (induction ps arbitrary: obt)
  case (Cons pv ps)
  obtain pos v where pv: "pv = (pos, v)" by (cases pv)
  have h: "(pos + first) mod 2 ^ 64 = pos + first" "hash_data B v = ns ! (pos + first)"
    "list_all (\<lambda>(pos, v). pos + first < 2 ^ 64 \<and> hash_data B v = ns ! (pos + first)) ps"
    using Cons.prems by (simp_all add: pv)
  show ?case
  proof (cases "pos + first \<in> obt")
    case True
    then have "known_nodes ns obt (pos + first) = Some (ns ! (pos + first))" by (simp add: known_nodes_def)
    then show ?thesis using Cons.IH [OF h(3), of obt] True unfolding pv insert_leaves.simps Let_def h(1,2)
      by (simp add: insert_absorb)
  next
    case False
    then have "known_nodes ns obt (pos + first) = None" by (simp add: known_nodes_def)
    then show ?thesis using Cons.IH [OF h(3), of "insert (pos + first) obt"] unfolding pv insert_leaves.simps Let_def h(1,2)
      by (simp add: known_nodes_upd)
  qed
qed simp

text \<open>The positions of the leaves in the tree, and the nodes of the proof for them.\<close>

definition leaf_nodes :: "nat \<Rightarrow> nat list \<Rightarrow> nat set" where
  "leaf_nodes d pos_list = (\<lambda>pos. pos + (2 ^ d - 1)) ` set pos_list"

lemma leaf_nodes_level: "list_all (\<lambda>pos. pos < 2 ^ d) pos_list \<Longrightarrow> leaf_nodes d pos_list \<subseteq> level d"
  using two_power_Suc [of d] by (fastforce simp: leaf_nodes_def level_def list_all_iff)

lemma batch_proof_nodes:
  assumes t: "tree_over B d leaves t" and d: "d < 63" and ps: "pos_list \<noteq> []" "list_all (\<lambda>pos. pos < 2 ^ d) pos_list"
  shows "get_batch_proof t pos_list =
    Some (Inr (map ((!) (tree_nodes t)) (rev (sorted_list_of_set (missing_below d (leaf_nodes d pos_list))))))"
proof -
  let ?obt = "leaf_nodes d pos_list"
  have len: "length (tree_nodes t) = 2 ^ (d + 1) - 1" using t by (simp add: tree_over_def)
  have nc: "node_count t + 1 = 2 ^ Suc d" "node_count t div 2 = 2 ^ d - 1" "(node_count t + 2) div 2 = 2 ^ d"
    using len two_power_Suc [of d] by (auto simp: node_count_def)
  note lev = leaf_nodes_level [OF ps(2)]
  have u: "u32_dec (Suc d) = d" using d by (simp add: u32_dec_def)
  have "finite ?obt" "set (map (\<lambda>pos. pos + (2 ^ d - 1)) pos_list) = ?obt" by (simp_all add: leaf_nodes_def)
  then have "get_batch_auth_path_positions t (map (\<lambda>pos. pos + (2 ^ d - 1)) pos_list)
      = rev (sorted_list_of_set (missing_below d ?obt))"
    using auth_levels_eq [of ?obt d "{}"] unfolding get_batch_auth_path_positions_def Let_def nc(1) ilog2_power u
    by (simp add: case_prod_beta)
  moreover have "list_all (\<lambda>p. p < length (tree_nodes t)) (rev (sorted_list_of_set (missing_below d ?obt)))"
    using missing_below_bound [OF lev] finite_missing_below [OF lev] by (simp add: list_all_iff len)
  ultimately show ?thesis
    using ps unfolding get_batch_proof_def Let_def nc(2,3) by (auto simp: nodes_at_eq list_ex_iff list_all_iff)
qed

lemma leaves_known:
  assumes t: "tree_over B d leaves t" and d: "d < 63" and ps: "list_all (\<lambda>pos. pos < 2 ^ d) pos_list"
    and vs: "length vs = length pos_list" "\<And>i. i < length vs \<Longrightarrow> hash_data B (vs ! i) = leaves ! (pos_list ! i)"
  shows "insert_leaves B (2 ^ d - 1) (zip pos_list vs) Map.empty
    = Some (known_nodes (tree_nodes t) (leaf_nodes d pos_list))"
proof -
  let ?ns = "tree_nodes t"
  have leaf: "pos + (2 ^ d - 1) < 2 ^ 64 \<and> ?ns ! (pos + (2 ^ d - 1)) = leaves ! pos" if "pos < 2 ^ d" for pos
  proof -
    have "(2::nat) ^ d < 2 ^ 63" using d by (intro power_strict_increasing) auto
    moreover have "?ns ! (pos + (2 ^ d - 1)) = leaves ! pos"
      using tree_over_leaf [OF t that] by (simp only: add.commute)
    moreover have "pos + (2 ^ d - 1) < 2 ^ 64" using calculation(1) that by simp
    ultimately show ?thesis by simp
  qed
  have all: "list_all (\<lambda>(pos, v). pos + (2 ^ d - 1) < 2 ^ 64 \<and> hash_data B v = ?ns ! (pos + (2 ^ d - 1))) (zip pos_list vs)"
    unfolding list_all_length
  proof (intro allI impI)
    fix i assume "i < length (zip pos_list vs)"
    then show "case zip pos_list vs ! i of (pos, v) \<Rightarrow> pos + (2 ^ d - 1) < 2 ^ 64 \<and> hash_data B v = ?ns ! (pos + (2 ^ d - 1))"
      using leaf [of "pos_list ! i"] ps vs by (simp add: list_all_length)
  qed
  have "(\<lambda>(pos, v). pos + (2 ^ d - 1)) ` set (zip pos_list vs) = (\<lambda>pos. pos + (2 ^ d - 1)) ` set (map fst (zip pos_list vs))"
    by (force simp: image_iff)
  then have "(\<lambda>(pos, v). pos + (2 ^ d - 1)) ` set (zip pos_list vs) = leaf_nodes d pos_list"
    using vs(1) by (simp add: leaf_nodes_def)
  moreover have "known_nodes ?ns {} = Map.empty" by (auto simp: known_nodes_def)
  ultimately show ?thesis using insert_leaves_known [OF all, of "{}"] by simp
qed

lemma batch_complete:
  assumes t: "tree_over B d leaves t" and d: "d < 63" and ps: "pos_list \<noteq> []" "list_all (\<lambda>pos. pos < 2 ^ d) pos_list"
    and vs: "length vs = length pos_list" "\<And>i. i < length vs \<Longrightarrow> hash_data B (vs ! i) = leaves ! (pos_list ! i)"
  shows "\<exists>path. get_batch_proof t pos_list = Some (Inr path)
    \<and> batch_verify B path (tree_root t) pos_list vs (2 ^ d) = Some True"
proof -
  let ?ns = "tree_nodes t" and ?obt = "leaf_nodes d pos_list"
  define path where "path = map ((!) ?ns) (rev (sorted_list_of_set (missing_below d ?obt)))"
  have heap: "heap_from B 0 ?ns" and len: "length ?ns = 2 ^ (d + 1) - 1" and root: "tree_root t = ?ns ! 0"
    using t by (simp_all add: tree_over_def)
  have u: "u32_dec (Suc d) = d" using d by (simp add: u32_dec_def)
  have ver: "batch_levels B d (known_nodes ?ns ?obt) path = Some (known_nodes ?ns {0}, [])"
    using batch_levels_known [OF heap len order_refl leaf_nodes_level [OF ps(2)], of "[]"] ps(1)
    by (simp add: path_def leaf_nodes_def)
  have p: "(2::nat) ^ Suc d < 2 ^ 64" using d by (intro power_strict_increasing) auto
  then have m: "2 * 2 ^ d mod 2 ^ 64 = (2::nat) ^ Suc d" by simp
  have "2 ^ d + (2 ^ 64 - 1) = (2 ^ d - 1) + (2 ^ 64 :: nat)" using two_power_Suc [of d] by auto
  then have f: "(2 ^ d + (2 ^ 64 - 1)) mod 2 ^ 64 = (2 ^ d - 1 :: nat)" using p by (simp only: mod_add_self2) simp
  have known: "insert_leaves B (2 ^ d - 1) (zip pos_list vs) Map.empty = Some (known_nodes ?ns ?obt)"
    by (rule leaves_known [OF t d ps(2) vs(1)]) (rule vs(2))
  have "batch_verify B path (tree_root t) pos_list vs (2 ^ d) = Some True"
    unfolding batch_verify_def Let_def f m known option.case ilog2_power u ver prod.case
    using ps(1) vs(1) by (simp add: root) (simp add: known_nodes_def)
  then show ?thesis using batch_proof_nodes [OF t d ps] by (simp add: path_def)
qed

text \<open>C30: batch proofs are complete. For any list of positions of leaves that is not empty (in any
  order, with repetitions), a built tree gives a batch proof, without panicking, and the batch
  verifier accepts it together with the data at these positions.\<close>

theorem merkle_batch_complete:
  assumes "merkle_build B ds = Some (Some t)" "node_count t < 2 ^ 63" "pos_list \<noteq> []"
    "list_all (\<lambda>pos. pos < length ds) pos_list"
  shows "\<exists>path. get_batch_proof t pos_list = Some (Inr path)
    \<and> batch_verify B path (tree_root t) pos_list (map ((!) ds) pos_list) ((node_count t + 1) div 2) = Some True"
proof -
  let ?ps = "padded_leaves (map (hash_data B) ds)"
  obtain d where d: "tree_over B d ?ps t" using merkle_build_tree [OF assms(1)] by blast
  then have n: "node_count t = 2 ^ (d + 1) - 1" by (simp add: tree_over_def node_count_def)
  have "(2::nat) ^ (d + 1) \<le> 2 ^ 63" using assms(2) n by simp
  then have "d + 1 \<le> 63" by (rule power_le_imp_le_exp [rotated]) simp
  then have d63: "d < 63" by simp
  have lt: "pos < 2 ^ d \<and> ?ps ! pos = hash_data B (ds ! pos)" if "pos < length ds" for pos
    using that d by (auto simp: padded_leaves_def nth_append tree_over_def)
  have pos: "list_all (\<lambda>pos. pos < 2 ^ d) pos_list" using assms(4) lt by (auto simp: list_all_iff)
  have vals: "hash_data B (map ((!) ds) pos_list ! i) = ?ps ! (pos_list ! i)" if "i < length (map ((!) ds) pos_list)" for i
    using that assms(4) lt by (simp add: list_all_length)
  have "(node_count t + 1) div 2 = 2 ^ d" using n two_power_Suc [of d] by auto
  then show ?thesis using batch_complete [OF d d63 assms(3) pos _ vals] by simp
qed

theorem merkle_batch_complete_witness:
  "\<exists>t path. merkle_build sample_backend [1, 2, 3] = Some (Some t) \<and> get_batch_proof t [2, 0, 2] = Some (Inr path)
     \<and> batch_verify sample_backend path (tree_root t) [2, 0, 2] [3, 1, 3] 4 = Some True"
proof -
  obtain t where t: "merkle_build sample_backend [1, 2, 3] = Some (Some t)" "node_count t = 7"
    using sample_tree by blast
  then show ?thesis using merkle_batch_complete [OF t(1), of "[2, 0, 2]"] by auto
qed

text \<open>A tree that carries only its root has no leaves, but a batch proof for position zero is not
  refused.\<close>

lemma root_only_batch_proof: "get_batch_proof (from_root r) [0] = Some (Inr [])"
proof -
  have "auth_level ({0}, {}) = ({0}, {})"
    by (simp add: auth_level_def auth_step_def get_sibling_pos_def get_parent_pos_def)
  then have "(auth_level ^^ n) ({0}, {}) = ({0}, {})" for n by (induction n) simp_all
  then show ?thesis
    by (simp add: get_batch_proof_def node_count_def from_root_def get_batch_auth_path_positions_def)
qed

end
