(* ===== verification/Goldilocks_Prime.thy ===== *)
theory Goldilocks_Prime
  imports Vm_Prelude
begin

text \<open>
  The Goldilocks prime \<open>p = 2\<^sup>6\<^sup>4 - 2\<^sup>3\<^sup>2 + 1\<close>: its primality, by Lucas' test with the base seven
  and the factorisation \<open>p - 1 = 2\<^sup>3\<^sup>2 * 3 * 5 * 17 * 257 * 65537\<close>, and Fermat's little theorem.
\<close>

section \<open>Prime moduli\<close>

definition prime_modulus :: "nat \<Rightarrow> bool" where
  "prime_modulus q \<longleftrightarrow> 1 < q \<and> (\<forall>x. 0 < x \<longrightarrow> x < q \<longrightarrow> coprime x q)"

lemma prime_modulus_coprime: "prime_modulus q \<Longrightarrow> \<not> q dvd x \<Longrightarrow> coprime x q"
proof -
  assume q: "prime_modulus q" and x: "\<not> q dvd x"
  have "0 < x mod q" "x mod q < q" using q x by (auto simp: prime_modulus_def dvd_eq_mod_eq_0)
  then have "coprime (x mod q) q" using q by (simp add: prime_modulus_def)
  moreover have "q \<noteq> 0" using q by (auto simp: prime_modulus_def)
  ultimately show ?thesis by simp
qed

lemma prime_modulus_product: "prime_modulus q \<Longrightarrow> q dvd x * y \<Longrightarrow> q dvd x \<or> q dvd y"
  using prime_modulus_coprime [of q x] coprime_dvd_mult_right_iff [of q x y]
  by (auto simp: coprime_commute)

text \<open>Fermat: multiplication with \<open>a\<close> permutes the non-zero residues.\<close>

lemma fermat_little:
  assumes "prime_modulus q" "\<not> q dvd a"
  shows "a ^ (q - 1) mod q = 1"
proof -
  let ?S = "{1..<q}"
  have q: "1 < q" using assms(1) by (simp add: prime_modulus_def)
  have inj: "inj_on (\<lambda>x. a * x mod q) ?S"
  proof (rule linorder_inj_onI')
    fix x y assume xy: "x \<in> ?S" "y \<in> ?S" "x < y"
    show "a * x mod q \<noteq> a * y mod q"
    proof
      assume "a * x mod q = a * y mod q"
      then have "q dvd a * y - a * x" using xy by (metis mod_eq_dvd_iff_nat mult_le_mono2 less_imp_le)
      then have "q dvd a * (y - x)" by (simp add: diff_mult_distrib2)
      then have "q dvd y - x" using prime_modulus_product [OF assms(1)] assms(2) by blast
      then have "q \<le> y - x" using xy by (intro dvd_imp_le) auto
      then show False using xy by simp
    qed
  qed
  have "(\<lambda>x. a * x mod q) ` ?S \<subseteq> ?S"
  proof
    fix z assume "z \<in> (\<lambda>x. a * x mod q) ` ?S"
    then obtain x where x: "x \<in> ?S" "z = a * x mod q" by blast
    have "\<not> q dvd x" using x(1) nat_dvd_not_less [of x q] by simp
    then have "\<not> q dvd a * x" using prime_modulus_product [OF assms(1), of a x] assms(2) by blast
    then show "z \<in> ?S" using x q by (auto simp: dvd_eq_mod_eq_0 Suc_le_eq)
  qed
  then have im: "(\<lambda>x. a * x mod q) ` ?S = ?S" using inj by (intro endo_inj_surj) auto
  have "(\<Prod>x\<in>?S. a * x mod q) = \<Prod>?S" using prod.reindex [OF inj, of id] im by simp
  then have "(\<Prod>x\<in>?S. a * x) mod q = \<Prod>?S mod q" using mod_prod_eq [of "\<lambda>x. a * x" q ?S] by simp
  then have "a ^ (q - 1) * \<Prod>?S mod q = \<Prod>?S mod q" by (simp add: prod.distrib)
  moreover have "\<Prod>?S \<le> a ^ (q - 1) * \<Prod>?S" using assms(2) by (cases a) auto
  ultimately have "q dvd a ^ (q - 1) * \<Prod>?S - \<Prod>?S" by (simp add: mod_eq_dvd_iff_nat)
  then have "q dvd (a ^ (q - 1) - 1) * \<Prod>?S" by (simp add: diff_mult_distrib)
  moreover have "coprime (\<Prod>?S) q"
    using assms(1) by (intro prod_coprime_left) (auto simp: prime_modulus_def)
  ultimately have d: "q dvd a ^ (q - 1) - 1"
    using coprime_dvd_mult_left_iff [of q "\<Prod>?S"] by (simp add: coprime_commute)
  have "1 \<le> a ^ (q - 1)" using assms(2) by (cases a) auto
  then have "a ^ (q - 1) mod q = 1 mod q" using d mod_eq_dvd_iff_nat [of 1 "a ^ (q - 1)" q] by simp
  then show ?thesis using q by simp
qed

section \<open>Lucas' test\<close>

definition order_of :: "nat \<Rightarrow> nat \<Rightarrow> nat" where
  "order_of q a = (LEAST k. 0 < k \<and> a ^ k mod q = 1)"

lemma order_of_props:
  assumes "0 < n" "a ^ n mod q = 1"
  shows "0 < order_of q a" "a ^ order_of q a mod q = 1" "\<And>k. 0 < k \<Longrightarrow> a ^ k mod q = 1 \<Longrightarrow> order_of q a \<le> k"
proof -
  have "0 < order_of q a \<and> a ^ order_of q a mod q = 1"
    unfolding order_of_def by (rule LeastI [of _ n]) (use assms in simp)
  then show "0 < order_of q a" "a ^ order_of q a mod q = 1" by simp_all
  show "order_of q a \<le> k" if "0 < k" "a ^ k mod q = 1" for k
    unfolding order_of_def by (rule Least_le) (use that in simp)
qed

lemma power_one_mod:
  fixes q :: nat
  assumes "x mod q = 1"
  shows "x ^ n mod q = 1 mod q"
  by (metis assms power_mod power_one)

lemma order_of_dvd:
  assumes "1 < q" "0 < n" "a ^ n mod q = 1"
  shows "order_of q a dvd n"
proof -
  let ?k = "order_of q a"
  note o = order_of_props [OF assms(2,3)]
  have "a ^ n = (a ^ ?k) ^ (n div ?k) * a ^ (n mod ?k)" by (simp flip: power_mult power_add)
  then have "a ^ (n mod ?k) mod q = 1"
    using assms(1,3) power_one_mod [OF o(2), of "n div ?k"] by (metis mod_mult_left_eq mod_less mult_1)
  then have "n mod ?k = 0" using o(3) [of "n mod ?k"] mod_less_divisor [OF o(1), of n] by linarith
  then show ?thesis by auto
qed

text \<open>An element whose order is \<open>q - 1\<close> makes all smaller numbers coprime to \<open>q\<close>.\<close>

lemma order_prime:
  assumes "1 < q" "a ^ (q - 1) mod q = 1" "order_of q a = q - 1"
  shows "prime_modulus q"
proof -
  have q1: "0 < q - 1" using assms(1) by simp
  note o = order_of_props [OF q1 assms(2)]
  have cop: "coprime a q"
  proof (rule coprimeI)
    fix d assume d: "d dvd a" "d dvd q"
    have "d dvd a ^ (q - 1)" using d(1) q1 by (simp add: dvd_power_same dvd_trans)
    then have "d dvd a ^ (q - 1) mod q" using d(2) by (simp add: dvd_mod)
    then show "is_unit d" using assms(2) by simp
  qed
  let ?C = "{x\<in>{1..<q}. coprime x q}"
  have inj: "inj_on (\<lambda>i. a ^ i mod q) {0..<q - 1}"
  proof (rule linorder_inj_onI')
    fix i j assume ij: "i \<in> {0..<q - 1}" "j \<in> {0..<q - 1}" "i < j"
    show "a ^ i mod q \<noteq> a ^ j mod q"
    proof
      assume e: "a ^ i mod q = a ^ j mod q"
      have pos: "0 < a" using cop assms(1) by (cases a) auto
      have "a ^ j = a ^ i * a ^ (j - i)" using ij(3) by (simp flip: power_add)
      then have "q dvd a ^ i * a ^ (j - i) - a ^ i"
        using e pos by (metis mod_eq_dvd_iff_nat mult_le_mono2 mult.right_neutral one_le_power Suc_leI One_nat_def)
      then have "q dvd a ^ i * (a ^ (j - i) - 1)" by (simp add: diff_mult_distrib2)
      moreover have "coprime q (a ^ i)" using cop by (simp add: coprime_commute)
      ultimately have "q dvd a ^ (j - i) - 1" using coprime_dvd_mult_right_iff by blast
      then have "a ^ (j - i) mod q = 1 mod q" using pos mod_eq_dvd_iff_nat [of 1 "a ^ (j - i)" q] by simp
      then have "q - 1 \<le> j - i" using o(3) [of "j - i"] ij(3) assms(1,3) by simp
      then show False using ij by simp
    qed
  qed
  have "(\<lambda>i. a ^ i mod q) ` {0..<q - 1} \<subseteq> ?C"
  proof
    fix z assume "z \<in> (\<lambda>i. a ^ i mod q) ` {0..<q - 1}"
    then obtain i where z: "z = a ^ i mod q" by blast
    have c: "coprime z q" using cop assms(1) unfolding z by simp
    moreover have "z < q" using assms(1) by (simp add: z)
    moreover have "z \<noteq> 0" using c assms(1) by (cases z) auto
    ultimately show "z \<in> ?C" by simp
  qed
  then have "q - 1 \<le> card ?C" using card_inj_on_le [OF inj] by simp
  moreover have "card ?C \<le> card {1..<q}" by (rule card_mono) auto
  ultimately have "card {1..<q} \<le> card ?C" by simp
  then have eq: "?C = {1..<q}" by (rule card_seteq [rotated 2]) auto
  have "coprime x q" if "0 < x" "x < q" for x
  proof -
    have "x \<in> {1..<q}" using that by simp
    then have "x \<in> ?C" by (simp only: eq)
    then show ?thesis by simp
  qed
  then show ?thesis using assms(1) by (simp add: prime_modulus_def)
qed

lemma lucas_test:
  assumes "1 < q" "a ^ (q - 1) mod q = 1"
    "\<And>m. m dvd q - 1 \<Longrightarrow> m \<noteq> 1 \<Longrightarrow> \<exists>r\<in>R. r dvd m"
    "\<And>r. r \<in> R \<Longrightarrow> a ^ ((q - 1) div r) mod q \<noteq> 1"
  shows "prime_modulus q"
proof -
  have q1: "0 < q - 1" using assms(1) by simp
  note o = order_of_props [OF q1 assms(2)]
  obtain m where m: "q - 1 = order_of q a * m" using order_of_dvd [OF assms(1) q1 assms(2)] by blast
  have "m = 1"
  proof (rule ccontr)
    assume "m \<noteq> 1"
    moreover have "m dvd q - 1" using m by (metis dvd_triv_right)
    ultimately obtain r n where r: "r \<in> R" "m = r * n" using assms(3) [of m] by (metis dvdE)
    have "0 < r" using r(2) m q1 by (cases r) auto
    then have "(q - 1) div r = order_of q a * n" using m r(2) by (simp add: ac_simps)
    then have "a ^ ((q - 1) div r) mod q = 1"
      using power_one_mod [OF o(2), of n] assms(1) by (simp add: power_mult)
    then show False using assms(4) [OF r(1)] by simp
  qed
  then show ?thesis using order_prime [OF assms(1,2)] m by simp
qed

section \<open>The Goldilocks prime\<close>

definition goldilocks_p :: nat where "goldilocks_p = 2 ^ 64 - 2 ^ 32 + 1"

text \<open>Modular powers by repeated squaring.\<close>

fun power_mod_nat :: "nat \<Rightarrow> nat \<Rightarrow> nat \<Rightarrow> nat" where
  "power_mod_nat q a n =
     (if n = 0 then 1 mod q
      else (let h = power_mod_nat q a (n div 2); s = h * h mod q
            in if even n then s else s * a mod q))"

declare power_mod_nat.simps [simp del]

lemma power_mod_nat_eq: "power_mod_nat q a n = a ^ n mod q"
proof (induction q a n rule: power_mod_nat.induct)
  case (1 q a n)
  show ?case
  proof (cases "n = 0")
    case False
    then have h: "power_mod_nat q a (n div 2) = a ^ (n div 2) mod q" using 1 by simp
    have s: "(a ^ (n div 2) mod q) * (a ^ (n div 2) mod q) mod q = a ^ (2 * (n div 2)) mod q"
      by (simp add: mod_mult_eq mult_2 power_add)
    show ?thesis
    proof (cases "even n")
      case True
      then show ?thesis using False s by (subst power_mod_nat.simps) (simp add: h Let_def)
    next
      case odd: False
      then have "a ^ n = a ^ (2 * (n div 2)) * a" by (metis odd_two_times_div_two_succ power_Suc2 Suc_eq_plus1)
      then have "((a ^ (n div 2) mod q) * (a ^ (n div 2) mod q) mod q) * a mod q = a ^ n mod q"
        by (metis s mod_mult_left_eq)
      then show ?thesis using False odd unfolding power_mod_nat.simps [of q a n] h Let_def by simp
    qed
  qed (subst power_mod_nat.simps, simp)
qed

lemma small_primes: "prime_modulus 2" "prime_modulus 3" "prime_modulus 5" "prime_modulus 17"
    "prime_modulus 257" "prime_modulus 65537"
proof -
  have two: "prime_modulus 2" unfolding prime_modulus_def by (auto simp: less_2_cases_iff)
  have pow2: "\<exists>r\<in>{2}. r dvd m" if "m dvd 2 ^ n" "m \<noteq> 1" for m n :: nat
  proof (rule ccontr)
    assume "\<not> (\<exists>r\<in>{2}. r dvd m)"
    then have "coprime m (2 ^ n)" using prime_modulus_coprime [OF two, of m] by simp
    then show False using coprime_absorb_left [OF that(1)] that(2) by simp
  qed
  have *: "prime_modulus q" if "q = 2 ^ n + 1" "0 < n" "power_mod_nat q 3 (q - 1) = 1" "power_mod_nat q 3 ((q - 1) div 2) \<noteq> 1" for q n
    by (rule lucas_test [of q 3 "{2}"]) (use that pow2 [of _ n] in \<open>auto simp: power_mod_nat_eq\<close>)
  show "prime_modulus 2" by (rule two)
  show "prime_modulus 3" unfolding prime_modulus_def by (auto simp: less_Suc_eq numeral_3_eq_3)
  show "prime_modulus 5" by (rule * [of 5 2]) (simp_all add: power_mod_nat.simps)
  show "prime_modulus 17" by (rule * [of 17 4]) (simp_all add: power_mod_nat.simps)
  show "prime_modulus 257" by (rule * [of 257 8]) (simp_all add: power_mod_nat.simps)
  show "prime_modulus 65537" by (rule * [of 65537 16]) (simp_all add: power_mod_nat.simps)
qed

lemma goldilocks_factors:
  assumes "m dvd goldilocks_p - 1" "m \<noteq> 1"
  shows "\<exists>r\<in>{2, 3, 5, 17, 257, 65537}. r dvd m"
proof (rule ccontr)
  assume none: "\<not> (\<exists>r\<in>{2, 3, 5, 17, 257, 65537}. r dvd m)"
  then have "coprime m 2" "coprime m 3" "coprime m 5" "coprime m 17" "coprime m 257" "coprime m 65537"
    using small_primes prime_modulus_coprime by blast+
  then have "coprime m (2 ^ 32 * (3 * (5 * (17 * (257 * 65537)))))"
    by (simp only: coprime_mult_right_iff coprime_power_right_iff simp_thms)
  moreover have "goldilocks_p - 1 = 2 ^ 32 * (3 * (5 * (17 * (257 * 65537))))" by (simp add: goldilocks_p_def)
  ultimately have "coprime m (goldilocks_p - 1)" by simp
  then have "is_unit m" using coprime_absorb_left [OF assms(1)] by blast
  then show False using assms(2) by (simp only: nat_dvd_1_iff_1)
qed

text \<open>Chains of squarings and multiplications with the quotients of the reductions as certificates.\<close>

fun pow_chain :: "nat \<Rightarrow> nat \<Rightarrow> (bool \<times> nat) list \<Rightarrow> nat \<Rightarrow> nat \<Rightarrow> (nat \<times> nat) option" where
  "pow_chain q a [] e v = Some (e, v)"
| "pow_chain q a ((b, k) # cs) e v =
     (if k * q \<le> v * v * (if b then a else 1)
      then pow_chain q a cs (2 * e + (if b then 1 else 0)) (v * v * (if b then a else 1) - k * q) else None)"

lemma pow_chain_mod:
  "pow_chain q a cs e v = Some (e', v') \<Longrightarrow> v mod q = a ^ e mod q \<Longrightarrow> v' mod q = a ^ e' mod q"
proof (induction cs arbitrary: e v)
  case (Cons c cs)
  obtain b k where c: "c = (b, k)" by (cases c)
  define w where "w = v * v * (if b then a else 1)"
  have kw: "k * q \<le> w" and r: "pow_chain q a cs (2 * e + (if b then 1 else 0)) (w - k * q) = Some (e', v')"
    using Cons.prems(1) by (simp_all add: c w_def split: if_splits)
  have "(w - k * q) mod q = (w - k * q + k * q) mod q" by simp
  then have "(w - k * q) mod q = w mod q" using kw by simp
  also have "\<dots> = a ^ e * a ^ e * (if b then a else 1) mod q"
    unfolding w_def using Cons.prems(2) by (metis mod_mult_cong)
  also have "\<dots> = a ^ (2 * e + (if b then 1 else 0)) mod q" by (simp add: power_add mult_2)
  finally show ?case using Cons.IH [OF r] by simp
qed simp

lemma pow_chain_power: "pow_chain q a cs 1 a = Some (e, v) \<Longrightarrow> v < q \<Longrightarrow> a ^ e mod q = v"
  using pow_chain_mod [of q a cs 1 a e v] by simp

lemma pow_nested: "a ^ m mod q = b \<Longrightarrow> a ^ (m * n) mod q = b ^ n mod q" for q :: nat
  by (metis power_mod power_mult)

lemma pow_7_2_31: "7 ^ 2147483648 mod 18446744069414584321 = (17380019310548783236 :: nat)"
  by (rule pow_chain_power [of 18446744069414584321 7 "[(False, 0), (False, 0), (False, 0), (False, 0), (False, 59871144), (False, 755374470194167763),
      (False, 6862048634637463057), (False, 8015445760942885145), (False, 128009590028552839),
      (False, 18296380226993647159), (False, 320528513733820776), (False, 2191551073725880667),
      (False, 5512341186441451559), (False, 12351627359374782256), (False, 17682172705301910413),
      (False, 6010467627164328842), (False, 6747801095969600701), (False, 7600501410037550524),
      (False, 113557517201986392), (False, 12633482870970026938), (False, 9147578187632842085),
      (False, 14743753205716107851), (False, 16874185089843886439), (False, 1059054864916706342),
      (False, 2815390353464961295), (False, 17310231610247778778), (False, 1311797088379918943),
      (False, 11311875475476573771), (False, 16920151864880832278), (False, 1624007543655523727),
      (False, 920384880924393333)]" 2147483648 17380019310548783236]) simp_all

lemma pow_z_half: "17380019310548783236 ^ 4294967295 mod 18446744069414584321 = (18446744069414584320 :: nat)"
  by (rule pow_chain_power [of 18446744069414584321 17380019310548783236 "[(True, 284597474294229004962771048928150887812), (True, 251594588174903174287149757416798079636),
      (True, 299807796182835002668650515916909175302), (True, 199560035840227581553794653835809119833),
      (True, 157128829845498134119390112467797344562), (True, 108060311294867421334528186190351060153),
      (True, 53010775710227242204936715179920679845), (True, 75740160958499753275256511954546138043),
      (True, 158898483467170731750264254105485622684), (True, 150977665127260866381369830507232987384),
      (True, 101663765793746024484670193335037747), (True, 113778894294461300965373213951457937107),
      (True, 204830447351263510808733826545130018519), (True, 113533788800715682770691841811432673296),
      (True, 111179565433971948500862982964880067966), (True, 50458559816362118730636688591732378378),
      (True, 96567820683658513875704957179982032070), (True, 16100697483497818927472507853176464),
      (True, 293889215521684173647878164110487881819), (True, 37859477732899433826921719673640869398),
      (True, 114267064703876070843900418190582408168), (True, 189327875168055179969254958596776680368),
      (True, 210940472451273360862344585507085185825), (True, 159648649308500063134580583641339584980),
      (True, 60668090515420752469429063960344939106), (True, 22860565366147167588556754197109184910),
      (True, 198779455165521473655801656117626402951), (True, 315464585236538423292650276192243918038),
      (True, 132374702026977223084204461406336725313), (True, 90993744033134654102877807882780206612),
      (True, 236585668084478979182929352029211493376)]" 4294967295 18446744069414584320]) simp_all

lemma pow_y_3: "12275445934081160404 ^ 1431655765 mod 18446744069414584321 = (18446744065119617025 :: nat)"
  by (rule pow_chain_power [of 18446744069414584321 12275445934081160404 "[(False, 8168735485976295571), (True, 15055255547563742083916918692150739916),
      (False, 3282118653880420675), (True, 182021056884462693217182349361348108590),
      (False, 3686693103043351759), (True, 5033699207389492221595216353803888493),
      (False, 1214669331827576209), (True, 75051078487440581253548437416183184816),
      (False, 18276012512858321091), (True, 600641907823157561858477361564098020),
      (False, 11459893012886547742), (True, 505364274020794804220498658306938172),
      (False, 6934713082847909837), (True, 154646113421814954802948472281830919318),
      (False, 1136942792315139), (True, 9032752602797638727209662986367575213),
      (False, 18238232221457944923), (True, 140916317429353905899850599826853898087),
      (False, 14868096792685149494), (True, 96581353405703368759199337485042771766),
      (False, 1767220008600938079), (True, 5496647137786493675726229921031165112),
      (False, 3300127066042474929), (True, 220978499478992082669933599751615503232),
      (False, 9293438620673545254), (True, 145878886570762378270598142543191774233),
      (False, 2301241195950091181), (True, 83151935554949970326784123719472075485),
      (False, 7006540964054793514), (True, 12395903988265825099455580836203513811)]" 1431655765 18446744065119617025]) simp_all

lemma pow_y_5: "12275445934081160404 ^ 858993459 mod 18446744069414584321 = (1373043270956696022 :: nat)"
  by (rule pow_chain_power [of 18446744069414584321 12275445934081160404 "[(True, 100274870807912209362790343088254163096), (False, 88816750161756197),
      (False, 6925275124142910150), (True, 151726160176490491914094928331239525089),
      (True, 86416917917651549568599076132357467129), (False, 514356470615174901),
      (False, 15678750428150883768), (True, 43480362780434769032562697029243807451),
      (True, 37251844938184504937139608973678841855), (False, 3671294090459423032),
      (False, 7224450740575228597), (True, 28775785285358006244236350420756755000),
      (True, 159216240824422652561537687302952178221), (False, 9328042280341345770),
      (False, 5320753838180461495), (True, 30978722469593171351006313070503490760),
      (True, 68827490748106710927589718755901850937), (False, 747949331725586648),
      (False, 5648320230364794321), (True, 14390021471478751800911961443503102560),
      (True, 33347712918230424292637907047889841385), (False, 30519917309163602),
      (False, 3455455379624266697), (True, 10322964372211321478982442407886978069),
      (True, 194711860406504085366562147278904312264), (False, 3243090127448320367),
      (False, 1055621433976534112), (True, 9996150991898120213644906491999535067),
      (True, 200501719191153786552337209680167230142)]" 858993459 1373043270956696022]) simp_all

lemma pow_y_17: "12275445934081160404 ^ 252645135 mod 18446744069414584321 = (16301593560560007290 :: nat)"
  by (rule pow_chain_power [of 18446744069414584321 12275445934081160404 "[(True, 100274870807912209362790343088254163096), (True, 1090265214651432361609400511988007658),
      (True, 13772612637827783510193476976452324920), (False, 6891337865763175941),
      (False, 7896676138603213309), (False, 1597368706240514140), (False, 13005355058810919721),
      (True, 139706572131918066197052812713804511595), (True, 211728396174782106773452823340786936761),
      (True, 104122134028296916355271974218971788462), (True, 183376997478832578836558575473062953523),
      (False, 15816388934525878534), (False, 5113562880290355251), (False, 18259836405826822176),
      (False, 662359395769576661), (True, 6680914872613112881930999115471605969),
      (True, 3143536582228857897844295933184761010), (True, 981283558953289588116874617827479172),
      (True, 16726005470906218682092293359138317841), (False, 12232801028896668531),
      (False, 8986248239092391190), (False, 9429955410138963574), (False, 2961198584128551292),
      (True, 1089632914816255857393157261848039150), (True, 848583931035632731384941639984599267),
      (True, 86362944183409881989703258657930278189), (True, 118615946294020551166815813567857364506)]" 252645135 16301593560560007290]) simp_all

lemma pow_y_257: "12275445934081160404 ^ 16711935 mod 18446744069414584321 = (995085315851368103 :: nat)"
  by (rule pow_chain_power [of 18446744069414584321 12275445934081160404 "[(True, 100274870807912209362790343088254163096), (True, 1090265214651432361609400511988007658),
      (True, 13772612637827783510193476976452324920), (True, 84594245384662119685192464955689626220),
      (True, 12330109368050023688518820994098800154), (True, 178868773754208974307159672645077270803),
      (True, 9010532421481014068206573319861846453), (False, 16769344167575324197),
      (False, 25356832101989228), (False, 4232428699355170230), (False, 610338651386423258),
      (False, 17174831785526800703), (False, 6778748797541061101), (False, 6983695148608873608),
      (False, 9659268875488669632), (True, 120642656369387058343363101241992594936),
      (True, 1524197520715065632186236766484262213), (True, 12738997130936998130751480385526371712),
      (True, 3096790777066731122351711583032979874), (True, 215825289482164167266506700399985109895),
      (True, 109105957594175019923667838958130451384), (True, 189937194376385108950032485241312925956),
      (True, 204677484082215750513226754123935690393)]" 16711935 995085315851368103]) simp_all

lemma pow_y_65537: "12275445934081160404 ^ 65535 mod 18446744069414584321 = (8478886009461009681 :: nat)"
  by (rule pow_chain_power [of 18446744069414584321 12275445934081160404 "[(True, 100274870807912209362790343088254163096), (True, 1090265214651432361609400511988007658),
      (True, 13772612637827783510193476976452324920), (True, 84594245384662119685192464955689626220),
      (True, 12330109368050023688518820994098800154), (True, 178868773754208974307159672645077270803),
      (True, 9010532421481014068206573319861846453), (True, 205851177679070134800706040955375453502),
      (True, 120814278470858744149439294103643604808), (True, 7802677956339056868464674815014050573),
      (True, 6866635437876714533845447794848974841), (True, 50073231705863478281349883648817870014),
      (True, 38585126995043357974972510001990882526), (True, 213050757993636314219819879604219470),
      (True, 1735542966025304362406573560661157439)]" 65535 8478886009461009681]) simp_all

lemma goldilocks_p_value: "goldilocks_p = 18446744069414584321"
  by (simp add: goldilocks_p_def)

lemma pow_7_half: "7 ^ ((goldilocks_p - 1) div 2) mod goldilocks_p = goldilocks_p - 1"
proof -
  have e: "(goldilocks_p - 1) div 2 = 2147483648 * 4294967295" "18446744069414584321 - 1 = (18446744069414584320 :: nat)" by (simp_all add: goldilocks_p_value)
  show ?thesis unfolding e(1) unfolding goldilocks_p_value e(2) pow_nested [OF pow_7_2_31] by (rule pow_z_half)
qed

lemma pow_7_full: "7 ^ (goldilocks_p - 1) mod goldilocks_p = 1"
proof -
  have e: "goldilocks_p - 1 = (goldilocks_p - 1) div 2 * 2" by (simp add: goldilocks_p_value)
  have s: "(goldilocks_p - 1) ^ 2 mod goldilocks_p = 1"
    by (simp add: goldilocks_p_value power2_eq_square)
  show ?thesis by (subst e) (simp only: pow_nested [OF pow_7_half] s)
qed

lemma pow_7_div:
  assumes "(goldilocks_p - 1) div r = 2147483648 * (2 * n)" "12275445934081160404 ^ n mod 18446744069414584321 = (v :: nat)" "v \<noteq> 1"
  shows "7 ^ ((goldilocks_p - 1) div r) mod goldilocks_p \<noteq> 1"
proof -
  have sq: "17380019310548783236 ^ 2 mod 18446744069414584321 = (12275445934081160404 :: nat)" by (simp add: power2_eq_square)
  show ?thesis
    unfolding assms(1) unfolding goldilocks_p_value pow_nested [OF pow_7_2_31] pow_nested [OF sq] assms(2) by (rule assms(3))
qed

lemma goldilocks_prime: "prime_modulus goldilocks_p"
proof (rule lucas_test [of _ 7 "{2, 3, 5, 17, 257, 65537}"])
  show "1 < goldilocks_p" by (simp add: goldilocks_p_def)
  show "7 ^ (goldilocks_p - 1) mod goldilocks_p = 1" by (rule pow_7_full)
  show "\<exists>r\<in>{2, 3, 5, 17, 257, 65537}. r dvd m" if "m dvd goldilocks_p - 1" "m \<noteq> 1" for m
    using goldilocks_factors that .
  have two: "7 ^ ((goldilocks_p - 1) div 2) mod goldilocks_p \<noteq> 1"
    unfolding pow_7_half by (simp add: goldilocks_p_value)
  have odd: "7 ^ ((goldilocks_p - 1) div 3) mod goldilocks_p \<noteq> 1"
    "7 ^ ((goldilocks_p - 1) div 5) mod goldilocks_p \<noteq> 1"
    "7 ^ ((goldilocks_p - 1) div 17) mod goldilocks_p \<noteq> 1"
    "7 ^ ((goldilocks_p - 1) div 257) mod goldilocks_p \<noteq> 1"
    "7 ^ ((goldilocks_p - 1) div 65537) mod goldilocks_p \<noteq> 1"
    by (rule pow_7_div [OF _ pow_y_3] pow_7_div [OF _ pow_y_5] pow_7_div [OF _ pow_y_17]
        pow_7_div [OF _ pow_y_257] pow_7_div [OF _ pow_y_65537]; simp add: goldilocks_p_value; fail)+
  show "7 ^ ((goldilocks_p - 1) div r) mod goldilocks_p \<noteq> 1" if "r \<in> {2, 3, 5, 17, 257, 65537}" for r
    using that two odd by blast
qed

end
