(* ===== verification/Goldilocks_Field.thy ===== *)
theory Goldilocks_Field
  imports Goldilocks_Prime
begin

text \<open>
  The field of integers modulo the Goldilocks prime as a type of the class \<open>field\<close>: the abstract
  values that the words of \<^verbatim>\<open>crypto/math/src/field/goldilocks.rs\<close> and of its extensions stand for.
\<close>

typedef gf = "{..<goldilocks_p}"
  by (rule exI [of _ 0]) (simp add: goldilocks_p_def)

setup_lifting type_definition_gf

lemma goldilocks_p_pos [simp]:
  "0 < goldilocks_p" "Suc 0 < goldilocks_p" "goldilocks_p \<noteq> 0" "goldilocks_p \<noteq> Suc 0"
  by (simp_all add: goldilocks_p_value)

instantiation gf :: comm_ring_1
begin

lift_definition zero_gf :: gf is 0 by simp

lift_definition one_gf :: gf is 1 by simp

lift_definition plus_gf :: "gf \<Rightarrow> gf \<Rightarrow> gf" is "\<lambda>a b. (a + b) mod goldilocks_p" by simp

lift_definition uminus_gf :: "gf \<Rightarrow> gf" is "\<lambda>a. (goldilocks_p - a) mod goldilocks_p" by simp

lift_definition minus_gf :: "gf \<Rightarrow> gf \<Rightarrow> gf" is "\<lambda>a b. (a + (goldilocks_p - b)) mod goldilocks_p" by simp

lift_definition times_gf :: "gf \<Rightarrow> gf \<Rightarrow> gf" is "\<lambda>a b. (a * b) mod goldilocks_p" by simp

instance
proof
  fix a b c :: gf
  show "a * b * c = a * (b * c)" by transfer (simp add: mod_simps mult.assoc)
  show "a * b = b * a" by transfer (simp add: mult.commute)
  show "1 * a = a" by transfer simp
  show "a + b + c = a + (b + c)" by transfer (simp add: mod_simps add.assoc)
  show "a + b = b + a" by transfer (simp add: add.commute)
  show "0 + a = a" by transfer simp
  show "- a + a = 0" by transfer (simp add: mod_simps)
  show "a - b = a + - b" by transfer (simp add: mod_simps)
  show "(a + b) * c = a * c + b * c" by transfer (simp add: mod_simps distrib_right)
  show "(0 :: gf) \<noteq> 1" by transfer simp
qed

end

instantiation gf :: field
begin

lift_definition inverse_gf :: "gf \<Rightarrow> gf" is "\<lambda>a. a ^ (goldilocks_p - 2) mod goldilocks_p" by simp

definition divide_gf :: "gf \<Rightarrow> gf \<Rightarrow> gf" where "divide_gf a b = a * inverse b"

instance
proof
  fix a b :: gf
  have p: "Suc (goldilocks_p - 2) = goldilocks_p - 1" by (simp add: goldilocks_p_value)
  show "inverse a * a = 1" if "a \<noteq> 0"
    using that
  proof transfer
    fix a :: nat
    assume a: "a \<in> {..<goldilocks_p}" "a \<noteq> 0"
    then have "\<not> goldilocks_p dvd a" by (auto dest: dvd_imp_le)
    from fermat_little [OF goldilocks_prime this]
    show "(a ^ (goldilocks_p - 2) mod goldilocks_p) * a mod goldilocks_p = 1"
      unfolding p [symmetric] by (simp add: mod_simps mult.commute)
  qed
  show "a div b = a * inverse b" by (rule divide_gf_def)
  show "inverse (0 :: gf) = 0" by transfer (simp add: zero_power goldilocks_p_value)
qed

end

instantiation gf :: equal
begin

definition equal_gf :: "gf \<Rightarrow> gf \<Rightarrow> bool" where "equal_gf a b \<longleftrightarrow> Rep_gf a = Rep_gf b"

instance by standard (simp add: equal_gf_def Rep_gf_inject)

end

lemma Rep_gf_less: "Rep_gf a < goldilocks_p"
  using Rep_gf [of a] by simp

lemma Rep_of_nat_gf: "Rep_gf (of_nat n) = n mod goldilocks_p"
proof (induction n)
  case (Suc n)
  then show ?case by (simp add: plus_gf.rep_eq one_gf.rep_eq mod_simps)
qed (simp add: zero_gf.rep_eq)

lemma of_nat_gf_eq_iff: "(of_nat m :: gf) = of_nat n \<longleftrightarrow> m mod goldilocks_p = n mod goldilocks_p"
  by (simp add: Rep_gf_inject [symmetric] Rep_of_nat_gf)

lemma of_nat_gf_zero_iff: "(of_nat m :: gf) = 0 \<longleftrightarrow> m mod goldilocks_p = 0"
  using of_nat_gf_eq_iff [of m 0] by simp

lemma of_nat_goldilocks_p [simp]: "(of_nat goldilocks_p :: gf) = 0"
  by (simp add: of_nat_gf_zero_iff)

lemma gf_modulus: "(18446744069414584321 :: gf) = 0"
  using of_nat_goldilocks_p unfolding goldilocks_p_value by simp

lemma of_nat_gf_power: "a ^ e mod goldilocks_p = v \<Longrightarrow> (of_nat a :: gf) ^ e = of_nat v"
  unfolding of_nat_power [symmetric] of_nat_gf_eq_iff by auto

lemma inverse_gf_power: "inverse a = a ^ (goldilocks_p - 2)" for a :: gf
proof -
  have "Rep_gf (a ^ n) = Rep_gf a ^ n mod goldilocks_p" for n
    by (induction n) (simp_all add: one_gf.rep_eq times_gf.rep_eq mod_simps)
  then show ?thesis by (simp add: Rep_gf_inject [symmetric] inverse_gf.rep_eq)
qed

end
