(* ===== verification/Field_Traits.thy ===== *)
theory Field_Traits
  imports Vm_Prelude
begin

text \<open>
  The field interface of \<^verbatim>\<open>crypto/math/src/field/traits.rs\<close> and the routines written once over it:
  the record \<open>IsField\<close> is the dictionary of the trait's required methods, the exponentiation by
  squaring is its provided method \<open>pow\<close>, and the batch inversion is that of
  \<^verbatim>\<open>crypto/math/src/field/element.rs\<close>.  A value \<open>None\<close> is undefined behaviour or a loop that does
  not end.  The locale \<open>field_impl\<close> is the contract of an implementation of the trait: every
  operation returns, and returns a representative of the value the field operation has.
\<close>

section \<open>The interface\<close>

datatype FieldError = DivisionByZero | RootOfUnityError u64 | InvZeroError

record 'a IsField =
  f_add :: "'a \<Rightarrow> 'a \<Rightarrow> 'a option"
  f_double :: "'a \<Rightarrow> 'a option"
  f_mul :: "'a \<Rightarrow> 'a \<Rightarrow> 'a option"
  f_square :: "'a \<Rightarrow> 'a option"
  f_sub :: "'a \<Rightarrow> 'a \<Rightarrow> 'a option"
  f_neg :: "'a \<Rightarrow> 'a option"
  f_inv :: "'a \<Rightarrow> (FieldError, 'a) result option"
  f_div :: "'a \<Rightarrow> 'a \<Rightarrow> (FieldError, 'a) result option"
  f_eq :: "'a \<Rightarrow> 'a \<Rightarrow> bool"
  f_zero :: 'a
  f_one :: 'a
  f_from_u64 :: "u64 \<Rightarrow> 'a"

partial_function (option) pow_strip :: "'a IsField \<Rightarrow> 'a \<Rightarrow> nat \<Rightarrow> ('a \<times> nat) option" where
  "pow_strip F result exponent =
     (if exponent mod 2 = 0
      then Option.bind (f_square F result) (\<lambda>result. pow_strip F result (exponent div 2))
      else Some (result, exponent))"

fun pow_loop :: "'a IsField \<Rightarrow> 'a \<Rightarrow> 'a \<Rightarrow> nat \<Rightarrow> 'a option" where
  "pow_loop F result base exponent =
     (if exponent = 0 then Some result
      else Option.bind (f_square F base) (\<lambda>base.
        Option.bind (if exponent mod 2 = 1 then f_mul F result base else Some result) (\<lambda>result.
          pow_loop F result base (exponent div 2))))"

definition field_pow :: "'a IsField \<Rightarrow> 'a \<Rightarrow> nat \<Rightarrow> 'a option" where
  "field_pow F a exponent =
     (if exponent = 0 then Some (f_one F)
      else if exponent = 1 then Some a
      else Option.bind (pow_strip F a exponent) (\<lambda>(result, exponent).
        if exponent = 0 then Some result
        else pow_loop F result result (exponent div 2)))"

fun square_iter :: "'a IsField \<Rightarrow> nat \<Rightarrow> 'a \<Rightarrow> 'a option" where
  "square_iter F 0 acc = Some acc"
| "square_iter F (Suc n) acc = Option.bind (f_square F acc) (square_iter F n)"

definition get_primitive_root_of_unity ::
    "'a IsField \<Rightarrow> u64 \<Rightarrow> 'a \<Rightarrow> u64 \<Rightarrow> (FieldError, 'a) result option" where
  "get_primitive_root_of_unity F two_adicity two_adic_primitive_root_of_unity order =
     (if order = 0 then Some (Inr (f_one F))
      else if two_adicity < order then Some (Inl (RootOfUnityError order))
      else map_option Inr (square_iter F (unat (two_adicity - order)) two_adic_primitive_root_of_unity))"

section \<open>Batch inversion\<close>

fun prod_prefix :: "'a IsField \<Rightarrow> 'a list \<Rightarrow> 'a list \<Rightarrow> 'a list option" where
  "prod_prefix F acc [] = Some acc"
| "prod_prefix F acc (n # ns) = Option.bind (f_mul F (last acc) n) (\<lambda>q. prod_prefix F (acc @ [q]) ns)"

fun invert_back :: "'a IsField \<Rightarrow> 'a list \<Rightarrow> nat \<Rightarrow> 'a \<Rightarrow> 'a list \<Rightarrow> ('a \<times> 'a list) option" where
  "invert_back F prefix 0 bi_inv numbers = Some (bi_inv, numbers)"
| "invert_back F prefix (Suc i) bi_inv numbers =
     Option.bind (f_mul F bi_inv (prefix ! i)) (\<lambda>ai_inv.
     Option.bind (f_mul F bi_inv (numbers ! Suc i)) (\<lambda>bi_inv.
       invert_back F prefix i bi_inv (numbers[Suc i := ai_inv])))"

text \<open>The result of a fallible operation on a mutable slice is its outcome with the slice it leaves.\<close>

definition inplace_batch_inverse_sequential ::
    "'a IsField \<Rightarrow> 'a list \<Rightarrow> ((FieldError, unit) result \<times> 'a list) option" where
  "inplace_batch_inverse_sequential F numbers =
     (if numbers = [] then Some (Inr (), [])
      else Option.bind (prod_prefix F [hd numbers] (tl numbers)) (\<lambda>prefix.
        Option.bind (f_inv F (prefix ! (length numbers - 1))) (\<lambda>r. case r of
           Inl e \<Rightarrow> Some (Inl e, numbers)
         | Inr bi_inv \<Rightarrow>
             map_option (\<lambda>(bi_inv, numbers). (Inr (), numbers[0 := bi_inv]))
               (invert_back F prefix (length numbers - 1) bi_inv numbers))))"

definition PARALLEL_BATCH_INV_THRESHOLD :: nat where "PARALLEL_BATCH_INV_THRESHOLD = 65536"

function chunks_of :: "nat \<Rightarrow> 'a list \<Rightarrow> 'a list list" where
  "chunks_of n xs = (if xs = [] \<or> n = 0 then [] else take n xs # chunks_of n (drop n xs))"
  by auto
termination by (relation "measure (\<lambda>(n, xs). length xs)") auto

text \<open>
  The chunks run independently; the first failure is the outcome, and the slice is the
  concatenation of what each chunk leaves.
\<close>

fun try_for_each_chunk ::
    "('a list \<Rightarrow> ((FieldError, unit) result \<times> 'a list) option) \<Rightarrow> 'a list list
      \<Rightarrow> ((FieldError, unit) result \<times> 'a list) option" where
  "try_for_each_chunk f [] = Some (Inr (), [])"
| "try_for_each_chunk f (c # cs) =
     Option.bind (f c) (\<lambda>(r, c). case r of
        Inl e \<Rightarrow> Some (Inl e, c @ concat cs)
      | Inr _ \<Rightarrow> map_option (\<lambda>(r, rest). (r, c @ rest)) (try_for_each_chunk f cs))"

definition inplace_batch_inverse ::
    "'a IsField \<Rightarrow> bool \<Rightarrow> nat \<Rightarrow> 'a list \<Rightarrow> ((FieldError, unit) result \<times> 'a list) option" where
  "inplace_batch_inverse F parallel current_num_threads numbers =
     (if parallel \<and> PARALLEL_BATCH_INV_THRESHOLD \<le> length numbers
      then if \<exists>x\<in>set numbers. f_eq F x (f_zero F) then Some (Inl InvZeroError, numbers)
        else let threads = max current_num_threads 1;
                 chunk_size = (length numbers + threads - 1) div threads
             in try_for_each_chunk (inplace_batch_inverse_sequential F) (chunks_of chunk_size numbers)
      else inplace_batch_inverse_sequential F numbers)"

declare pow_loop.simps [simp del] chunks_of.simps [simp del]

section \<open>Results that stand for a value\<close>

definition yields :: "('a \<Rightarrow> 'v) \<Rightarrow> 'a option \<Rightarrow> 'v \<Rightarrow> bool" where
  "yields val r v \<longleftrightarrow> (\<exists>w. r = Some w \<and> val w = v)"

lemma yields_Some [simp]: "yields val (Some w) v \<longleftrightarrow> val w = v"
  by (simp add: yields_def)

lemma yields_bind:
  assumes "yields val r u" "\<And>w. val w = u \<Longrightarrow> yields val' (f w) v"
  shows "yields val' (Option.bind r f) v"
  using assms by (auto simp: yields_def)

lemma yields_eq: "yields val r u \<Longrightarrow> u = v \<Longrightarrow> yields val r v"
  by simp

lemma yieldsE:
  assumes "yields val r v"
  obtains w where "r = Some w" "val w = v"
  using assms by (auto simp: yields_def)

text \<open>The contract of a fallible inversion.\<close>

definition inverts :: "('a \<Rightarrow> 'v::field) \<Rightarrow> (FieldError, 'a) result option \<Rightarrow> 'v \<Rightarrow> bool" where
  "inverts val r v \<longleftrightarrow>
     (if v = 0 then r = Some (Inl InvZeroError)
      else \<exists>w. r = Some (Inr w) \<and> val w = inverse v)"

locale field_impl =
  fixes F :: "'a IsField" and val :: "'a \<Rightarrow> 'f::field"
  assumes add_yields: "yields val (f_add F a b) (val a + val b)"
    and double_yields: "yields val (f_double F a) (2 * val a)"
    and mul_yields: "yields val (f_mul F a b) (val a * val b)"
    and square_yields: "yields val (f_square F a) (val a * val a)"
    and sub_yields: "yields val (f_sub F a b) (val a - val b)"
    and neg_yields: "yields val (f_neg F a) (- val a)"
    and inv_inverts: "inverts val (f_inv F a) (val a)"
    and div_divides: "if val b = 0 then f_div F a b = Some (Inl InvZeroError)
      else \<exists>w. f_div F a b = Some (Inr w) \<and> val w = val a / val b"
    and eq_iff: "f_eq F a b \<longleftrightarrow> val a = val b"
    and zero_val: "val (f_zero F) = 0"
    and one_val: "val (f_one F) = 1"
    and from_u64_val: "val (f_from_u64 F n) = of_nat (unat n)"
begin

lemma pow_loop_yields:
  "yields val (pow_loop F result base n) (val result * (val base * val base) ^ n)"
proof (induction n arbitrary: result base rule: less_induct)
  case (less n)
  show ?case
  proof (cases "n = 0")
    case True
    then show ?thesis by (simp add: pow_loop.simps)
  next
    case False
    let ?s = "val base * val base"
    have "?s ^ (n mod 2) * (?s * ?s) ^ (n div 2) = ?s ^ (n mod 2 + 2 * (n div 2))"
      unfolding power_add power_mult power2_eq_square by (rule refl)
    then have sq: "?s ^ n = ?s ^ (n mod 2) * (?s * ?s) ^ (n div 2)" by simp
    show ?thesis
      unfolding pow_loop.simps [of F result base n] if_not_P [OF False]
    proof (rule yields_bind [OF square_yields])
      fix b assume b: "val b = ?s"
      have "yields val (if n mod 2 = 1 then f_mul F result b else Some result) (val result * ?s ^ (n mod 2))"
        using mul_yields [of result b] b by (cases "n mod 2 = 1") auto
      then show "yields val (Option.bind (if n mod 2 = 1 then f_mul F result b else Some result)
          (\<lambda>result. pow_loop F result b (n div 2))) (val result * ?s ^ n)"
      proof (rule yields_bind)
        fix r assume "val r = val result * ?s ^ (n mod 2)"
        with less [of "n div 2" r b] False show "yields val (pow_loop F r b (n div 2)) (val result * ?s ^ n)"
          unfolding b sq by (simp add: mult.assoc)
      qed
    qed
  qed
qed

lemma pow_strip_yields:
  "0 < n \<Longrightarrow> \<exists>r k. pow_strip F result n = Some (r, k) \<and> odd k \<and> val r ^ k = val result ^ n"
proof (induction n arbitrary: result rule: less_induct)
  case (less n)
  show ?case
  proof (cases "n mod 2 = 0")
    case True
    obtain w where w: "f_square F result = Some w" "val w = val result * val result"
      using square_yields by (rule yieldsE)
    have "val w ^ (n div 2) = val result ^ n"
      using True unfolding w(2) power2_eq_square [symmetric] power_mult [symmetric] by (simp add: mult_div_mod_eq dvd_mult_div_cancel mod_0_imp_dvd)
    moreover have "n div 2 < n" "0 < n div 2" using True less.prems by auto
    ultimately show ?thesis using less.IH [of "n div 2" w] True w(1) by (simp add: pow_strip.simps [of F result n])
  next
    case False
    then show ?thesis by (auto simp: pow_strip.simps [of F result n] even_iff_mod_2_eq_zero)
  qed
qed

lemma pow_yields: "yields val (field_pow F a n) (val a ^ n)"
proof (cases "n \<le> 1")
  case True
  then show ?thesis by (cases n) (auto simp: field_pow_def one_val)
next
  case False
  then obtain r k where r: "pow_strip F a n = Some (r, k)" "odd k" "val r ^ k = val a ^ n"
    using pow_strip_yields [of n a] by auto
  have "val r * (val r * val r) ^ (k div 2) = val r ^ k"
    using r(2) by (elim oddE) (simp add: power_mult power2_eq_square)
  then show ?thesis
    using False r pow_loop_yields [of r r "k div 2"] by (auto simp: field_pow_def)
qed

lemma square_iter_yields: "yields val (square_iter F n a) (val a ^ (2 ^ n))"
proof (induction n arbitrary: a)
  case (Suc n)
  show ?case unfolding square_iter.simps
  proof (rule yields_bind [OF square_yields])
    fix w assume "val w = val a * val a"
    then have "val w ^ (2 ^ n) = val a ^ (2 ^ Suc n)" by (simp add: power_mult power2_eq_square)
    then show "yields val (square_iter F n w) (val a ^ (2 ^ Suc n))" using Suc [of w] by simp
  qed
qed simp

lemma root_of_unity_yields:
  assumes "order \<le> adicity"
  shows "\<exists>w. get_primitive_root_of_unity F adicity root order = Some (Inr w) \<and>
    val w = (if order = 0 then 1 else val root ^ (2 ^ (unat adicity - unat order)))"
proof -
  obtain w where "square_iter F (unat (adicity - order)) root = Some w" "val w = val root ^ (2 ^ unat (adicity - order))"
    using square_iter_yields by (rule yieldsE)
  then show ?thesis using assms by (auto simp: get_primitive_root_of_unity_def one_val not_less unat_sub)
qed

lemma prod_prefix_yields:
  "acc \<noteq> [] \<Longrightarrow> \<exists>qs. prod_prefix F acc ns = Some (acc @ qs) \<and> length qs = length ns \<and>
     (\<forall>i<length ns. val (qs ! i) = val (last acc) * prod_list (map val (take (Suc i) ns)))"
proof (induction ns arbitrary: acc)
  case (Cons n ns)
  obtain q where q: "f_mul F (last acc) n = Some q" "val q = val (last acc) * val n"
    using mul_yields by (rule yieldsE)
  obtain qs where qs: "prod_prefix F (acc @ [q]) ns = Some ((acc @ [q]) @ qs)" "length qs = length ns"
    "\<forall>i<length ns. val (qs ! i) = val q * prod_list (map val (take (Suc i) ns))"
    using Cons.IH [of "acc @ [q]"] by auto
  have "val ((q # qs) ! i) = val (last acc) * prod_list (map val (take (Suc i) (n # ns)))" if "i < length (n # ns)" for i
    using that qs(2,3) q(2) by (cases i) (auto simp: mult.assoc)
  then show ?case using q qs by (intro exI [of _ "q # qs"]) auto
qed simp

lemma prefixes_yield:
  assumes "ns \<noteq> []"
  obtains prefix where "prod_prefix F [hd ns] (tl ns) = Some prefix" "length prefix = length ns"
    "\<And>i. i < length ns \<Longrightarrow> val (prefix ! i) = prod_list (map val (take (Suc i) ns))"
proof -
  obtain n ms where ns: "ns = n # ms" using assms by (cases ns) auto
  obtain qs where qs: "prod_prefix F [n] ms = Some ([n] @ qs)" "length qs = length ms"
     "\<forall>i<length ms. val (qs ! i) = val n * prod_list (map val (take (Suc i) ms))"
    using prod_prefix_yields [of "[n]" ms] by auto
  have "val ((n # qs) ! i) = prod_list (map val (take (Suc i) (n # ms)))" if "i < length (n # ms)" for i
    using that qs(2,3) by (cases i) auto
  then show thesis using that [of "n # qs"] ns qs(1,2) by simp
qed

lemma invert_back_yields:
  assumes "\<And>j. j < length ns \<Longrightarrow> val (prefix ! j) = prod_list (map val (take (Suc j) ns))"
    and "\<And>j. j < length ns \<Longrightarrow> val (ns ! j) \<noteq> 0"
    and "i < length ns" "length cur = length ns" "\<And>j. j \<le> i \<Longrightarrow> cur ! j = ns ! j"
    and "\<And>j. i < j \<Longrightarrow> j < length ns \<Longrightarrow> val (cur ! j) = inverse (val (ns ! j))"
    and "val bi = inverse (prod_list (map val (take (Suc i) ns)))"
  shows "\<exists>bi' cur'. invert_back F prefix i bi cur = Some (bi', cur') \<and> length cur' = length ns \<and>
     val bi' = inverse (val (ns ! 0)) \<and> (\<forall>j. 0 < j \<longrightarrow> j < length ns \<longrightarrow> val (cur' ! j) = inverse (val (ns ! j)))"
  using assms(3-)
proof (induction i arbitrary: bi cur)
  case 0
  then have "take (Suc 0) ns = [ns ! 0]" by (cases ns) auto
  then show ?case using 0 by simp
next
  case (Suc i)
  let ?P = "prod_list (map val (take (Suc i) ns))"
  have step: "prod_list (map val (take (Suc (Suc i)) ns)) = ?P * val (ns ! Suc i)"
    using Suc.prems(1) by (simp add: take_Suc_conv_app_nth)
  have nz: "val (ns ! Suc i) \<noteq> 0" using assms(2) Suc.prems(1) .
  have "0 \<notin> set (map val (take (Suc i) ns))"
    using assms(2) Suc.prems(1) by (auto simp: in_set_conv_nth)
  then have P: "?P \<noteq> 0" by (simp add: prod_list_zero_iff)
  obtain ai where ai: "f_mul F bi (prefix ! i) = Some ai" "val ai = val bi * val (prefix ! i)"
    using mul_yields by (rule yieldsE)
  obtain b where b: "f_mul F bi (cur ! Suc i) = Some b" "val b = val bi * val (cur ! Suc i)"
    using mul_yields by (rule yieldsE)
  have vai: "val ai = inverse (val (ns ! Suc i))"
    using assms(1) [of i] Suc.prems(1,5) step P nz by (simp add: ai(2))
  have vb: "val b = inverse ?P"
    using Suc.prems(3) [of "Suc i"] Suc.prems(5) step P nz by (simp add: b(2))
  have "\<exists>bi' cur'. invert_back F prefix i b (cur[Suc i := ai]) = Some (bi', cur') \<and> length cur' = length ns \<and>
     val bi' = inverse (val (ns ! 0)) \<and> (\<forall>j. 0 < j \<longrightarrow> j < length ns \<longrightarrow> val (cur' ! j) = inverse (val (ns ! j)))"
  proof (rule Suc.IH)
    show "val (cur[Suc i := ai] ! j) = inverse (val (ns ! j))" if "i < j" "j < length ns" for j
      using that vai Suc.prems(1,2,4) by (cases "j = Suc i") auto
    show "cur[Suc i := ai] ! j = ns ! j" if "j \<le> i" for j using that Suc.prems(3) by simp
  qed (use Suc.prems(1,2) vb in auto)
  then show ?case using ai(1) b(1) by simp
qed

lemma batch_inverse_sequential_yields:
  "\<exists>r ms. inplace_batch_inverse_sequential F ns = Some (r, ms) \<and>
    (if 0 \<in> set (map val ns) then r = Inl InvZeroError \<and> ms = ns
     else r = Inr () \<and> map val ms = map inverse (map val ns))"
proof (cases "ns = []")
  case False
  obtain prefix where p: "prod_prefix F [hd ns] (tl ns) = Some prefix" "length prefix = length ns"
    "\<And>i. i < length ns \<Longrightarrow> val (prefix ! i) = prod_list (map val (take (Suc i) ns))"
    using prefixes_yield [OF False] by blast
  let ?last = "prefix ! (length ns - 1)"
  have last: "val ?last = prod_list (map val ns)" using False p(3) [of "length ns - 1"] by simp
  show ?thesis
  proof (cases "0 \<in> set (map val ns)")
    case True
    then have "val ?last = 0" unfolding last prod_list_zero_iff .
    then show ?thesis using True False p(1) inv_inverts [of ?last]
      by (simp add: inplace_batch_inverse_sequential_def inverts_def)
  next
    case nz: False
    then have l: "val ?last \<noteq> 0" unfolding last prod_list_zero_iff .
    then obtain bi where bi: "f_inv F ?last = Some (Inr bi)" "val bi = inverse (prod_list (map val ns))"
      using inv_inverts [of ?last] last by (auto simp: inverts_def)
    have "val (ns ! j) \<noteq> 0" if "j < length ns" for j
      using nz that nth_mem by fastforce
    then have "\<exists>bi' cur'. invert_back F prefix (length ns - 1) bi ns = Some (bi', cur') \<and> length cur' = length ns \<and>
     val bi' = inverse (val (ns ! 0)) \<and> (\<forall>j. 0 < j \<longrightarrow> j < length ns \<longrightarrow> val (cur' ! j) = inverse (val (ns ! j)))"
      by (intro invert_back_yields) (use False bi(2) p(3) in auto)
    then obtain bi' cur where c: "invert_back F prefix (length ns - 1) bi ns = Some (bi', cur)" "length cur = length ns"
      "val bi' = inverse (val (ns ! 0))" "\<And>j. 0 < j \<Longrightarrow> j < length ns \<Longrightarrow> val (cur ! j) = inverse (val (ns ! j))"
      by blast
    have "map val (cur[0 := bi']) = map inverse (map val ns)"
    proof (rule nth_equalityI)
      fix i assume "i < length (map val (cur[0 := bi']))"
      then show "map val (cur[0 := bi']) ! i = map inverse (map val ns) ! i"
        using c(2-4) False by (cases i) auto
    qed (simp add: c(2))
    then show ?thesis using nz False p(1) bi(1) c(1) by (simp add: inplace_batch_inverse_sequential_def)
  qed
qed (simp add: inplace_batch_inverse_sequential_def)

lemma chunks_inverse_yield:
  assumes "0 \<notin> set (map val (concat cs))"
  shows "\<exists>ms. try_for_each_chunk (inplace_batch_inverse_sequential F) cs = Some (Inr (), ms) \<and>
    map val ms = map inverse (map val (concat cs))"
  using assms
proof (induction cs)
  case (Cons c cs)
  have "0 \<notin> set (map val c)" using Cons.prems by simp
  then obtain ms where ms: "inplace_batch_inverse_sequential F c = Some (Inr (), ms)" "map val ms = map inverse (map val c)"
    using batch_inverse_sequential_yields [of c] by auto
  then show ?case using Cons by auto
qed simp

lemma concat_chunks_of: "0 < n \<Longrightarrow> concat (chunks_of n xs) = xs"
  by (induction n xs rule: chunks_of.induct) (subst chunks_of.simps, auto)

lemma batch_inverse_yields:
  "\<exists>r ms. inplace_batch_inverse F parallel threads ns = Some (r, ms) \<and>
    (if 0 \<in> set (map val ns) then r = Inl InvZeroError \<and> ms = ns
     else r = Inr () \<and> map val ms = map inverse (map val ns))"
proof (cases "parallel \<and> PARALLEL_BATCH_INV_THRESHOLD \<le> length ns")
  case True
  have scan: "(\<exists>x\<in>set ns. f_eq F x (f_zero F)) \<longleftrightarrow> 0 \<in> set (map val ns)"
    by (auto simp: eq_iff zero_val)
  define size where "size = (length ns + max threads 1 - 1) div max threads 1"
  have "max threads 1 \<le> length ns + max threads 1 - 1"
    using True unfolding PARALLEL_BATCH_INV_THRESHOLD_def by linarith
  then have "0 < size" unfolding size_def by (simp add: div_greater_zero_iff)
  then have "inplace_batch_inverse F parallel threads ns =
      (if 0 \<in> set (map val ns) then Some (Inl InvZeroError, ns)
       else try_for_each_chunk (inplace_batch_inverse_sequential F) (chunks_of size ns))"
    unfolding inplace_batch_inverse_def Let_def scan size_def using True by simp
  then show ?thesis using \<open>0 < size\<close> chunks_inverse_yield [of "chunks_of size ns"]
    by (auto simp: concat_chunks_of)
next
  case False
  then have "inplace_batch_inverse F parallel threads ns = inplace_batch_inverse_sequential F ns"
    unfolding inplace_batch_inverse_def by (rule if_not_P)
  then show ?thesis using batch_inverse_sequential_yields [of ns] by simp
qed

end

end
