(* ===== verification/Goldilocks.thy ===== *)
theory Goldilocks
  imports Goldilocks_Field Field_Traits
begin

text \<open>
  The Goldilocks field (\<^verbatim>\<open>crypto/math/src/field/goldilocks.rs\<close>) on 64-bit words that are not
  necessarily canonical.  The value \<open>None\<close> of an operation stands for undefined behaviour (a condition
  passed to \<open>assume\<close> that is false) or for an overflow of an addition or a subtraction that is
  written with the plain operators and expected not to overflow.
\<close>

unbundle bit_operations_syntax

section \<open>Arithmetic\<close>

definition GOLDILOCKS_PRIME :: u64 where "GOLDILOCKS_PRIME = 0xFFFFFFFF00000001"

definition EPSILON :: u64 where "EPSILON = 0xFFFFFFFF"

definition overflowing_add :: "'a::len word \<Rightarrow> 'a word \<Rightarrow> 'a word \<times> bool" where
  "overflowing_add a b = (a + b, 2 ^ LENGTH('a) \<le> unat a + unat b)"

definition overflowing_sub :: "'a::len word \<Rightarrow> 'a word \<Rightarrow> 'a word \<times> bool" where
  "overflowing_sub a b = (a - b, a < b)"

definition checked_sub :: "'a::len word \<Rightarrow> 'a word \<Rightarrow> 'a word option" where
  "checked_sub a b = (if b \<le> a then Some (a - b) else None)"

definition assume_hint :: "bool \<Rightarrow> 'a option \<Rightarrow> 'a option" where
  "assume_hint p r = (if p then r else None)"

definition gl_add :: "u64 \<Rightarrow> u64 \<Rightarrow> u64 option" where
  "gl_add a b =
     (let (sum, over) = overflowing_add a b;
          (sum, over) = overflowing_add sum (of_bool over * EPSILON)
      in if over then
           assume_hint (GOLDILOCKS_PRIME < a \<and> GOLDILOCKS_PRIME < b) (checked_add sum EPSILON)
         else Some sum)"

definition gl_sub :: "u64 \<Rightarrow> u64 \<Rightarrow> u64 option" where
  "gl_sub a b =
     (let (diff, under) = overflowing_sub a b;
          (diff, under) = overflowing_sub diff (of_bool under * EPSILON)
      in if under then
           assume_hint (a < EPSILON - 1 \<and> GOLDILOCKS_PRIME < b) (checked_sub diff EPSILON)
         else Some diff)"

definition add_no_canonicalize_trashing_input :: "u64 \<Rightarrow> u64 \<Rightarrow> u64 option" where
  "add_no_canonicalize_trashing_input x y =
     (let (res_wrapped, carry) = overflowing_add x y
      in checked_add res_wrapped (EPSILON * of_bool carry))"

definition reduce128 :: "u128 \<Rightarrow> u64 option" where
  "reduce128 x =
     (let x_lo = ucast x; x_hi = ucast (drop_bit 64 x);
          x_hi_hi = drop_bit 32 x_hi; x_hi_lo = x_hi AND EPSILON;
          (t0, borrow) = overflowing_sub x_lo x_hi_hi
      in Option.bind (if borrow then checked_sub t0 EPSILON else Some t0) (\<lambda>t0.
           (let t1 = push_bit 32 x_hi_lo - x_hi_lo
            in add_no_canonicalize_trashing_input t0 t1)))"

definition gl_mul :: "u64 \<Rightarrow> u64 \<Rightarrow> u64 option" where
  "gl_mul a b = reduce128 (ucast a * ucast b)"

definition gl_square :: "u64 \<Rightarrow> u64 option" where
  "gl_square a = reduce128 (ucast a * ucast a)"

definition canonical :: "u64 \<Rightarrow> u64" where
  "canonical a = (if GOLDILOCKS_PRIME \<le> a then a - GOLDILOCKS_PRIME else a)"

definition gl_neg :: "u64 \<Rightarrow> u64 option" where
  "gl_neg a = (if canonical a = 0 then Some 0 else checked_sub GOLDILOCKS_PRIME (canonical a))"

definition gl_eq :: "u64 \<Rightarrow> u64 \<Rightarrow> bool" where
  "gl_eq a b \<longleftrightarrow> canonical a = canonical b"

definition gl_zero :: u64 where "gl_zero = 0"

definition gl_one :: u64 where "gl_one = 1"

definition gl_from_u64 :: "u64 \<Rightarrow> u64" where
  "gl_from_u64 x = (if GOLDILOCKS_PRIME \<le> x then x - GOLDILOCKS_PRIME else x)"

definition gl_double :: "u64 \<Rightarrow> u64 option" where
  "gl_double a = gl_add a a"

section \<open>Fused products\<close>

definition EPSILON_SQ :: u64 where "EPSILON_SQ = EPSILON * EPSILON"

definition dot_product_2 :: "u64 \<Rightarrow> u64 \<Rightarrow> u64 \<Rightarrow> u64 \<Rightarrow> u64 option" where
  "dot_product_2 a0 b0 a1 b1 =
     (let prod0 = ucast a0 * ucast b0 :: u128; prod1 = ucast a1 * ucast b1;
          (sum, overflow) = overflowing_add prod0 prod1
      in Option.bind (reduce128 sum) (\<lambda>reduced.
           if overflow then add_no_canonicalize_trashing_input reduced EPSILON_SQ else Some reduced))"

definition dot_product_3 :: "u64 \<Rightarrow> u64 \<Rightarrow> u64 \<Rightarrow> u64 \<Rightarrow> u64 \<Rightarrow> u64 \<Rightarrow> u64 option" where
  "dot_product_3 a0 b0 a1 b1 a2 b2 =
     (let prod0 = ucast a0 * ucast b0 :: u128; prod1 = ucast a1 * ucast b1; prod2 = ucast a2 * ucast b2;
          (sum01, over1) = overflowing_add prod0 prod1;
          (sum012, over2) = overflowing_add sum01 prod2;
          overflow_count = of_bool over1 + of_bool over2 :: u64
      in Option.bind (reduce128 sum012) (\<lambda>reduced.
           if 0 < overflow_count then
             Option.bind (add_no_canonicalize_trashing_input reduced EPSILON_SQ) (\<lambda>reduced.
               if 1 < overflow_count then add_no_canonicalize_trashing_input reduced EPSILON_SQ
               else Some reduced)
           else Some reduced))"

definition mul_by_7_raw :: "u64 \<Rightarrow> u64 option" where
  "mul_by_7_raw a =
     Option.bind (gl_double a) (\<lambda>a2. Option.bind (gl_double a2) (\<lambda>a4.
     Option.bind (gl_double a4) (\<lambda>a8. gl_sub a8 a)))"

section \<open>Inversion\<close>

fun square_times :: "nat \<Rightarrow> u64 \<Rightarrow> u64 option" where
  "square_times 0 result = Some result"
| "square_times (Suc n) result = Option.bind (gl_square result) (square_times n)"

definition exp_acc :: "u64 \<Rightarrow> u64 \<Rightarrow> nat \<Rightarrow> u64 option" where
  "exp_acc base tail n = Option.bind (square_times n base) (\<lambda>result. gl_mul result tail)"

definition inv_addition_chain :: "u64 \<Rightarrow> u64 option" where
  "inv_addition_chain x =
     Option.bind (gl_square x) (\<lambda>x2.
     Option.bind (gl_mul x2 x) (\<lambda>x3.
     Option.bind (exp_acc x3 x 1) (\<lambda>x7.
     Option.bind (exp_acc x7 x7 3) (\<lambda>x63.
     Option.bind (exp_acc x63 x63 6) (\<lambda>x12m1.
     Option.bind (exp_acc x12m1 x12m1 12) (\<lambda>x24m1.
     Option.bind (exp_acc x24m1 x63 6) (\<lambda>x30m1.
     Option.bind (exp_acc x30m1 x 1) (\<lambda>x31m1.
     Option.bind (exp_acc x31m1 x 1) (\<lambda>x32m1.
     Option.bind (square_times 33 x31m1) (\<lambda>t.
     gl_mul t x32m1))))))))))"

definition exp_p_minus_2 :: "u64 \<Rightarrow> u64 option" where
  "exp_p_minus_2 base = inv_addition_chain base"

text \<open>The outer option of a fallible operation is its undefined behaviour.\<close>

definition gl_inv :: "u64 \<Rightarrow> (FieldError, u64) result option" where
  "gl_inv a =
     (if canonical a = 0 then Some (Inl InvZeroError)
      else map_option Inr (exp_p_minus_2 (canonical a)))"

definition gl_div :: "u64 \<Rightarrow> u64 \<Rightarrow> (FieldError, u64) result option" where
  "gl_div a b =
     Option.bind (gl_inv b) (\<lambda>r. case r of
        Inl e \<Rightarrow> Some (Inl e)
      | Inr b_inv \<Rightarrow> map_option Inr (gl_mul a b_inv))"

definition GoldilocksField :: "u64 IsField" where
  "GoldilocksField = \<lparr>f_add = gl_add, f_double = gl_double, f_mul = gl_mul, f_square = gl_square,
     f_sub = gl_sub, f_neg = gl_neg, f_inv = gl_inv, f_div = gl_div, f_eq = gl_eq, f_zero = gl_zero,
     f_one = gl_one, f_from_u64 = gl_from_u64\<rparr>"

section \<open>Conversions\<close>

definition gl_to_bytes_le :: "u64 \<Rightarrow> u8 list" where
  "gl_to_bytes_le a = to_le_bytes 8 (canonical a)"

definition gl_to_bytes_be :: "u64 \<Rightarrow> u8 list" where
  "gl_to_bytes_be a = rev (to_le_bytes 8 (canonical a))"

datatype ByteConversionError = FromBEBytesError | FromLEBytesError | ValueNotReduced

definition gl_from_bytes_le :: "u8 list \<Rightarrow> (ByteConversionError, u64) result" where
  "gl_from_bytes_le bytes =
     (if length bytes < 8 then Inl FromLEBytesError
      else Inr (gl_from_u64 (from_le_bytes (take 8 bytes))))"

definition gl_from_bytes_be :: "u8 list \<Rightarrow> (ByteConversionError, u64) result" where
  "gl_from_bytes_be bytes =
     (if length bytes < 8 then Inl FromBEBytesError
      else Inr (gl_from_u64 (from_le_bytes (rev (take 8 bytes)))))"

text \<open>Rejection sampling from a source of words, which may not return.\<close>

partial_function (option) sample_field_element_from :: "('s \<Rightarrow> u64 \<times> 's) \<Rightarrow> 's \<Rightarrow> (u64 \<times> 's) option" where
  "sample_field_element_from next_u64 s =
     (let (candidate, s) = next_u64 s
      in if candidate < GOLDILOCKS_PRIME then Some (gl_from_u64 candidate, s)
         else sample_field_element_from next_u64 s)"

definition TWO_ADICITY :: u64 where "TWO_ADICITY = 32"

definition TWO_ADIC_PRIMITVE_ROOT_OF_UNITY :: u64 where
  "TWO_ADIC_PRIMITVE_ROOT_OF_UNITY = 1753635133440165772"

section \<open>Values of the word operations\<close>

lemma unat_plus_cases:
  "unat (a + b) = (if 2 ^ LENGTH('a) \<le> unat a + unat b then unat a + unat b - 2 ^ LENGTH('a) else unat a + unat b)"
  for a b :: "'a::len word"
proof -
  have b: "unat a < 2 ^ LENGTH('a)" "unat b < 2 ^ LENGTH('a)" by (rule unat_lt2p)+
  have m: "unat (a + b) = (unat a + unat b) mod 2 ^ LENGTH('a)" by (rule unat_word_ariths(1))
  show ?thesis
  proof (cases "2 ^ LENGTH('a) \<le> unat a + unat b")
    case True
    have "unat a + unat b - 2 ^ LENGTH('a) < 2 ^ LENGTH('a)" using b by linarith
    then have "(unat a + unat b) mod 2 ^ LENGTH('a) = unat a + unat b - 2 ^ LENGTH('a)"
      using True by (simp add: le_mod_geq)
    then show ?thesis using True m by simp
  qed (use m in simp)
qed

lemma unat_minus_cases:
  "unat (a - b) = (if a < b then unat a + 2 ^ LENGTH('a) - unat b else unat a - unat b)"
  for a b :: "'a::len word"
proof (cases "a < b")
  case True
  have "unat (a - b + b) = unat a" by simp
  then have "unat (a - b) + unat b = unat a \<or> unat (a - b) + unat b = unat a + 2 ^ LENGTH('a)"
    unfolding unat_plus_cases by (auto split: if_splits)
  then show ?thesis using True by (auto simp: word_less_nat_alt)
next
  case False
  then show ?thesis by (simp add: unat_sub not_less)
qed

lemma gl_constants [simp]: "unat EPSILON = 4294967295" "unat GOLDILOCKS_PRIME = 18446744069414584321"
  "unat EPSILON_SQ = 18446744065119617025"
  by (simp_all add: EPSILON_def GOLDILOCKS_PRIME_def EPSILON_SQ_def)

lemma u64_bound: "unat a < 18446744073709551616" for a :: u64
  using unat_lt2p [of a] by simp

lemma gl_add_value:
  "\<exists>r k. gl_add a b = Some r \<and> unat r + k * 18446744069414584321 = unat a + unat b"
proof -
  have ab: "unat a < 18446744073709551616" "unat b < 18446744073709551616" by (rule u64_bound)+
  define s where "s = a + b"
  show ?thesis
  proof (cases "18446744073709551616 \<le> unat a + unat b")
    case False
    then have "gl_add a b = Some s" "unat s = unat a + unat b"
      by (simp_all add: gl_add_def overflowing_add_def s_def unat_plus_cases not_le u64_bound)
    then show ?thesis by (intro exI [of _ s] exI [of _ 0]) simp
  next
    case True
    then have s: "unat s = unat a + unat b - 18446744073709551616" by (simp add: s_def unat_plus_cases)
    show ?thesis
    proof (cases "18446744073709551616 \<le> unat s + 4294967295")
      case False
      then have "gl_add a b = Some (s + EPSILON)" "unat (s + EPSILON) = unat s + 4294967295"
        using True by (simp_all add: gl_add_def overflowing_add_def s_def [symmetric] unat_plus_cases [of s])
      then show ?thesis using True s by (intro exI [of _ "s + EPSILON"] exI [of _ 1]) simp
    next
      case over: True
      define t where "t = s + EPSILON"
      have u: "unat t = unat s + 4294967295 - 18446744073709551616"
        using over by (simp add: t_def unat_plus_cases [of s])
      then have c: "checked_add t EPSILON = Some (t + EPSILON)" "unat (t + EPSILON) = unat t + 4294967295"
        using s ab by (simp_all add: checked_add_def unat_plus_cases [of t])
      have "GOLDILOCKS_PRIME < a \<and> GOLDILOCKS_PRIME < b" using over s True ab by (auto simp: word_less_nat_alt)
      then have "gl_add a b = Some (t + EPSILON)"
        using True over c(1) by (simp add: gl_add_def overflowing_add_def s_def [symmetric] t_def [symmetric] assume_hint_def)
      then show ?thesis using c(2) u s over by (intro exI [of _ "t + EPSILON"] exI [of _ 2]) simp
    qed
  qed
qed

lemma gl_sub_value:
  "\<exists>r k. gl_sub a b = Some r \<and> unat r + unat b = unat a + k * 18446744069414584321"
proof -
  have ab: "unat a < 18446744073709551616" "unat b < 18446744073709551616" by (rule u64_bound)+
  define d where "d = a - b"
  show ?thesis
  proof (cases "a < b")
    case False
    then have "gl_sub a b = Some d" "unat d = unat a - unat b"
      by (simp_all add: gl_sub_def overflowing_sub_def d_def unat_minus_cases)
    moreover have "unat b \<le> unat a" using False by (simp add: word_less_nat_alt)
    ultimately show ?thesis by (intro exI [of _ d] exI [of _ 0]) simp
  next
    case True
    then have d: "unat d = unat a + 18446744073709551616 - unat b" "unat a < unat b"
      by (simp_all add: d_def unat_minus_cases word_less_nat_alt)
    show ?thesis
    proof (cases "d < EPSILON")
      case False
      then have "gl_sub a b = Some (d - EPSILON)" "unat (d - EPSILON) = unat d - 4294967295" "4294967295 \<le> unat d"
        using True by (simp_all add: gl_sub_def overflowing_sub_def d_def [symmetric] unat_minus_cases [of d]
            word_less_nat_alt not_less)
      then show ?thesis using d ab by (intro exI [of _ "d - EPSILON"] exI [of _ 1]) simp
    next
      case under: True
      then have lt: "unat d < 4294967295" by (simp add: word_less_nat_alt)
      define t where "t = d - EPSILON"
      have u: "unat t = unat d + 18446744073709551616 - 4294967295"
        using under by (simp add: t_def unat_minus_cases [of d])
      then have c: "checked_sub t EPSILON = Some (t - EPSILON)" "unat (t - EPSILON) = unat t - 4294967295"
        by (simp_all add: checked_sub_def unat_minus_cases [of t] word_less_nat_alt word_le_nat_alt)
      have "unat a < 4294967294" "18446744069414584321 < unat b" using lt d ab by linarith+
      then have "a < EPSILON - 1 \<and> GOLDILOCKS_PRIME < b"
        by (simp add: word_less_nat_alt EPSILON_def GOLDILOCKS_PRIME_def)
      then have "gl_sub a b = Some (t - EPSILON)"
        using True under c(1) by (simp add: gl_sub_def overflowing_sub_def d_def [symmetric] t_def [symmetric] assume_hint_def)
      then show ?thesis using c(2) u d lt ab by (intro exI [of _ "t - EPSILON"] exI [of _ 2]) simp
    qed
  qed
qed

lemma add_no_canonicalize_value:
  assumes "unat x + unat y < 18446744073709551616 + 18446744069414584321"
  shows "\<exists>r k. add_no_canonicalize_trashing_input x y = Some r \<and> unat r + k * 18446744069414584321 = unat x + unat y"
proof (cases "18446744073709551616 \<le> unat x + unat y")
  case False
  then have "add_no_canonicalize_trashing_input x y = Some (x + y)" "unat (x + y) = unat x + unat y"
    by (simp_all add: add_no_canonicalize_trashing_input_def overflowing_add_def unat_plus_cases [of x] checked_add_def u64_bound)
  then show ?thesis by (intro exI [of _ "x + y"] exI [of _ 0]) simp
next
  case True
  define s where "s = x + y"
  have s: "unat s = unat x + unat y - 18446744073709551616" using True by (simp add: s_def unat_plus_cases [of x])
  then have "unat s + 4294967295 < 18446744073709551616" using assms True by simp
  then have "add_no_canonicalize_trashing_input x y = Some (s + EPSILON)" "unat (s + EPSILON) = unat s + 4294967295"
    using True by (simp_all add: add_no_canonicalize_trashing_input_def overflowing_add_def s_def [symmetric]
        checked_add_def unat_plus_cases [of s])
  then show ?thesis using s True by (intro exI [of _ "s + EPSILON"] exI [of _ 1]) simp
qed

lemma u128_split:
  fixes x :: u128
  defines "hi \<equiv> ucast (drop_bit 64 x) :: u64" and "lo \<equiv> ucast x :: u64"
  shows "unat x = unat lo + 18446744073709551616 * unat hi"
proof -
  have b: "unat x < 2 ^ 128" using unat_lt2p [of x] by simp
  have lo: "unat lo = unat x mod 2 ^ 64" by (simp add: lo_def unsigned_ucast_eq take_bit_eq_mod flip: unat_mod)
  have "unat hi = (unat x div 2 ^ 64) mod 2 ^ 64"
    unfolding hi_def unsigned_ucast_eq unsigned_take_bit_eq unat_drop_bit_eq take_bit_eq_mod drop_bit_eq_div by (simp add: unat_div)
  moreover have "unat x div 2 ^ 64 < 2 ^ 64" using b by (simp add: div_less_iff_less_mult)
  ultimately have hi: "unat hi = unat x div 2 ^ 64" by simp
  show ?thesis unfolding lo hi by simp
qed

lemma epsilon_mask: "unat (h AND EPSILON) = unat h mod 4294967296" for h :: u64
proof -
  have "EPSILON = mask 32" by (simp add: EPSILON_def mask_eq_exp_minus_1)
  then have "h AND EPSILON = take_bit 32 h" by (simp add: take_bit_eq_mask)
  then show ?thesis by (simp add: take_bit_eq_mod unat_mod)
qed

lemma hi_hi_value: "unat (drop_bit 32 h) = unat h div 4294967296" for h :: u64
  unfolding drop_bit_eq_div by (simp add: unat_div)

lemma shifted_difference:
  fixes l :: u64
  assumes "unat l < 4294967296"
  shows "unat (push_bit 32 l - l) = unat l * 4294967295"
proof -
  have "unat (push_bit 32 l) = (unat l * 2 ^ 32) mod 2 ^ 64"
    by (simp add: push_bit_eq_mult unat_word_ariths(2) mult.commute)
  moreover have "unat l * 2 ^ 32 < 2 ^ 64" using assms by simp
  ultimately have p: "unat (push_bit 32 l) = unat l * 4294967296" by simp
  then show ?thesis by (simp add: unat_minus_cases word_less_nat_alt)
qed

lemma reduce128_value:
  "\<exists>r. reduce128 x = Some r \<and> unat r mod 18446744069414584321 = unat x mod 18446744069414584321"
proof -
  define lo hi :: u64 where "lo = ucast x" and "hi = ucast (drop_bit 64 x)"
  define hh hl where "hh = drop_bit 32 hi" and "hl = hi AND EPSILON"
  have x: "unat x = unat lo + 18446744073709551616 * unat hi" using u128_split [of x] by (simp add: lo_def hi_def)
  have hi: "unat hi = unat hl + 4294967296 * unat hh" "unat hl < 4294967296" "unat hh < 4294967296"
    using u64_bound [of hi] by (simp_all add: hl_def hh_def epsilon_mask hi_hi_value div_less_iff_less_mult)
  define t where "t = lo - hh"
  obtain t0 where t0: "(if lo < hh then checked_sub t EPSILON else Some t) = Some t0"
    "\<exists>k. unat t0 + unat hh = unat lo + k * 18446744069414584321"
  proof (cases "lo < hh")
    case True
    then have "unat t = unat lo + 18446744073709551616 - unat hh" "unat lo < unat hh"
      by (simp_all add: t_def unat_minus_cases word_less_nat_alt)
    moreover from this have "checked_sub t EPSILON = Some (t - EPSILON)" "unat (t - EPSILON) = unat t - 4294967295"
      using hi(3) by (simp_all add: checked_sub_def unat_minus_cases [of t] word_less_nat_alt word_le_nat_alt)
    ultimately show thesis using that [of "t - EPSILON"] True hi(3) by (auto intro!: exI [of _ 1])
  next
    case False
    then show thesis using that [of t] by (auto simp: t_def unat_minus_cases word_less_nat_alt intro!: exI [of _ 0])
  qed
  obtain k0 where k0: "unat t0 + unat hh = unat lo + k0 * 18446744069414584321" using t0(2) by blast
  define t1 where "t1 = push_bit 32 hl - hl"
  have t1: "unat t1 = unat hl * 4294967295" using shifted_difference [OF hi(2)] by (simp add: t1_def)
  have "unat t1 \<le> 4294967295 * 4294967295" unfolding t1 using hi(2) by simp
  then have "unat t0 + unat t1 < 18446744073709551616 + 18446744069414584321" using u64_bound [of t0] by simp
  from add_no_canonicalize_value [OF this]
  obtain r k1 where r: "add_no_canonicalize_trashing_input t0 t1 = Some r"
    "unat r + k1 * 18446744069414584321 = unat t0 + unat t1" by blast
  have red: "reduce128 x = Some r"
    using r(1) t0(1) unfolding reduce128_def Let_def lo_def [symmetric] hi_def [symmetric] hh_def [symmetric]
      hl_def [symmetric] overflowing_sub_def prod.case t_def [symmetric] by (simp add: t1_def)
  have "unat x + k0 * 18446744069414584321 = unat r + (k1 + unat hl + unat hh * 4294967297) * 18446744069414584321"
    using k0 r(2) x hi(1) t1 by (simp add: algebra_simps)
  then have "(unat r + (k1 + unat hl + unat hh * 4294967297) * 18446744069414584321) mod 18446744069414584321
      = (unat x + k0 * 18446744069414584321) mod 18446744069414584321" by simp
  then show ?thesis using red by (simp only: mod_mult_self1) blast
qed

section \<open>The field the words stand for\<close>

declare of_nat_unat [simp del]

definition gl_val :: "u64 \<Rightarrow> gf" where "gl_val a = of_nat (unat a)"

lemma gl_val_mod: "gl_val a = of_nat n \<longleftrightarrow> unat a mod 18446744069414584321 = n mod 18446744069414584321"
  by (simp add: gl_val_def of_nat_gf_eq_iff goldilocks_p_value)

lemma gl_val_lift: "unat r + k * 18446744069414584321 = n \<Longrightarrow> gl_val r = of_nat n"
  using gl_val_mod by auto

lemma gl_add_yields: "yields gl_val (gl_add a b) (gl_val a + gl_val b)"
  using gl_add_value [of a b] gl_val_lift by (fastforce simp: yields_def gl_val_def)

lemma gl_sub_yields: "yields gl_val (gl_sub a b) (gl_val a - gl_val b)"
proof -
  obtain r k where r: "gl_sub a b = Some r" "unat r + unat b = unat a + k * 18446744069414584321"
    using gl_sub_value by blast
  have "(of_nat (unat r + unat b) :: gf) = of_nat (unat a + k * 18446744069414584321)" using r(2) by simp
  then have "gl_val r + gl_val b = gl_val a" by (simp add: gl_val_def gf_modulus)
  then show ?thesis using r(1) by (simp add: algebra_simps)
qed

lemma reduce128_yields: "yields gl_val (reduce128 x) (of_nat (unat x))"
  using reduce128_value [of x] by (auto simp: yields_def gl_val_mod)

lemma unat_product: "unat (ucast a * ucast b :: u128) = unat a * unat b" for a b :: u64
proof -
  have "unat a * unat b \<le> 18446744073709551615 * 18446744073709551615"
    using u64_bound [of a] u64_bound [of b] by (intro mult_mono) auto
  then have "unat a * unat b < 2 ^ 128" by simp
  then show ?thesis by (simp add: unat_word_ariths(2) unsigned_ucast_eq take_bit_nat_eq_self u64_bound less_trans [OF u64_bound])
qed

lemma gl_mul_yields: "yields gl_val (gl_mul a b) (gl_val a * gl_val b)"
  using reduce128_yields [of "ucast a * ucast b"] by (simp add: gl_mul_def unat_product gl_val_def)

lemma gl_square_yields: "yields gl_val (gl_square a) (gl_val a * gl_val a)"
  using reduce128_yields [of "ucast a * ucast a"] by (simp add: gl_square_def unat_product gl_val_def)

lemma canonical_value: "unat (canonical a) = unat a mod goldilocks_p"
proof (cases "GOLDILOCKS_PRIME \<le> a")
  case True
  then have "unat (a - GOLDILOCKS_PRIME) = unat a - 18446744069414584321" "18446744069414584321 \<le> unat a"
    by (simp_all add: unat_minus_cases word_less_nat_alt word_le_nat_alt)
  moreover have "unat a - 18446744069414584321 < 18446744069414584321" using u64_bound [of a] by simp
  ultimately show ?thesis using True by (simp add: canonical_def goldilocks_p_value le_mod_geq)
next
  case False
  then show ?thesis by (simp add: canonical_def goldilocks_p_value word_le_nat_alt)
qed

lemma canonical_eq_iff: "canonical a = canonical b \<longleftrightarrow> gl_val a = gl_val b"
  by (simp add: gl_val_def of_nat_gf_eq_iff canonical_value [symmetric] word_unat_eq_iff)

lemma gl_eq_iff: "gl_eq a b \<longleftrightarrow> gl_val a = gl_val b"
  by (simp add: gl_eq_def canonical_eq_iff)

lemma canonical_0 [simp]: "canonical 0 = 0" and gl_val_0 [simp]: "gl_val 0 = 0" and gl_val_1 [simp]: "gl_val 1 = 1"
  by (simp_all add: canonical_def gl_val_def GOLDILOCKS_PRIME_def)

lemma canonical_zero_iff: "canonical a = 0 \<longleftrightarrow> gl_val a = 0"
  using canonical_eq_iff [of a 0] by simp

lemma gl_val_canonical [simp]: "gl_val (canonical a) = gl_val a"
  by (simp add: gl_val_def of_nat_gf_eq_iff canonical_value)

lemma gl_from_u64_canonical: "gl_from_u64 a = canonical a"
  by (simp add: gl_from_u64_def canonical_def)

lemma gl_neg_yields: "yields gl_val (gl_neg a) (- gl_val a)"
proof (cases "canonical a = 0")
  case True
  then show ?thesis by (simp add: gl_neg_def canonical_zero_iff)
next
  case False
  have lt: "unat (canonical a) < 18446744069414584321"
    using canonical_value [of a] by (simp add: goldilocks_p_value)
  then have le: "canonical a \<le> GOLDILOCKS_PRIME" by (simp add: word_le_nat_alt)
  then have s: "gl_neg a = Some (GOLDILOCKS_PRIME - canonical a)" using False by (simp add: gl_neg_def checked_sub_def)
  have "unat (GOLDILOCKS_PRIME - canonical a) + unat (canonical a) = 18446744069414584321"
    using lt le by (simp add: unat_minus_cases)
  then have "gl_val (GOLDILOCKS_PRIME - canonical a) + gl_val (canonical a) = 0"
    by (simp add: gl_val_def flip: of_nat_add gf_modulus)
  then show ?thesis using s by (simp add: eq_neg_iff_add_eq_0)
qed

lemma gl_double_yields: "yields gl_val (gl_double a) (2 * gl_val a)"
  using gl_add_yields [of a a] by (simp add: gl_double_def)

lemma add_no_canonicalize_yields:
  assumes "unat y \<le> 18446744069414584321"
  shows "yields gl_val (add_no_canonicalize_trashing_input x y) (gl_val x + gl_val y)"
proof -
  have "unat x + unat y < 18446744073709551616 + 18446744069414584321" using assms u64_bound [of x] by linarith
  from add_no_canonicalize_value [OF this] show ?thesis
    using gl_val_lift by (fastforce simp: yields_def gl_val_def)
qed

lemma epsilon_sq_yields:
  "yields gl_val (add_no_canonicalize_trashing_input x EPSILON_SQ) (gl_val x + 2 ^ 128)"
proof -
  have "gl_val EPSILON_SQ = 2 ^ 128"
    using of_nat_gf_eq_iff [of "unat EPSILON_SQ" "2 ^ 128"] by (simp add: gl_val_def goldilocks_p_value)
  then show ?thesis using add_no_canonicalize_yields [of EPSILON_SQ x] by simp
qed

lemma unat_overflowing_add:
  "overflowing_add a b = (s, c) \<Longrightarrow> unat s + of_bool c * 2 ^ LENGTH('a) = unat a + unat b" for a b :: "'a::len word"
  by (auto simp: overflowing_add_def unat_plus_cases)

lemma of_nat_overflowing_add:
  fixes a b :: u128
  assumes "overflowing_add a b = (s, c)"
  shows "(of_nat (unat s) :: gf) + of_bool c * 2 ^ 128 = of_nat (unat a) + of_nat (unat b)"
  using arg_cong [OF unat_overflowing_add [OF assms], of "of_nat :: nat \<Rightarrow> gf"] by simp

lemma dot_product_2_yields:
  "yields gl_val (dot_product_2 a0 b0 a1 b1) (gl_val a0 * gl_val b0 + gl_val a1 * gl_val b1)"
proof -
  obtain s c where s: "overflowing_add (ucast a0 * ucast b0 :: u128) (ucast a1 * ucast b1) = (s, c)" by fastforce
  have v: "of_nat (unat s) + of_bool c * 2 ^ 128 = gl_val a0 * gl_val b0 + gl_val a1 * gl_val b1"
    using of_nat_overflowing_add [OF s] by (simp add: unat_product gl_val_def)
  show ?thesis unfolding dot_product_2_def Let_def s prod.case v [symmetric]
  proof (rule yields_bind [OF reduce128_yields])
    fix w assume "gl_val w = of_nat (unat s)"
    then show "yields gl_val (if c then add_no_canonicalize_trashing_input w EPSILON_SQ else Some w)
        (of_nat (unat s) + of_bool c * 2 ^ 128)"
      using epsilon_sq_yields [of w] by simp
  qed
qed

lemma dot_product_3_yields:
  "yields gl_val (dot_product_3 a0 b0 a1 b1 a2 b2)
     (gl_val a0 * gl_val b0 + gl_val a1 * gl_val b1 + gl_val a2 * gl_val b2)"
proof -
  obtain s c where s: "overflowing_add (ucast a0 * ucast b0 :: u128) (ucast a1 * ucast b1) = (s, c)" by fastforce
  obtain t d where t: "overflowing_add s (ucast a2 * ucast b2) = (t, d)" by fastforce
  have v: "of_nat (unat t) + of_bool d * 2 ^ 128 + of_bool c * 2 ^ 128
      = gl_val a0 * gl_val b0 + gl_val a1 * gl_val b1 + gl_val a2 * gl_val b2"
    using of_nat_overflowing_add [OF s] of_nat_overflowing_add [OF t] by (simp add: unat_product gl_val_def algebra_simps)
  have two: "(1 :: u64) + 1 = 2" "(1 :: u64) < 2" by simp_all
  show ?thesis unfolding dot_product_3_def Let_def s prod.case t v [symmetric]
  proof (rule yields_bind [OF reduce128_yields], cases "c \<and> d")
    fix w assume w: "gl_val w = of_nat (unat t)"
    let ?more = "if 0 < (of_bool c + of_bool d :: u64) then
        Option.bind (add_no_canonicalize_trashing_input w EPSILON_SQ)
          (\<lambda>reduced. if 1 < (of_bool c + of_bool d :: u64) then add_no_canonicalize_trashing_input reduced EPSILON_SQ
            else Some reduced)
      else Some w"
    {
      case True
      then show "yields gl_val ?more (of_nat (unat t) + of_bool d * 2 ^ 128 + of_bool c * 2 ^ 128)"
        using w by (auto intro!: yields_bind [OF epsilon_sq_yields] yields_eq [OF epsilon_sq_yields] simp: two)
    next
      case False
      then show "yields gl_val ?more (of_nat (unat t) + of_bool d * 2 ^ 128 + of_bool c * 2 ^ 128)"
        using w by (cases c; cases d) (auto intro!: yields_eq [OF epsilon_sq_yields])
    }
  qed
qed

lemma mul_by_7_yields: "yields gl_val (mul_by_7_raw a) (7 * gl_val a)"
  unfolding mul_by_7_raw_def
  by (rule yields_bind [OF gl_double_yields] yields_eq [OF gl_sub_yields])+ simp

section \<open>Inversion is the power with exponent \<open>p - 2\<close>\<close>

lemma square_times_yields: "yields gl_val (square_times n a) (gl_val a ^ (2 ^ n))"
proof (induction n arbitrary: a)
  case (Suc n)
  show ?case unfolding square_times.simps
  proof (rule yields_bind [OF gl_square_yields])
    fix w assume "gl_val w = gl_val a * gl_val a"
    then have "gl_val w ^ (2 ^ n) = gl_val a ^ (2 ^ Suc n)" by (simp add: power_mult power2_eq_square)
    then show "yields gl_val (square_times n w) (gl_val a ^ (2 ^ Suc n))" using Suc [of w] by simp
  qed
qed simp

lemma exp_acc_power:
  assumes "gl_val base = x ^ i" "gl_val tail = x ^ j"
  shows "yields gl_val (exp_acc base tail n) (x ^ (i * 2 ^ n + j))"
  unfolding exp_acc_def
  by (rule yields_bind [OF square_times_yields], rule yields_eq [OF gl_mul_yields])
     (simp add: assms power_add power_mult)

lemma exp_accE:
  assumes "gl_val base = x ^ i" "gl_val tail = x ^ j"
  obtains w where "exp_acc base tail n = Some w" "gl_val w = x ^ (i * 2 ^ n + j)"
  using exp_acc_power [OF assms] by (rule yieldsE)

lemma inv_addition_chain_yields:
  "yields gl_val (inv_addition_chain a) (gl_val a ^ 18446744069414584319)"
proof -
  let ?x = "gl_val a"
  have x1: "gl_val a = ?x ^ 1" by simp
  obtain a2 where a2: "gl_square a = Some a2" "gl_val a2 = ?x * ?x" using gl_square_yields by (rule yieldsE)
  obtain a3 where a3: "gl_mul a2 a = Some a3" "gl_val a3 = gl_val a2 * ?x" using gl_mul_yields by (rule yieldsE)
  have v3: "gl_val a3 = ?x ^ 3" by (simp add: a3(2) a2(2) power3_eq_cube)
  obtain a7 where a7: "exp_acc a3 a 1 = Some a7" "gl_val a7 = ?x ^ (3 * 2 ^ 1 + 1)" using v3 x1 by (rule exp_accE)
  obtain a63 where a63: "exp_acc a7 a7 3 = Some a63" "gl_val a63 = ?x ^ ((3 * 2 ^ 1 + 1) * 2 ^ 3 + (3 * 2 ^ 1 + 1))"
    using a7(2) a7(2) by (rule exp_accE)
  have v63: "gl_val a63 = ?x ^ 63" by (simp add: a63(2))
  obtain a12 where a12: "exp_acc a63 a63 6 = Some a12" "gl_val a12 = ?x ^ (63 * 2 ^ 6 + 63)"
    using v63 v63 by (rule exp_accE)
  obtain a24 where a24: "exp_acc a12 a12 12 = Some a24" "gl_val a24 = ?x ^ ((63 * 2 ^ 6 + 63) * 2 ^ 12 + (63 * 2 ^ 6 + 63))"
    using a12(2) a12(2) by (rule exp_accE)
  obtain a30 where a30: "exp_acc a24 a63 6 = Some a30"
    "gl_val a30 = ?x ^ (((63 * 2 ^ 6 + 63) * 2 ^ 12 + (63 * 2 ^ 6 + 63)) * 2 ^ 6 + 63)"
    using a24(2) v63 by (rule exp_accE)
  have v30: "gl_val a30 = ?x ^ 1073741823" by (simp add: a30(2))
  obtain a31 where a31: "exp_acc a30 a 1 = Some a31" "gl_val a31 = ?x ^ (1073741823 * 2 ^ 1 + 1)"
    using v30 x1 by (rule exp_accE)
  have v31: "gl_val a31 = ?x ^ 2147483647" by (simp add: a31(2))
  obtain a32 where a32: "exp_acc a31 a 1 = Some a32" "gl_val a32 = ?x ^ (2147483647 * 2 ^ 1 + 1)"
    using v31 x1 by (rule exp_accE)
  obtain t where t: "square_times 33 a31 = Some t" "gl_val t = gl_val a31 ^ (2 ^ 33)"
    using square_times_yields by (rule yieldsE)
  have "gl_val t * gl_val a32 = ?x ^ (2147483647 * 2 ^ 33 + (2147483647 * 2 ^ 1 + 1))"
    unfolding t(2) v31 a32(2) power_add power_mult ..
  then have "gl_val t * gl_val a32 = ?x ^ 18446744069414584319" by simp
  then have "yields gl_val (gl_mul t a32) (?x ^ 18446744069414584319)" using gl_mul_yields [of t a32] by simp
  then show ?thesis
    unfolding inv_addition_chain_def a2(1) a3(1) a7(1) a63(1) a12(1) a24(1) a30(1) a31(1) a32(1) t(1) bind.bind_lunit .
qed

lemma gl_inv_inverts: "inverts gl_val (gl_inv a) (gl_val a)"
proof -
  have e: "goldilocks_p - 2 = 18446744069414584319" unfolding goldilocks_p_value by simp
  obtain w where "inv_addition_chain (canonical a) = Some w" "gl_val w = inverse (gl_val a)"
    using inv_addition_chain_yields [of "canonical a"] unfolding gl_val_canonical inverse_gf_power e by (rule yieldsE)
  then show ?thesis by (simp add: inverts_def gl_inv_def exp_p_minus_2_def canonical_zero_iff)
qed

lemma gl_div_divides:
  "if gl_val b = 0 then gl_div a b = Some (Inl InvZeroError)
   else \<exists>w. gl_div a b = Some (Inr w) \<and> gl_val w = gl_val a / gl_val b"
proof (cases "gl_val b = 0")
  case False
  then obtain c where c: "gl_inv b = Some (Inr c)" "gl_val c = inverse (gl_val b)"
    using gl_inv_inverts [of b] by (auto simp: inverts_def)
  obtain w where "gl_mul a c = Some w" "gl_val w = gl_val a * gl_val c" using gl_mul_yields by (rule yieldsE)
  then show ?thesis using False c by (simp add: gl_div_def divide_inverse)
qed (use gl_inv_inverts [of b] in \<open>simp add: gl_div_def inverts_def\<close>)

lemma GoldilocksField_simps [simp]:
  "f_add GoldilocksField = gl_add" "f_double GoldilocksField = gl_double" "f_mul GoldilocksField = gl_mul"
  "f_square GoldilocksField = gl_square" "f_sub GoldilocksField = gl_sub" "f_neg GoldilocksField = gl_neg"
  "f_inv GoldilocksField = gl_inv" "f_div GoldilocksField = gl_div" "f_eq GoldilocksField = gl_eq"
  "f_zero GoldilocksField = gl_zero" "f_one GoldilocksField = gl_one" "f_from_u64 GoldilocksField = gl_from_u64"
  by (simp_all add: GoldilocksField_def)

interpretation gl: field_impl GoldilocksField gl_val
  by unfold_locales
    (use gl_div_divides in \<open>simp_all add: gl_add_yields gl_double_yields gl_mul_yields gl_square_yields gl_sub_yields
      gl_neg_yields gl_inv_inverts gl_eq_iff gl_zero_def gl_one_def gl_from_u64_canonical\<close>, simp add: gl_val_def)

section \<open>Roots of unity\<close>

lemma two_power_times_odd: "0 < k \<Longrightarrow> \<exists>j m. k = 2 ^ j * m \<and> odd m" for k :: nat
proof (induction k rule: less_induct)
  case (less k)
  show ?case
  proof (cases "even k")
    case True
    then obtain h where h: "k = 2 * h" by (rule evenE)
    then obtain j m where "h = 2 ^ j * m" "odd m" using less.IH [of h] less.prems by auto
    then show ?thesis using h by (intro exI [of _ "Suc j"] exI [of _ m]) simp
  qed (intro exI [of _ 0] exI [of _ k], simp)
qed

lemma power_of_two_order:
  fixes w :: "'f::field"
  assumes "w ^ (2 ^ n) = - 1" "(1 :: 'f) \<noteq> - 1" "0 < k" "k < 2 ^ Suc n"
  shows "w ^ k \<noteq> 1"
proof
  assume one: "w ^ k = 1"
  obtain j m where k: "k = 2 ^ j * m" "odd m" using two_power_times_odd [OF assms(3)] by blast
  have "(2 :: nat) ^ j < 2 ^ Suc n" using assms(4) k by (cases m) (auto intro: le_less_trans)
  then have "j < Suc n" by (rule power_less_imp_less_exp [rotated]) simp
  then obtain d where d: "n = d + j" by (metis add.commute less_Suc_eq_le le_Suc_ex)
  have "(w ^ k) ^ (2 ^ d) = (w ^ (2 ^ n)) ^ m"
    unfolding k(1) d power_add by (simp only: power_mult [symmetric] mult.commute mult.left_commute)
  then have "1 = (- 1 :: 'f) ^ m" using one assms(1) by simp
  then show False using k(2) assms(2) by simp
qed

lemma power_one_iff_dvd:
  fixes w :: "'f::field"
  assumes "w ^ (2 ^ n) = - 1" "(1 :: 'f) \<noteq> - 1"
  shows "w ^ k = 1 \<longleftrightarrow> 2 ^ Suc n dvd k"
proof -
  let ?N = "2 ^ Suc n :: nat"
  have N: "w ^ ?N = 1" by (simp add: assms(1) power_mult_distrib mult_2 power_add)
  have "w ^ k = (w ^ ?N) ^ (k div ?N) * w ^ (k mod ?N)"
    unfolding power_mult [symmetric] power_add [symmetric] by (simp only: mult_div_mod_eq)
  then have "w ^ k = w ^ (k mod ?N)" by (simp only: N) simp
  then show ?thesis using power_of_two_order [OF assms, of "k mod ?N"] by (auto simp: dvd_eq_mod_eq_0)
qed

lemma two_adic_root_half: "gl_val TWO_ADIC_PRIMITVE_ROOT_OF_UNITY ^ (2 ^ 31) = - 1"
proof -
  have r: "unat TWO_ADIC_PRIMITVE_ROOT_OF_UNITY = 1753635133440165772"
    by (simp add: TWO_ADIC_PRIMITVE_ROOT_OF_UNITY_def)
  have "1753635133440165772 ^ 2147483648 mod 18446744069414584321 = (18446744069414584320 :: nat)"
    by (rule pow_chain_power [of 18446744069414584321 1753635133440165772 "[(False, 166708887468903991),
      (False, 1154399424049971884), (False, 4511973093009996851), (False, 14080361158478670879),
      (False, 2230460144622294524), (False, 79841288704448195), (False, 15844486704156700236),
      (False, 1614281465338340559), (False, 5114988793349933654), (False, 15493518941330557636),
      (False, 1590247178281506213), (False, 16896981237942002723), (False, 668319404399374695),
      (False, 17850473948468743512), (False, 4695408299218975106), (False, 8309256808156222390),
      (False, 2027602620068516376), (False, 17130607366173278638), (False, 14240784545824149997),
      (False, 127334216977357403), (False, 16588405924890216597), (False, 11267608529812975),
      (False, 6987592784692205430), (False, 176241586724885086), (False, 10319406422896923811),
      (False, 17311854006015885313), (False, 16384), (False, 268435455), (False, 16212958654255595520),
      (False, 18446744069381029889), (False, 4294967296)]" 2147483648 18446744069414584320]) simp_all
  then have "(of_nat 1753635133440165772 :: gf) ^ 2147483648 = of_nat 18446744069414584320"
    unfolding goldilocks_p_value [symmetric] by (rule of_nat_gf_power)
  also have "\<dots> = - 1"
    using gf_modulus by (simp add: eq_neg_iff_add_eq_0)
  finally have "(of_nat 1753635133440165772 :: gf) ^ 2147483648 = - 1" .
  moreover have "(2 :: nat) ^ 31 = 2147483648" by simp
  ultimately show ?thesis unfolding gl_val_def r by metis
qed

lemma two_adicity_value: "unat TWO_ADICITY = 32"
  by (simp add: TWO_ADICITY_def)

lemma gf_one_neq_minus_one: "(1 :: gf) \<noteq> - 1"
proof
  assume "(1 :: gf) = - 1"
  then have "(of_nat 2 :: gf) = of_nat 0" by (simp add: eq_neg_iff_add_eq_0)
  then show False unfolding of_nat_gf_eq_iff goldilocks_p_value by simp
qed

section \<open>Bytes and samples\<close>

lemma canonical_idem [simp]: "canonical (canonical a) = canonical a"
  by (simp add: canonical_eq_iff)

lemma gl_bytes_length [simp]: "length (gl_to_bytes_le a) = 8" "length (gl_to_bytes_be a) = 8"
  by (simp_all add: gl_to_bytes_le_def gl_to_bytes_be_def)

lemma gl_bytes_le_roundtrip: "gl_from_bytes_le (gl_to_bytes_le a @ rest) = Inr (canonical a)"
  by (simp add: gl_from_bytes_le_def gl_to_bytes_le_def gl_from_u64_canonical)

lemma gl_bytes_be_roundtrip: "gl_from_bytes_be (gl_to_bytes_be a @ rest) = Inr (canonical a)"
  by (simp add: gl_from_bytes_be_def gl_to_bytes_be_def gl_from_u64_canonical)

text \<open>The candidates a source of words delivers, in order.\<close>

fun candidates :: "('s \<Rightarrow> u64 \<times> 's) \<Rightarrow> 's \<Rightarrow> nat \<Rightarrow> u64" where
  "candidates next_u64 s 0 = fst (next_u64 s)"
| "candidates next_u64 s (Suc n) = candidates next_u64 (snd (next_u64 s)) n"

lemma sample_first_candidate:
  assumes "candidates next_u64 s n < GOLDILOCKS_PRIME" "\<And>m. m < n \<Longrightarrow> \<not> candidates next_u64 s m < GOLDILOCKS_PRIME"
  shows "map_option fst (sample_field_element_from next_u64 s) = Some (candidates next_u64 s n)"
  using assms
proof (induction n arbitrary: s)
  case 0
  then show ?case
    by (subst sample_field_element_from.simps) (auto simp: split_beta gl_from_u64_def Let_def)
next
  case (Suc n)
  have "\<not> fst (next_u64 s) < GOLDILOCKS_PRIME" using Suc.prems(2) [of 0] by simp
  moreover have "\<not> candidates next_u64 (snd (next_u64 s)) m < GOLDILOCKS_PRIME" if "m < n" for m
    using Suc.prems(2) [of "Suc m"] that by simp
  ultimately show ?case using Suc.IH [of "snd (next_u64 s)"] Suc.prems(1)
    by (subst sample_field_element_from.simps) (simp add: split_beta Let_def)
qed

section \<open>Properties of the field\<close>

text \<open>
  C31: no operation of the Goldilocks field reaches undefined behaviour or overflows an unchecked
  addition or subtraction, whatever representatives it is given, and each returns a representative
  of the result of the field operation: addition, subtraction, negation, doubling, product,
  square, the fused sums of two and three products and the product by 7; equality of elements is
  equality of their residues.
\<close>

theorem goldilocks_arithmetic:
  "yields gl_val (gl_add a b) (gl_val a + gl_val b) \<and>
   yields gl_val (gl_sub a b) (gl_val a - gl_val b) \<and>
   yields gl_val (gl_neg a) (- gl_val a) \<and>
   yields gl_val (gl_double a) (2 * gl_val a) \<and>
   yields gl_val (gl_mul a b) (gl_val a * gl_val b) \<and>
   yields gl_val (gl_square a) (gl_val a ^ 2) \<and>
   yields gl_val (dot_product_2 a b c d) (gl_val a * gl_val b + gl_val c * gl_val d) \<and>
   yields gl_val (dot_product_3 a b c d e f) (gl_val a * gl_val b + gl_val c * gl_val d + gl_val e * gl_val f) \<and>
   yields gl_val (mul_by_7_raw a) (7 * gl_val a) \<and>
   (gl_eq a b \<longleftrightarrow> unat a mod goldilocks_p = unat b mod goldilocks_p)"
  using gl_eq_iff [of a b] unfolding power2_eq_square
  by (intro conjI gl_add_yields gl_sub_yields gl_neg_yields gl_double_yields gl_mul_yields gl_square_yields
      dot_product_2_yields dot_product_3_yields mul_by_7_yields) (simp add: gl_val_def of_nat_gf_eq_iff)

text \<open>
  C32: inversion always returns: the error \<open>InvZeroError\<close> exactly for the representatives of zero (0 and
  the prime itself), and otherwise a word whose product with the argument is 1 modulo the prime.
\<close>

theorem goldilocks_inverse:
  "\<exists>r. gl_inv a = Some r \<and>
    (case r of Inl e \<Rightarrow> e = InvZeroError \<and> (a = 0 \<or> a = GOLDILOCKS_PRIME)
     | Inr w \<Rightarrow> (unat a * unat w) mod goldilocks_p = 1)"
proof (cases "gl_val a = 0")
  case True
  then have "canonical a = 0" by (simp add: canonical_zero_iff)
  then have "a = 0 \<or> a = GOLDILOCKS_PRIME" by (auto simp: canonical_def split: if_splits)
  then show ?thesis using True gl_inv_inverts [of a] by (simp add: inverts_def)
next
  case False
  then obtain w where w: "gl_inv a = Some (Inr w)" "gl_val w = inverse (gl_val a)"
    using gl_inv_inverts [of a] by (auto simp: inverts_def)
  then have "(of_nat (unat a * unat w) :: gf) = of_nat 1" using False by (simp add: gl_val_def)
  then show ?thesis using w(1) unfolding of_nat_gf_eq_iff by simp
qed

text \<open>
  C33: batch inversion, sequential or split over any number of threads, inverts every element of the
  slice; when an element is zero it reports \<open>InvZeroError\<close> and leaves the slice unchanged.
\<close>

theorem goldilocks_batch_inverse:
  "\<exists>r ms. inplace_batch_inverse GoldilocksField parallel threads ns = Some (r, ms) \<and>
    (if \<exists>n\<in>set ns. gl_val n = 0 then r = Inl InvZeroError \<and> ms = ns
     else r = Inr () \<and> map gl_val ms = map (\<lambda>n. inverse (gl_val n)) ns)"
proof -
  have "0 \<in> set (map gl_val ns) \<longleftrightarrow> (\<exists>n\<in>set ns. gl_val n = 0)" by auto
  moreover have "map inverse (map gl_val ns) = map (\<lambda>n. inverse (gl_val n)) ns" by simp
  ultimately show ?thesis using gl.batch_inverse_yields [of parallel threads ns] by (simp only:)
qed

text \<open>
  C34: a root of unity of order \<open>2 ^ order\<close> exists up to the two-adicity 32 of the field, and the one
  returned has exactly that order; a larger order is reported as an error.
\<close>

theorem goldilocks_primitive_roots:
  "\<exists>r. get_primitive_root_of_unity GoldilocksField TWO_ADICITY TWO_ADIC_PRIMITVE_ROOT_OF_UNITY order = Some r \<and>
    (case r of Inl e \<Rightarrow> e = RootOfUnityError order \<and> 32 < unat order
     | Inr w \<Rightarrow> unat order \<le> 32 \<and> gl_val w ^ (2 ^ unat order) = 1 \<and>
         (\<forall>k. gl_val w ^ k = 1 \<longleftrightarrow> 2 ^ unat order dvd k))"
proof (cases "order \<le> TWO_ADICITY")
  case False
  moreover have "order \<noteq> 0" using False by (auto simp: TWO_ADICITY_def)
  ultimately show ?thesis
    by (simp add: get_primitive_root_of_unity_def word_le_nat_alt word_less_nat_alt TWO_ADICITY_def)
next
  case True
  then have n: "unat order \<le> 32" by (simp add: word_le_nat_alt TWO_ADICITY_def)
  obtain w where w: "get_primitive_root_of_unity GoldilocksField TWO_ADICITY TWO_ADIC_PRIMITVE_ROOT_OF_UNITY order = Some (Inr w)"
    "gl_val w = (if order = 0 then 1 else gl_val TWO_ADIC_PRIMITVE_ROOT_OF_UNITY ^ (2 ^ (32 - unat order)))"
    using gl.root_of_unity_yields [OF True] two_adicity_value by metis
  show ?thesis
  proof (cases "unat order")
    case 0
    then show ?thesis using w by (simp add: unat_eq_zero)
  next
    case (Suc m)
    have "gl_val w ^ (2 ^ m) = gl_val TWO_ADIC_PRIMITVE_ROOT_OF_UNITY ^ (2 ^ (32 - Suc m + m))"
      using w(2) Suc by (auto simp: power_add power_mult)
    also have "\<dots> = - 1" using Suc n two_adic_root_half by simp
    finally have half: "gl_val w ^ (2 ^ m) = - 1" .
    then have "gl_val w ^ (2 ^ Suc m) = 1" by (simp add: mult_2 power_add)
    moreover have "gl_val w ^ k = 1 \<longleftrightarrow> 2 ^ Suc m dvd k" for k
      by (rule power_one_iff_dvd [OF half gf_one_neq_minus_one])
    ultimately show ?thesis using w(1) Suc n by simp
  qed
qed

end
