(* ===== verification/Goldilocks_Tower.thy ===== *)
theory Goldilocks_Tower
  imports Goldilocks_Field
begin

text \<open>
  The quadratic and the cubic extension of the Goldilocks field as types of the class \<open>field\<close>:
  \<open>w\<^sup>2 = 7\<close> and \<open>w\<^sup>3 = 2\<close>, where 7 is not a square and 2 is not a cube.  They are the values the pairs and
  triples of \<^verbatim>\<open>crypto/math/src/field/extensions_goldilocks.rs\<close> stand for.
\<close>

section \<open>Non-residues\<close>

lemma gf_fermat: "x \<noteq> 0 \<Longrightarrow> x ^ (goldilocks_p - 1) = 1" for x :: gf
proof -
  assume "x \<noteq> 0"
  moreover have "goldilocks_p - 1 = Suc (goldilocks_p - 2)" by (simp add: goldilocks_p_value)
  ultimately show ?thesis using inverse_gf_power [of x] right_inverse [of x] by simp
qed

lemma seven_not_square: "x * x \<noteq> (7 :: gf)"
proof
  assume x: "x * x = 7"
  let ?h = "(goldilocks_p - 1) div 2"
  have "(of_nat 7 :: gf) \<noteq> of_nat 0" unfolding of_nat_gf_eq_iff goldilocks_p_value by simp
  then have "x \<noteq> 0" using x by auto
  have "2 * ?h = goldilocks_p - 1" by (simp add: goldilocks_p_value)
  then have "(x * x) ^ ?h = 1"
    using gf_fermat [OF \<open>x \<noteq> 0\<close>] unfolding power2_eq_square [symmetric] power_mult [symmetric] by simp
  moreover have "(7 :: gf) ^ ?h = of_nat (goldilocks_p - 1)" using of_nat_gf_power [OF pow_7_half] by simp
  ultimately have "(of_nat (goldilocks_p - 1) :: gf) = of_nat 1" using x by simp
  then show False unfolding of_nat_gf_eq_iff by (simp add: goldilocks_p_value)
qed

lemma two_not_cube: "x * x * x \<noteq> (2 :: gf)"
proof
  assume x: "x * x * x = 2"
  have "(of_nat 2 :: gf) \<noteq> of_nat 0" unfolding of_nat_gf_eq_iff goldilocks_p_value by simp
  then have nz: "x \<noteq> 0" using x by auto
  have e: "goldilocks_p - 1 = 3 * (192 * 32025597342733653 + 64)" by (simp add: goldilocks_p_value)
  have "2 ^ 192 mod goldilocks_p = 1" unfolding goldilocks_p_value by simp
  then have "(2 :: gf) ^ 192 = 1" using of_nat_gf_power [of 2 192 1] by simp
  then have two: "(2 :: gf) ^ (192 * 32025597342733653 + 64) = 2 ^ 64" by (simp only: power_add power_mult power_one mult_1)
  have "x ^ 3 = 2" using x by (simp add: power3_eq_cube)
  moreover have "(x ^ 3) ^ (192 * 32025597342733653 + 64) = 1"
    using gf_fermat [OF nz] unfolding e power_mult .
  ultimately have "(2 :: gf) ^ (192 * 32025597342733653 + 64) = 1" by (simp only:)
  from trans [OF two [symmetric] this] have "(of_nat (2 ^ 64) :: gf) = of_nat 1" by simp
  then show False unfolding of_nat_gf_eq_iff goldilocks_p_value by simp
qed

section \<open>The quadratic extension\<close>

datatype gf2 = Gf2 (gf2_c0: gf) (gf2_c1: gf)

lemma gf2_eq_iff: "a = b \<longleftrightarrow> gf2_c0 a = gf2_c0 b \<and> gf2_c1 a = gf2_c1 b"
  by (cases a; cases b) simp

definition gf2_norm :: "gf2 \<Rightarrow> gf" where
  "gf2_norm a = gf2_c0 a * gf2_c0 a - 7 * (gf2_c1 a * gf2_c1 a)"

lemma gf2_norm_zero: "gf2_norm a = 0 \<longleftrightarrow> gf2_c0 a = 0 \<and> gf2_c1 a = 0"
proof
  assume n: "gf2_norm a = 0"
  show "gf2_c0 a = 0 \<and> gf2_c1 a = 0"
  proof (cases "gf2_c1 a = 0")
    case False
    then have "(gf2_c0 a / gf2_c1 a) * (gf2_c0 a / gf2_c1 a) = 7" using n by (simp add: gf2_norm_def field_simps)
    then show ?thesis using seven_not_square by blast
  qed (use n in \<open>simp add: gf2_norm_def\<close>)
qed (simp add: gf2_norm_def)

instantiation gf2 :: field
begin

definition zero_gf2 :: gf2 where "zero_gf2 = Gf2 0 0"

definition one_gf2 :: gf2 where "one_gf2 = Gf2 1 0"

definition plus_gf2 :: "gf2 \<Rightarrow> gf2 \<Rightarrow> gf2" where
  "plus_gf2 a b = Gf2 (gf2_c0 a + gf2_c0 b) (gf2_c1 a + gf2_c1 b)"

definition minus_gf2 :: "gf2 \<Rightarrow> gf2 \<Rightarrow> gf2" where
  "minus_gf2 a b = Gf2 (gf2_c0 a - gf2_c0 b) (gf2_c1 a - gf2_c1 b)"

definition uminus_gf2 :: "gf2 \<Rightarrow> gf2" where "uminus_gf2 a = Gf2 (- gf2_c0 a) (- gf2_c1 a)"

definition times_gf2 :: "gf2 \<Rightarrow> gf2 \<Rightarrow> gf2" where
  "times_gf2 a b = Gf2 (gf2_c0 a * gf2_c0 b + 7 * (gf2_c1 a * gf2_c1 b)) (gf2_c0 a * gf2_c1 b + gf2_c1 a * gf2_c0 b)"

definition inverse_gf2 :: "gf2 \<Rightarrow> gf2" where
  "inverse_gf2 a = Gf2 (gf2_c0 a / gf2_norm a) (- gf2_c1 a / gf2_norm a)"

definition divide_gf2 :: "gf2 \<Rightarrow> gf2 \<Rightarrow> gf2" where "divide_gf2 a b = a * inverse b"

lemmas gf2_ops = zero_gf2_def one_gf2_def plus_gf2_def minus_gf2_def uminus_gf2_def times_gf2_def

instance
proof
  fix a b c :: gf2
  show "a * b * c = a * (b * c)" "a * b = b * a" "1 * a = a" "a + b + c = a + (b + c)" "a + b = b + a"
    "0 + a = a" "- a + a = 0" "a - b = a + - b" "(a + b) * c = a * c + b * c" "(0 :: gf2) \<noteq> 1"
    by (simp_all add: gf2_ops gf2_eq_iff algebra_simps)
  show "inverse a * a = 1" if "a \<noteq> 0"
  proof -
    have "gf2_norm a \<noteq> 0" using that by (auto simp: gf2_norm_zero gf2_eq_iff zero_gf2_def)
    then show ?thesis
      by (simp add: inverse_gf2_def times_gf2_def one_gf2_def field_simps) (simp add: gf2_norm_def algebra_simps)
  qed
  show "a div b = a * inverse b" by (rule divide_gf2_def)
  show "inverse (0 :: gf2) = 0" by (simp add: inverse_gf2_def zero_gf2_def)
qed

end

section \<open>The cubic extension\<close>

datatype gf3 = Gf3 (gf3_c0: gf) (gf3_c1: gf) (gf3_c2: gf)

lemma gf3_eq_iff: "a = b \<longleftrightarrow> gf3_c0 a = gf3_c0 b \<and> gf3_c1 a = gf3_c1 b \<and> gf3_c2 a = gf3_c2 b"
  by (cases a; cases b) simp

definition gf3_norm :: "gf3 \<Rightarrow> gf" where
  "gf3_norm a = gf3_c0 a * gf3_c0 a * gf3_c0 a + 2 * (gf3_c1 a * gf3_c1 a * gf3_c1 a)
     + 4 * (gf3_c2 a * gf3_c2 a * gf3_c2 a) - 6 * (gf3_c0 a * gf3_c1 a * gf3_c2 a)"

lemma monic_norm_nonzero: "x * x * x + 2 * (y * y * y) + 4 - 6 * (x * y) \<noteq> (0 :: gf)"
proof
  assume n: "x * x * x + 2 * (y * y * y) + 4 - 6 * (x * y) = 0"
  show False
  proof (cases "y * y = x")
    case True
    have "(y * y * y - 2) * (y * y * y - 2) = x * x * x + 2 * (y * y * y) + 4 - 6 * (x * y)"
      unfolding True [symmetric] by (simp add: algebra_simps)
    then have "y * y * y = 2" using n by simp
    then show ?thesis using two_not_cube by blast
  next
    case False
    define d where "d = y * y - x"
    define r where "r = (2 - x * y) / d"
    have d: "d \<noteq> 0" using False by (simp add: d_def)
    have rd: "r * d = 2 - x * y" using d by (simp add: r_def)
    have "(r * r + y * r + x) * (d * d) = (r * d) * (r * d) + y * (r * d) * d + x * (d * d)"
      by (simp add: algebra_simps)
    also have "\<dots> = x * x * x + 2 * (y * y * y) + 4 - 6 * (x * y)"
      unfolding rd by (simp add: d_def algebra_simps)
    finally have q: "r * r + y * r + x = 0" using n d by simp
    have "r * r * r - 2 = (r - y) * (r * r + y * r + x) + (r * d - (2 - x * y))"
      by (simp add: d_def algebra_simps)
    then have "r * r * r = 2" using q rd by simp
    then show ?thesis using two_not_cube by blast
  qed
qed

lemma gf3_norm_zero: "gf3_norm a = 0 \<longleftrightarrow> gf3_c0 a = 0 \<and> gf3_c1 a = 0 \<and> gf3_c2 a = 0"
proof
  assume n: "gf3_norm a = 0"
  let ?x = "gf3_c0 a" and ?y = "gf3_c1 a" and ?z = "gf3_c2 a"
  show "?x = 0 \<and> ?y = 0 \<and> ?z = 0"
  proof (cases "?z = 0")
    case True
    show ?thesis
    proof (cases "?y = 0")
      case False
      have "?x * ?x * ?x = - (2 * (?y * ?y * ?y))" using n True by (simp add: gf3_norm_def eq_neg_iff_add_eq_0)
      then have "(- ?x / ?y) * (- ?x / ?y) * (- ?x / ?y) = 2" using False by (simp add: field_simps)
      then show ?thesis using two_not_cube by blast
    qed (use n True in \<open>simp add: gf3_norm_def\<close>)
  next
    case False
    define u v where "u = ?x / ?z" and "v = ?y / ?z"
    have uv: "?x = u * ?z" "?y = v * ?z" using False by (simp_all add: u_def v_def)
    have "gf3_norm a = (u * u * u + 2 * (v * v * v) + 4 - 6 * (u * v)) * (?z * ?z * ?z)"
      unfolding gf3_norm_def uv by (simp add: algebra_simps)
    then show ?thesis using n False monic_norm_nonzero by simp
  qed
qed (simp add: gf3_norm_def)

instantiation gf3 :: field
begin

definition zero_gf3 :: gf3 where "zero_gf3 = Gf3 0 0 0"

definition one_gf3 :: gf3 where "one_gf3 = Gf3 1 0 0"

definition plus_gf3 :: "gf3 \<Rightarrow> gf3 \<Rightarrow> gf3" where
  "plus_gf3 a b = Gf3 (gf3_c0 a + gf3_c0 b) (gf3_c1 a + gf3_c1 b) (gf3_c2 a + gf3_c2 b)"

definition minus_gf3 :: "gf3 \<Rightarrow> gf3 \<Rightarrow> gf3" where
  "minus_gf3 a b = Gf3 (gf3_c0 a - gf3_c0 b) (gf3_c1 a - gf3_c1 b) (gf3_c2 a - gf3_c2 b)"

definition uminus_gf3 :: "gf3 \<Rightarrow> gf3" where "uminus_gf3 a = Gf3 (- gf3_c0 a) (- gf3_c1 a) (- gf3_c2 a)"

definition times_gf3 :: "gf3 \<Rightarrow> gf3 \<Rightarrow> gf3" where
  "times_gf3 a b = Gf3
     (gf3_c0 a * gf3_c0 b + 2 * (gf3_c1 a * gf3_c2 b + gf3_c2 a * gf3_c1 b))
     (gf3_c0 a * gf3_c1 b + gf3_c1 a * gf3_c0 b + 2 * (gf3_c2 a * gf3_c2 b))
     (gf3_c0 a * gf3_c2 b + gf3_c1 a * gf3_c1 b + gf3_c2 a * gf3_c0 b)"

definition inverse_gf3 :: "gf3 \<Rightarrow> gf3" where
  "inverse_gf3 a = Gf3
     ((gf3_c0 a * gf3_c0 a - 2 * (gf3_c1 a * gf3_c2 a)) / gf3_norm a)
     ((2 * (gf3_c2 a * gf3_c2 a) - gf3_c0 a * gf3_c1 a) / gf3_norm a)
     ((gf3_c1 a * gf3_c1 a - gf3_c0 a * gf3_c2 a) / gf3_norm a)"

definition divide_gf3 :: "gf3 \<Rightarrow> gf3 \<Rightarrow> gf3" where "divide_gf3 a b = a * inverse b"

lemmas gf3_ops = zero_gf3_def one_gf3_def plus_gf3_def minus_gf3_def uminus_gf3_def times_gf3_def

instance
proof
  fix a b c :: gf3
  show "a * b * c = a * (b * c)" "a * b = b * a" "1 * a = a" "a + b + c = a + (b + c)" "a + b = b + a"
    "0 + a = a" "- a + a = 0" "a - b = a + - b" "(a + b) * c = a * c + b * c" "(0 :: gf3) \<noteq> 1"
    by (simp_all add: gf3_ops gf3_eq_iff algebra_simps)
  show "inverse a * a = 1" if "a \<noteq> 0"
  proof -
    have "gf3_norm a \<noteq> 0" using that by (auto simp: gf3_norm_zero gf3_eq_iff zero_gf3_def)
    then show ?thesis
      by (simp add: inverse_gf3_def times_gf3_def one_gf3_def field_simps) (simp add: gf3_norm_def algebra_simps)
  qed
  show "a div b = a * inverse b" by (rule divide_gf3_def)
  show "inverse (0 :: gf3) = 0" by (simp add: inverse_gf3_def zero_gf3_def)
qed

end

end
