(* ===== verification/Goldilocks_Ext.thy ===== *)
theory Goldilocks_Ext
  imports Goldilocks Goldilocks_Tower "HOL-Library.Monad_Syntax"
begin

text \<open>
  The extensions of the Goldilocks field (\<^verbatim>\<open>crypto/math/src/field/extensions_goldilocks.rs\<close>): arrays of
  two and of three field elements with the arithmetic of \<open>w\<^sup>2 = 7\<close> and \<open>w\<^sup>3 = 2\<close>, the mixed operations with
  elements of the base field, the byte representations and the sampling of the cubic extension.
\<close>

type_synonym fp2 = "u64 \<times> u64"
type_synonym fp3 = "u64 \<times> u64 \<times> u64"

section \<open>Degree 2\<close>

definition gl2_add :: "fp2 \<Rightarrow> fp2 \<Rightarrow> fp2 option" where
  "gl2_add a b = (case (a, b) of ((a0, a1), (b0, b1)) \<Rightarrow>
     do { c0 \<leftarrow> gl_add a0 b0; c1 \<leftarrow> gl_add a1 b1; Some (c0, c1) })"

definition gl2_mul :: "fp2 \<Rightarrow> fp2 \<Rightarrow> fp2 option" where
  "gl2_mul a b = (case (a, b) of ((a0, a1), (b0, b1)) \<Rightarrow>
     do {
       b1_7 \<leftarrow> mul_by_7_raw b1;
       c0 \<leftarrow> dot_product_2 a0 b0 a1 b1_7;
       c1 \<leftarrow> dot_product_2 a0 b1 a1 b0;
       Some (c0, c1)
     })"

definition gl2_square :: "fp2 \<Rightarrow> fp2 option" where
  "gl2_square a = (case a of (a0, a1) \<Rightarrow>
     do {
       a1_7 \<leftarrow> mul_by_7_raw a1;
       c0 \<leftarrow> dot_product_2 a0 a0 a1 a1_7;
       c1 \<leftarrow> gl_mul a0 a1;
       c1 \<leftarrow> gl_double c1;
       Some (c0, c1)
     })"

definition gl2_sub :: "fp2 \<Rightarrow> fp2 \<Rightarrow> fp2 option" where
  "gl2_sub a b = (case (a, b) of ((a0, a1), (b0, b1)) \<Rightarrow>
     do { c0 \<leftarrow> gl_sub a0 b0; c1 \<leftarrow> gl_sub a1 b1; Some (c0, c1) })"

definition gl2_neg :: "fp2 \<Rightarrow> fp2 option" where
  "gl2_neg a = (case a of (a0, a1) \<Rightarrow> do { c0 \<leftarrow> gl_neg a0; c1 \<leftarrow> gl_neg a1; Some (c0, c1) })"

definition gl2_norm :: "fp2 \<Rightarrow> u64 option" where
  "gl2_norm a = (case a of (a0, a1) \<Rightarrow>
     do {
       a0_sq \<leftarrow> gl_square a0;
       a1_sq \<leftarrow> gl_square a1;
       w_a1_sq \<leftarrow> mul_by_7_raw a1_sq;
       gl_sub a0_sq w_a1_sq
     })"

definition gl2_inv :: "fp2 \<Rightarrow> (FieldError, fp2) result option" where
  "gl2_inv a = (case a of (a0, a1) \<Rightarrow>
     do {
       norm \<leftarrow> gl2_norm a;
       r \<leftarrow> gl_inv norm;
       case r of
         Inl e \<Rightarrow> Some (Inl e)
       | Inr norm_inv \<Rightarrow>
           do {
             c0 \<leftarrow> gl_mul a0 norm_inv;
             n1 \<leftarrow> gl_neg a1;
             c1 \<leftarrow> gl_mul n1 norm_inv;
             Some (Inr (c0, c1))
           }
     })"

definition gl2_div :: "fp2 \<Rightarrow> fp2 \<Rightarrow> (FieldError, fp2) result option" where
  "gl2_div a b =
     do {
       r \<leftarrow> gl2_inv b;
       case r of Inl e \<Rightarrow> Some (Inl e) | Inr b_inv \<Rightarrow> map_option Inr (gl2_mul a b_inv)
     }"

definition gl2_eq :: "fp2 \<Rightarrow> fp2 \<Rightarrow> bool" where
  "gl2_eq a b \<longleftrightarrow> gl_eq (fst a) (fst b) \<and> gl_eq (snd a) (snd b)"

definition gl2_zero :: fp2 where "gl2_zero = (gl_zero, gl_zero)"

definition gl2_one :: fp2 where "gl2_one = (gl_one, gl_zero)"

definition gl2_from_u64 :: "u64 \<Rightarrow> fp2" where "gl2_from_u64 x = (gl_from_u64 x, gl_zero)"

definition gl2_double :: "fp2 \<Rightarrow> fp2 option" where
  "gl2_double a = (case a of (a0, a1) \<Rightarrow> do { c0 \<leftarrow> gl_double a0; c1 \<leftarrow> gl_double a1; Some (c0, c1) })"

definition Degree2GoldilocksExtensionField :: "fp2 IsField" where
  "Degree2GoldilocksExtensionField = \<lparr>f_add = gl2_add, f_double = gl2_double, f_mul = gl2_mul,
     f_square = gl2_square, f_sub = gl2_sub, f_neg = gl2_neg, f_inv = gl2_inv, f_div = gl2_div,
     f_eq = gl2_eq, f_zero = gl2_zero, f_one = gl2_one, f_from_u64 = gl2_from_u64\<rparr>"

definition sub2_mul :: "u64 \<Rightarrow> fp2 \<Rightarrow> fp2 option" where
  "sub2_mul a b = (case b of (b0, b1) \<Rightarrow> do { c0 \<leftarrow> gl_mul a b0; c1 \<leftarrow> gl_mul a b1; Some (c0, c1) })"

definition sub2_add :: "u64 \<Rightarrow> fp2 \<Rightarrow> fp2 option" where
  "sub2_add a b = (case b of (b0, b1) \<Rightarrow> do { c0 \<leftarrow> gl_add a b0; Some (c0, b1) })"

definition sub2_div :: "u64 \<Rightarrow> fp2 \<Rightarrow> (FieldError, fp2) result option" where
  "sub2_div a b =
     do {
       r \<leftarrow> gl2_inv b;
       case r of Inl e \<Rightarrow> Some (Inl e) | Inr b_inv \<Rightarrow> map_option Inr (sub2_mul a b_inv)
     }"

definition sub2_sub :: "u64 \<Rightarrow> fp2 \<Rightarrow> fp2 option" where
  "sub2_sub a b = (case b of (b0, b1) \<Rightarrow> do { c0 \<leftarrow> gl_sub a b0; c1 \<leftarrow> gl_neg b1; Some (c0, c1) })"

definition sub2_embed :: "u64 \<Rightarrow> fp2" where "sub2_embed a = (a, gl_zero)"

definition gl2_conjugate :: "fp2 \<Rightarrow> fp2 option" where
  "gl2_conjugate a = (case a of (a0, a1) \<Rightarrow> do { n1 \<leftarrow> gl_neg a1; Some (a0, n1) })"

section \<open>Degree 3\<close>

definition gl3_add :: "fp3 \<Rightarrow> fp3 \<Rightarrow> fp3 option" where
  "gl3_add a b = (case (a, b) of ((a0, a1, a2), (b0, b1, b2)) \<Rightarrow>
     do { c0 \<leftarrow> gl_add a0 b0; c1 \<leftarrow> gl_add a1 b1; c2 \<leftarrow> gl_add a2 b2; Some (c0, c1, c2) })"

definition gl3_mul :: "fp3 \<Rightarrow> fp3 \<Rightarrow> fp3 option" where
  "gl3_mul a b = (case (a, b) of ((a0, a1, a2), (b0, b1, b2)) \<Rightarrow>
     do {
       b1_2 \<leftarrow> gl_double b1;
       b2_2 \<leftarrow> gl_double b2;
       c0 \<leftarrow> dot_product_3 a0 b0 a1 b2_2 a2 b1_2;
       c1 \<leftarrow> dot_product_3 a0 b1 a1 b0 a2 b2_2;
       c2 \<leftarrow> dot_product_3 a0 b2 a1 b1 a2 b0;
       Some (c0, c1, c2)
     })"

definition gl3_square :: "fp3 \<Rightarrow> fp3 option" where
  "gl3_square a = (case a of (a0, a1, a2) \<Rightarrow>
     do {
       a0_2 \<leftarrow> gl_double a0;
       d \<leftarrow> gl_double a2;
       a2_4 \<leftarrow> gl_double d;
       c0 \<leftarrow> dot_product_2 a0 a0 a1 a2_4;
       a2_2 \<leftarrow> gl_double a2;
       c1 \<leftarrow> dot_product_2 a0_2 a1 a2_2 a2;
       c2 \<leftarrow> dot_product_2 a1 a1 a0_2 a2;
       Some (c0, c1, c2)
     })"

definition gl3_sub :: "fp3 \<Rightarrow> fp3 \<Rightarrow> fp3 option" where
  "gl3_sub a b = (case (a, b) of ((a0, a1, a2), (b0, b1, b2)) \<Rightarrow>
     do { c0 \<leftarrow> gl_sub a0 b0; c1 \<leftarrow> gl_sub a1 b1; c2 \<leftarrow> gl_sub a2 b2; Some (c0, c1, c2) })"

definition gl3_neg :: "fp3 \<Rightarrow> fp3 option" where
  "gl3_neg a = (case a of (a0, a1, a2) \<Rightarrow>
     do { c0 \<leftarrow> gl_neg a0; c1 \<leftarrow> gl_neg a1; c2 \<leftarrow> gl_neg a2; Some (c0, c1, c2) })"

definition gl3_norm :: "u64 \<Rightarrow> u64 \<Rightarrow> u64 \<Rightarrow> u64 \<Rightarrow> u64 \<Rightarrow> u64 \<Rightarrow> u64 option" where
  "gl3_norm a0 a1 a2 a0_sq a1_sq a2_sq =
     do {
       a0_cubed \<leftarrow> gl_mul a0_sq a0;
       a1_cubed \<leftarrow> gl_mul a1_sq a1;
       a2_cubed \<leftarrow> gl_mul a2_sq a2;
       a0a1 \<leftarrow> gl_mul a0 a1;
       a0a1a2 \<leftarrow> gl_mul a0a1 a2;
       d1 \<leftarrow> gl_double a1_cubed;
       s1 \<leftarrow> gl_add a0_cubed d1;
       d2 \<leftarrow> gl_double a2_cubed;
       d2 \<leftarrow> gl_double d2;
       s2 \<leftarrow> gl_add s1 d2;
       d3 \<leftarrow> gl_double a0a1a2;
       t3 \<leftarrow> gl_add d3 a0a1a2;
       t6 \<leftarrow> gl_double t3;
       gl_sub s2 t6
     }"

definition gl3_inv :: "fp3 \<Rightarrow> (FieldError, fp3) result option" where
  "gl3_inv a = (case a of (a0, a1, a2) \<Rightarrow>
     do {
       a0_sq \<leftarrow> gl_square a0;
       a1_sq \<leftarrow> gl_square a1;
       a2_sq \<leftarrow> gl_square a2;
       norm \<leftarrow> gl3_norm a0 a1 a2 a0_sq a1_sq a2_sq;
       r \<leftarrow> gl_inv norm;
       case r of
         Inl e \<Rightarrow> Some (Inl e)
       | Inr norm_inv \<Rightarrow>
           do {
             a1a2 \<leftarrow> gl_mul a1 a2;
             a0a1 \<leftarrow> gl_mul a0 a1;
             a0a2 \<leftarrow> gl_mul a0 a2;
             d \<leftarrow> gl_double a1a2;
             n0 \<leftarrow> gl_sub a0_sq d;
             c0 \<leftarrow> gl_mul n0 norm_inv;
             e \<leftarrow> gl_double a2_sq;
             n1 \<leftarrow> gl_sub e a0a1;
             c1 \<leftarrow> gl_mul n1 norm_inv;
             n2 \<leftarrow> gl_sub a1_sq a0a2;
             c2 \<leftarrow> gl_mul n2 norm_inv;
             Some (Inr (c0, c1, c2))
           }
     })"

definition gl3_div :: "fp3 \<Rightarrow> fp3 \<Rightarrow> (FieldError, fp3) result option" where
  "gl3_div a b =
     do {
       r \<leftarrow> gl3_inv b;
       case r of Inl e \<Rightarrow> Some (Inl e) | Inr b_inv \<Rightarrow> map_option Inr (gl3_mul a b_inv)
     }"

definition gl3_eq :: "fp3 \<Rightarrow> fp3 \<Rightarrow> bool" where
  "gl3_eq a b \<longleftrightarrow> (case (a, b) of ((a0, a1, a2), (b0, b1, b2)) \<Rightarrow> gl_eq a0 b0 \<and> gl_eq a1 b1 \<and> gl_eq a2 b2)"

definition gl3_zero :: fp3 where "gl3_zero = (gl_zero, gl_zero, gl_zero)"

definition gl3_one :: fp3 where "gl3_one = (gl_one, gl_zero, gl_zero)"

definition gl3_from_u64 :: "u64 \<Rightarrow> fp3" where "gl3_from_u64 x = (gl_from_u64 x, gl_zero, gl_zero)"

definition gl3_double :: "fp3 \<Rightarrow> fp3 option" where
  "gl3_double a = (case a of (a0, a1, a2) \<Rightarrow>
     do { c0 \<leftarrow> gl_double a0; c1 \<leftarrow> gl_double a1; c2 \<leftarrow> gl_double a2; Some (c0, c1, c2) })"

definition Degree3GoldilocksExtensionField :: "fp3 IsField" where
  "Degree3GoldilocksExtensionField = \<lparr>f_add = gl3_add, f_double = gl3_double, f_mul = gl3_mul,
     f_square = gl3_square, f_sub = gl3_sub, f_neg = gl3_neg, f_inv = gl3_inv, f_div = gl3_div,
     f_eq = gl3_eq, f_zero = gl3_zero, f_one = gl3_one, f_from_u64 = gl3_from_u64\<rparr>"

definition sub3_mul :: "u64 \<Rightarrow> fp3 \<Rightarrow> fp3 option" where
  "sub3_mul a b = (case b of (b0, b1, b2) \<Rightarrow>
     do { c0 \<leftarrow> gl_mul a b0; c1 \<leftarrow> gl_mul a b1; c2 \<leftarrow> gl_mul a b2; Some (c0, c1, c2) })"

definition sub3_add :: "u64 \<Rightarrow> fp3 \<Rightarrow> fp3 option" where
  "sub3_add a b = (case b of (b0, b1, b2) \<Rightarrow> do { c0 \<leftarrow> gl_add a b0; Some (c0, b1, b2) })"

definition sub3_div :: "u64 \<Rightarrow> fp3 \<Rightarrow> (FieldError, fp3) result option" where
  "sub3_div a b =
     do {
       r \<leftarrow> gl3_inv b;
       case r of Inl e \<Rightarrow> Some (Inl e) | Inr b_inv \<Rightarrow> map_option Inr (sub3_mul a b_inv)
     }"

definition sub3_sub :: "u64 \<Rightarrow> fp3 \<Rightarrow> fp3 option" where
  "sub3_sub a b = (case b of (b0, b1, b2) \<Rightarrow>
     do { c0 \<leftarrow> gl_sub a b0; c1 \<leftarrow> gl_neg b1; c2 \<leftarrow> gl_neg b2; Some (c0, c1, c2) })"

definition sub3_embed :: "u64 \<Rightarrow> fp3" where "sub3_embed a = (a, gl_zero, gl_zero)"

section \<open>Bytes and samples of the cubic extension\<close>

definition gl3_to_bytes_be :: "fp3 \<Rightarrow> u8 list" where
  "gl3_to_bytes_be a = (case a of (a0, a1, a2) \<Rightarrow> gl_to_bytes_be a0 @ gl_to_bytes_be a1 @ gl_to_bytes_be a2)"

definition gl3_to_bytes_le :: "fp3 \<Rightarrow> u8 list" where
  "gl3_to_bytes_le a = (case a of (a0, a1, a2) \<Rightarrow> gl_to_bytes_le a0 @ gl_to_bytes_le a1 @ gl_to_bytes_le a2)"

definition gl3_from_bytes_be :: "u8 list \<Rightarrow> (ByteConversionError, fp3) result" where
  "gl3_from_bytes_be bytes =
     (if length bytes < 24 then Inl FromBEBytesError
      else rbind (gl_from_bytes_be (take 8 bytes)) (\<lambda>x0.
        rbind (gl_from_bytes_be (take 8 (drop 8 bytes))) (\<lambda>x1.
        rbind (gl_from_bytes_be (take 8 (drop 16 bytes))) (\<lambda>x2. Inr (x0, x1, x2)))))"

definition gl3_from_bytes_le :: "u8 list \<Rightarrow> (ByteConversionError, fp3) result" where
  "gl3_from_bytes_le bytes =
     (if length bytes < 24 then Inl FromLEBytesError
      else rbind (gl_from_bytes_le (take 8 bytes)) (\<lambda>x0.
        rbind (gl_from_bytes_le (take 8 (drop 8 bytes))) (\<lambda>x1.
        rbind (gl_from_bytes_le (take 8 (drop 16 bytes))) (\<lambda>x2. Inr (x0, x1, x2)))))"

text \<open>The representation of the bare array has its big-endian limbs from the most significant one.\<close>

definition arr3_to_bytes_be :: "fp3 \<Rightarrow> u8 list" where
  "arr3_to_bytes_be a = (case a of (a0, a1, a2) \<Rightarrow> gl_to_bytes_be a2 @ gl_to_bytes_be a1 @ gl_to_bytes_be a0)"

definition arr3_from_bytes_be :: "u8 list \<Rightarrow> (ByteConversionError, fp3) result" where
  "arr3_from_bytes_be bytes =
     (if length bytes < 24 then Inl FromBEBytesError
      else rbind (gl_from_bytes_be (take 8 bytes)) (\<lambda>x2.
        rbind (gl_from_bytes_be (take 8 (drop 8 bytes))) (\<lambda>x1.
        rbind (gl_from_bytes_be (take 8 (drop 16 bytes))) (\<lambda>x0. Inr (x0, x1, x2)))))"

definition sample_field_element3_from :: "('s \<Rightarrow> u64 \<times> 's) \<Rightarrow> 's \<Rightarrow> (fp3 \<times> 's) option" where
  "sample_field_element3_from next_u64 s =
     do {
       (x0, s) \<leftarrow> sample_field_element_from next_u64 s;
       (x1, s) \<leftarrow> sample_field_element_from next_u64 s;
       (x2, s) \<leftarrow> sample_field_element_from next_u64 s;
       Some ((x0, x1, x2), s)
     }"

section \<open>The extensions are the fields\<close>

definition gl2_val :: "fp2 \<Rightarrow> gf2" where "gl2_val a = Gf2 (gl_val (fst a)) (gl_val (snd a))"

definition gl3_val :: "fp3 \<Rightarrow> gf3" where
  "gl3_val a = Gf3 (gl_val (fst a)) (gl_val (fst (snd a))) (gl_val (snd (snd a)))"

lemmas gl_yields =
  yields_bind [OF gl_add_yields] yields_bind [OF gl_sub_yields] yields_bind [OF gl_neg_yields]
  yields_bind [OF gl_double_yields] yields_bind [OF gl_mul_yields] yields_bind [OF gl_square_yields]
  yields_bind [OF dot_product_2_yields] yields_bind [OF dot_product_3_yields] yields_bind [OF mul_by_7_yields]

lemma gl2_val_simps [simp]: "gl2_val (a, b) = Gf2 (gl_val a) (gl_val b)"
  by (simp add: gl2_val_def)

lemma gl3_val_simps [simp]: "gl3_val (a, b, c) = Gf3 (gl_val a) (gl_val b) (gl_val c)"
  by (simp add: gl3_val_def)

lemma gl2_add_yields: "yields gl2_val (gl2_add a b) (gl2_val a + gl2_val b)"
  by (cases a; cases b) (auto simp: gl2_add_def plus_gf2_def intro!: gl_yields)

lemma gl2_sub_yields: "yields gl2_val (gl2_sub a b) (gl2_val a - gl2_val b)"
  by (cases a; cases b) (auto simp: gl2_sub_def minus_gf2_def intro!: gl_yields)

lemma gl2_neg_yields: "yields gl2_val (gl2_neg a) (- gl2_val a)"
  by (cases a) (auto simp: gl2_neg_def uminus_gf2_def intro!: gl_yields)

lemma gl2_double_yields: "yields gl2_val (gl2_double a) (2 * gl2_val a)"
  unfolding mult_2 by (cases a) (auto simp: gl2_double_def plus_gf2_def intro!: gl_yields)

lemma gl2_mul_yields: "yields gl2_val (gl2_mul a b) (gl2_val a * gl2_val b)"
  by (cases a; cases b) (auto simp: gl2_mul_def times_gf2_def intro!: gl_yields)

lemma gl2_square_yields: "yields gl2_val (gl2_square a) (gl2_val a * gl2_val a)"
  by (cases a) (auto simp: gl2_square_def times_gf2_def intro!: gl_yields)

lemma gl3_add_yields: "yields gl3_val (gl3_add a b) (gl3_val a + gl3_val b)"
  by (cases a; cases b) (auto simp: gl3_add_def plus_gf3_def intro!: gl_yields)

lemma gl3_sub_yields: "yields gl3_val (gl3_sub a b) (gl3_val a - gl3_val b)"
  by (cases a; cases b) (auto simp: gl3_sub_def minus_gf3_def intro!: gl_yields)

lemma gl3_neg_yields: "yields gl3_val (gl3_neg a) (- gl3_val a)"
  by (cases a) (auto simp: gl3_neg_def uminus_gf3_def intro!: gl_yields)

lemma gl3_double_yields: "yields gl3_val (gl3_double a) (2 * gl3_val a)"
  unfolding mult_2 by (cases a) (auto simp: gl3_double_def plus_gf3_def intro!: gl_yields)

lemma gl3_mul_yields: "yields gl3_val (gl3_mul a b) (gl3_val a * gl3_val b)"
  by (cases a; cases b) (auto simp: gl3_mul_def times_gf3_def algebra_simps intro!: gl_yields)

lemma gl3_square_yields: "yields gl3_val (gl3_square a) (gl3_val a * gl3_val a)"
  by (cases a) (auto simp: gl3_square_def times_gf3_def algebra_simps intro!: gl_yields)

definition ok_val :: "('a \<Rightarrow> 'v) \<Rightarrow> ('e, 'a) result \<Rightarrow> 'v option" where
  "ok_val val r = (case r of Inl _ \<Rightarrow> None | Inr w \<Rightarrow> Some (val w))"

lemma ok_val_Inr [simp]: "ok_val val (Inr w) = Some (val w)"
  by (simp add: ok_val_def)

lemma ok_valE:
  assumes "yields (ok_val val) r (Some v)"
  obtains w where "r = Some (Inr w)" "val w = v"
  using assms
proof (rule yieldsE)
  fix w assume "r = Some w" "ok_val val w = Some v"
  then show thesis using that by (cases w) (auto simp: ok_val_def)
qed

lemma inverts_by_norm:
  assumes "yields gl_val norm n" "v = 0 \<longleftrightarrow> n = 0"
    and "\<And>norm_inv. gl_val norm_inv = inverse n \<Longrightarrow> n \<noteq> 0 \<Longrightarrow> yields (ok_val val) (f norm_inv) (Some (inverse v))"
  shows "inverts val (do {
       norm \<leftarrow> norm;
       r \<leftarrow> gl_inv norm;
       case r of Inl e \<Rightarrow> Some (Inl e) | Inr norm_inv \<Rightarrow> f norm_inv }) v"
proof -
  obtain m where m: "norm = Some m" "gl_val m = n" using assms(1) by (rule yieldsE)
  show ?thesis
  proof (cases "n = 0")
    case True
    then show ?thesis using gl_inv_inverts [of m] m assms(2) by (simp add: inverts_def)
  next
    case False
    then obtain i where i: "gl_inv m = Some (Inr i)" "gl_val i = inverse n"
      using gl_inv_inverts [of m] m(2) by (auto simp: inverts_def)
    obtain w where "f i = Some (Inr w)" "val w = inverse v" using assms(3) [OF i(2) False] by (rule ok_valE)
    then show ?thesis using False assms(2) m(1) i(1) by (simp add: inverts_def)
  qed
qed

lemma div_by_inverse:
  assumes "inverts val (invf b) (val b)" "\<And>c. yields val (mul a c) (k * val c)"
  shows "if val b = 0 then do { r \<leftarrow> invf b; case r of Inl e \<Rightarrow> Some (Inl e) | Inr c \<Rightarrow> map_option Inr (mul a c) } = Some (Inl InvZeroError)
     else \<exists>w. do { r \<leftarrow> invf b; case r of Inl e \<Rightarrow> Some (Inl e) | Inr c \<Rightarrow> map_option Inr (mul a c) } = Some (Inr w)
       \<and> val w = k / val b"
proof (cases "val b = 0")
  case False
  then obtain c where c: "invf b = Some (Inr c)" "val c = inverse (val b)" using assms(1) by (auto simp: inverts_def)
  obtain w where "mul a c = Some w" "val w = k * val c" using assms(2) by (rule yieldsE)
  then show ?thesis using False c by (simp add: divide_inverse)
qed (use assms(1) in \<open>simp add: inverts_def\<close>)

lemma gl2_norm_yields: "yields gl_val (gl2_norm a) (gf2_norm (gl2_val a))"
  by (cases a) (auto simp: gl2_norm_def gf2_norm_def intro!: gl_yields yields_eq [OF gl_sub_yields])

lemma gl2_inv_inverts: "inverts gl2_val (gl2_inv a) (gl2_val a)"
proof (cases a)
  case (Pair a0 a1)
  show ?thesis unfolding gl2_inv_def Pair prod.case
  proof (rule inverts_by_norm [OF gl2_norm_yields])
    show "gl2_val (a0, a1) = 0 \<longleftrightarrow> gf2_norm (gl2_val (a0, a1)) = 0"
      by (simp add: gf2_norm_zero gf2_eq_iff zero_gf2_def)
  qed (auto simp: inverse_gf2_def divide_inverse intro!: gl_yields)
qed

lemma gl3_norm_yields:
  assumes "gl_val a0_sq = gl_val a0 * gl_val a0" "gl_val a1_sq = gl_val a1 * gl_val a1" "gl_val a2_sq = gl_val a2 * gl_val a2"
  shows "yields gl_val (gl3_norm a0 a1 a2 a0_sq a1_sq a2_sq) (gf3_norm (gl3_val (a0, a1, a2)))"
  unfolding gl3_norm_def
  by (rule gl_yields yields_eq [OF gl_sub_yields])+ (simp add: assms gf3_norm_def algebra_simps)

lemma gl3_inv_inverts: "inverts gl3_val (gl3_inv a) (gl3_val a)"
proof -
  obtain a0 a1 a2 where a: "a = (a0, a1, a2)" by (cases a)
  obtain s0 where s0: "gl_square a0 = Some s0" "gl_val s0 = gl_val a0 * gl_val a0" using gl_square_yields by (rule yieldsE)
  obtain s1 where s1: "gl_square a1 = Some s1" "gl_val s1 = gl_val a1 * gl_val a1" using gl_square_yields by (rule yieldsE)
  obtain s2 where s2: "gl_square a2 = Some s2" "gl_val s2 = gl_val a2 * gl_val a2" using gl_square_yields by (rule yieldsE)
  show ?thesis unfolding gl3_inv_def a prod.case s0(1) s1(1) s2(1) bind.bind_lunit
  proof (rule inverts_by_norm [OF gl3_norm_yields [OF s0(2) s1(2) s2(2)]])
    show "gl3_val (a0, a1, a2) = 0 \<longleftrightarrow> gf3_norm (gl3_val (a0, a1, a2)) = 0"
      by (simp add: gf3_norm_zero gf3_eq_iff zero_gf3_def)
  qed (auto simp: inverse_gf3_def divide_inverse s0(2) s1(2) s2(2) intro!: gl_yields)
qed

lemma of_nat_gf2: "of_nat n = Gf2 (of_nat n) 0"
  by (induction n) (simp_all add: gf2_ops)

lemma of_nat_gf3: "of_nat n = Gf3 (of_nat n) 0 0"
  by (induction n) (simp_all add: gf3_ops)

lemma gl_val_constants [simp]: "gl_val gl_zero = 0" "gl_val gl_one = 1" "gl_val (gl_from_u64 x) = gl_val x"
  by (simp_all add: gl_zero_def gl_one_def gl_from_u64_canonical)

lemma gl2_div_divides:
  "if gl2_val b = 0 then gl2_div a b = Some (Inl InvZeroError)
   else \<exists>w. gl2_div a b = Some (Inr w) \<and> gl2_val w = gl2_val a / gl2_val b"
  unfolding gl2_div_def by (rule div_by_inverse [OF gl2_inv_inverts gl2_mul_yields])

lemma gl3_div_divides:
  "if gl3_val b = 0 then gl3_div a b = Some (Inl InvZeroError)
   else \<exists>w. gl3_div a b = Some (Inr w) \<and> gl3_val w = gl3_val a / gl3_val b"
  unfolding gl3_div_def by (rule div_by_inverse [OF gl3_inv_inverts gl3_mul_yields])

interpretation gl2: field_impl Degree2GoldilocksExtensionField gl2_val
proof
  fix a b :: fp2 and n :: u64
  show "if gl2_val b = 0 then f_div Degree2GoldilocksExtensionField a b = Some (Inl InvZeroError)
    else \<exists>w. f_div Degree2GoldilocksExtensionField a b = Some (Inr w) \<and> gl2_val w = gl2_val a / gl2_val b"
    unfolding Degree2GoldilocksExtensionField_def IsField.simps by (rule gl2_div_divides)
  show "f_eq Degree2GoldilocksExtensionField a b \<longleftrightarrow> gl2_val a = gl2_val b"
    by (simp add: Degree2GoldilocksExtensionField_def gl2_eq_def gl_eq_iff gl2_val_def)
qed (simp_all add: Degree2GoldilocksExtensionField_def gl2_add_yields gl2_sub_yields gl2_neg_yields
    gl2_double_yields gl2_mul_yields gl2_square_yields gl2_inv_inverts gl2_zero_def gl2_one_def gl2_from_u64_def
    of_nat_gf2 zero_gf2_def one_gf2_def, simp add: gl_val_def)

interpretation gl3: field_impl Degree3GoldilocksExtensionField gl3_val
proof
  fix a b :: fp3 and n :: u64
  show "if gl3_val b = 0 then f_div Degree3GoldilocksExtensionField a b = Some (Inl InvZeroError)
    else \<exists>w. f_div Degree3GoldilocksExtensionField a b = Some (Inr w) \<and> gl3_val w = gl3_val a / gl3_val b"
    unfolding Degree3GoldilocksExtensionField_def IsField.simps by (rule gl3_div_divides)
  show "f_eq Degree3GoldilocksExtensionField a b \<longleftrightarrow> gl3_val a = gl3_val b"
    by (cases a; cases b) (simp add: Degree3GoldilocksExtensionField_def gl3_eq_def gl_eq_iff)
qed (simp_all add: Degree3GoldilocksExtensionField_def gl3_add_yields gl3_sub_yields gl3_neg_yields
    gl3_double_yields gl3_mul_yields gl3_square_yields gl3_inv_inverts gl3_zero_def gl3_one_def gl3_from_u64_def
    of_nat_gf3 zero_gf3_def one_gf3_def, simp add: gl_val_def)

section \<open>Mixed operations with the base field\<close>

lemma sub2_yields:
  "yields gl2_val (sub2_mul a b) (gl2_val (sub2_embed a) * gl2_val b)"
  "yields gl2_val (sub2_add a b) (gl2_val (sub2_embed a) + gl2_val b)"
  "yields gl2_val (sub2_sub a b) (gl2_val (sub2_embed a) - gl2_val b)"
  by (cases b; auto simp: sub2_mul_def sub2_add_def sub2_sub_def sub2_embed_def gf2_ops intro!: gl_yields)+

lemma sub2_div_divides:
  "if gl2_val b = 0 then sub2_div a b = Some (Inl InvZeroError)
   else \<exists>w. sub2_div a b = Some (Inr w) \<and> gl2_val w = gl2_val (sub2_embed a) / gl2_val b"
  unfolding sub2_div_def by (rule div_by_inverse [OF gl2_inv_inverts sub2_yields(1)])

lemma sub3_yields:
  "yields gl3_val (sub3_mul a b) (gl3_val (sub3_embed a) * gl3_val b)"
  "yields gl3_val (sub3_add a b) (gl3_val (sub3_embed a) + gl3_val b)"
  "yields gl3_val (sub3_sub a b) (gl3_val (sub3_embed a) - gl3_val b)"
  by (cases b; auto simp: sub3_mul_def sub3_add_def sub3_sub_def sub3_embed_def gf3_ops intro!: gl_yields)+

lemma sub3_div_divides:
  "if gl3_val b = 0 then sub3_div a b = Some (Inl InvZeroError)
   else \<exists>w. sub3_div a b = Some (Inr w) \<and> gl3_val w = gl3_val (sub3_embed a) / gl3_val b"
  unfolding sub3_div_def by (rule div_by_inverse [OF gl3_inv_inverts sub3_yields(1)])

lemma gl2_conjugate_norm:
  "yields gl2_val (do { c \<leftarrow> gl2_conjugate a; gl2_mul a c }) (Gf2 (gf2_norm (gl2_val a)) 0)"
proof -
  obtain a0 a1 where a: "a = (a0, a1)" by (cases a)
  obtain n where n: "gl_neg a1 = Some n" "gl_val n = - gl_val a1" using gl_neg_yields by (rule yieldsE)
  show ?thesis
    using n yields_eq [OF gl2_mul_yields [of a "(a0, n)"], of "Gf2 (gf2_norm (gl2_val a)) 0"]
    by (simp add: gl2_conjugate_def a times_gf2_def gf2_norm_def algebra_simps)
qed

section \<open>Properties of the extensions\<close>

lemma gl_to_bytes_be_take [simp]:
  "gl_from_bytes_be (gl_to_bytes_be a) = Inr (canonical a)" "gl_from_bytes_le (gl_to_bytes_le a) = Inr (canonical a)"
  using gl_bytes_be_roundtrip [of a "[]"] gl_bytes_le_roundtrip [of a "[]"] by simp_all

text \<open>
  The quadratic extension computes in the field \<open>\<F>\<^sub>p[w]/(w\<^sup>2 - 7)\<close>: every operation returns, with the value
  of the field operation; division and inversion fail exactly on zero; an element times its conjugate
  is its norm; the mixed operations agree with embedding the base element first.
\<close>

theorem quadratic_extension_arithmetic:
  "yields gl2_val (gl2_add a b) (gl2_val a + gl2_val b) \<and>
   yields gl2_val (gl2_sub a b) (gl2_val a - gl2_val b) \<and>
   yields gl2_val (gl2_neg a) (- gl2_val a) \<and>
   yields gl2_val (gl2_mul a b) (gl2_val a * gl2_val b) \<and>
   yields gl2_val (gl2_square a) (gl2_val a ^ 2) \<and>
   (if gl2_eq b gl2_zero then gl2_div a b = Some (Inl InvZeroError)
    else yields (ok_val gl2_val) (gl2_div a b) (Some (gl2_val a / gl2_val b))) \<and>
   yields gl2_val (do { c \<leftarrow> gl2_conjugate a; gl2_mul a c }) (Gf2 (gf2_norm (gl2_val a)) 0) \<and>
   yields gl2_val (sub2_mul x b) (gl2_val (sub2_embed x) * gl2_val b) \<and>
   yields gl2_val (sub2_add x b) (gl2_val (sub2_embed x) + gl2_val b) \<and>
   yields gl2_val (sub2_sub x b) (gl2_val (sub2_embed x) - gl2_val b)"
proof -
  have "gl2_eq b gl2_zero \<longleftrightarrow> gl2_val b = 0"
    using gl2.eq_iff [of b gl2_zero] gl2.zero_val by (simp add: Degree2GoldilocksExtensionField_def)
  then have "if gl2_eq b gl2_zero then gl2_div a b = Some (Inl InvZeroError)
    else yields (ok_val gl2_val) (gl2_div a b) (Some (gl2_val a / gl2_val b))"
    using gl2_div_divides [of b a] by (auto simp: yields_def split: if_splits)
  then show ?thesis unfolding power2_eq_square
    by (intro conjI gl2_add_yields gl2_sub_yields gl2_neg_yields gl2_mul_yields gl2_square_yields
        gl2_conjugate_norm sub2_yields)
qed

text \<open>
  C35: the cubic extension, in which the prover draws its challenges, computes in the field
  \<open>\<F>\<^sub>p[w]/(w\<^sup>3 - 2)\<close>: every operation returns, with the value of the field operation; division and inversion
  fail exactly on zero; the mixed operations agree with embedding the base element first.
\<close>

theorem cubic_extension_arithmetic:
  "yields gl3_val (gl3_add a b) (gl3_val a + gl3_val b) \<and>
   yields gl3_val (gl3_sub a b) (gl3_val a - gl3_val b) \<and>
   yields gl3_val (gl3_neg a) (- gl3_val a) \<and>
   yields gl3_val (gl3_mul a b) (gl3_val a * gl3_val b) \<and>
   yields gl3_val (gl3_square a) (gl3_val a ^ 2) \<and>
   (if gl3_eq b gl3_zero then gl3_div a b = Some (Inl InvZeroError)
    else yields (ok_val gl3_val) (gl3_div a b) (Some (gl3_val a / gl3_val b))) \<and>
   yields gl3_val (sub3_mul x b) (gl3_val (sub3_embed x) * gl3_val b) \<and>
   yields gl3_val (sub3_add x b) (gl3_val (sub3_embed x) + gl3_val b) \<and>
   yields gl3_val (sub3_sub x b) (gl3_val (sub3_embed x) - gl3_val b) \<and>
   (if gl3_eq b gl3_zero then sub3_div x b = Some (Inl InvZeroError)
    else yields (ok_val gl3_val) (sub3_div x b) (Some (gl3_val (sub3_embed x) / gl3_val b)))"
proof -
  have "gl3_eq b gl3_zero \<longleftrightarrow> gl3_val b = 0"
    using gl3.eq_iff [of b gl3_zero] gl3.zero_val by (simp add: Degree3GoldilocksExtensionField_def)
  then have "if gl3_eq b gl3_zero then gl3_div a b = Some (Inl InvZeroError)
    else yields (ok_val gl3_val) (gl3_div a b) (Some (gl3_val a / gl3_val b))"
    "if gl3_eq b gl3_zero then sub3_div x b = Some (Inl InvZeroError)
    else yields (ok_val gl3_val) (sub3_div x b) (Some (gl3_val (sub3_embed x) / gl3_val b))"
    using gl3_div_divides [of b a] sub3_div_divides [of b x] by (auto simp: yields_def split: if_splits)
  then show ?thesis unfolding power2_eq_square
    by (intro conjI gl3_add_yields gl3_sub_yields gl3_neg_yields gl3_mul_yields gl3_square_yields sub3_yields)
qed

text \<open>
  The byte representations of an element of the cubic extension are 24 bytes long and reading
  them back gives an equal element in canonical form, in both byte orders and for the bare array.
\<close>

theorem cubic_bytes_roundtrip:
  "length (gl3_to_bytes_be a) = 24 \<and>
   gl3_from_bytes_be (gl3_to_bytes_be a @ rest) = Inr (map_prod canonical (map_prod canonical canonical) a) \<and>
   gl3_from_bytes_le (gl3_to_bytes_le a @ rest) = Inr (map_prod canonical (map_prod canonical canonical) a) \<and>
   arr3_from_bytes_be (arr3_to_bytes_be a @ rest) = Inr (map_prod canonical (map_prod canonical canonical) a) \<and>
   gl3_eq (map_prod canonical (map_prod canonical canonical) a) a"
  by (cases a) (simp add: gl3_to_bytes_be_def gl3_to_bytes_le_def arr3_to_bytes_be_def gl3_from_bytes_be_def
      gl3_from_bytes_le_def arr3_from_bytes_be_def gl3_eq_def gl_eq_iff)

end
