(* ===== verification/Fft_Bits.thy ===== *)
theory Fft_Bits
  imports Vm_Prelude
begin

text \<open>
  The bit-reversal permutation (\<^verbatim>\<open>crypto/math/src/fft/bit_reversing.rs\<close>).  An index out of the bounds of the
  slice is a panic, the value \<open>None\<close>.
\<close>

unbundle bit_operations_syntax

definition reverse_bits :: "u64 \<Rightarrow> u64" where
  "reverse_bits w = horner_sum of_bool 2 (rev (map (bit w) [0..<64]))"

fun trailing_zeros :: "nat \<Rightarrow> nat" where
  "trailing_zeros n = (if n = 0 then 64 else if n mod 2 = 1 then 0 else Suc (trailing_zeros (n div 2)))"

declare trailing_zeros.simps [simp del]

text \<open>The shift amount is taken modulo the width, as the shift operators of the release profile do.\<close>

definition reverse_index :: "nat \<Rightarrow> nat \<Rightarrow> nat" where
  "reverse_index i sz =
     (if sz = 1 then i
      else unat (drop_bit ((64 - trailing_zeros sz) mod 64) (reverse_bits (word_of_nat i))))"

definition slice_swap :: "'a list \<Rightarrow> nat \<Rightarrow> nat \<Rightarrow> 'a list option" where
  "slice_swap xs i j =
     (if i < length xs \<and> j < length xs then Some (xs[i := xs ! j, j := xs ! i]) else None)"

fun permute_loop :: "nat list \<Rightarrow> 'a list \<Rightarrow> 'a list option" where
  "permute_loop [] input = Some input"
| "permute_loop (i # is) input =
     (let bit_reversed_index = reverse_index i (length input)
      in Option.bind (if i < bit_reversed_index then slice_swap input i bit_reversed_index else Some input)
           (permute_loop is))"

definition in_place_bit_reverse_permute :: "'a list \<Rightarrow> 'a list option" where
  "in_place_bit_reverse_permute input = permute_loop [0..<length input] input"

section \<open>Reversal of the bits of an index\<close>

definition bitrev :: "nat \<Rightarrow> nat \<Rightarrow> nat" where
  "bitrev k i = horner_sum of_bool 2 (rev (map (bit i) [0..<k]))"

lemma bit_bitrev: "bit (bitrev k i) m \<longleftrightarrow> m < k \<and> bit i (k - 1 - m)"
  by (auto simp: bitrev_def bit_horner_sum_bit_iff rev_nth)

lemma bitrev_0 [simp]: "bitrev 0 i = 0"
  by (simp add: bitrev_def)

lemma bitrev_Suc: "bitrev (Suc k) i = i mod 2 * 2 ^ k + bitrev k (i div 2)"
proof -
  have "map (bit i) [0..<Suc k] = odd i # map (bit (i div 2)) [0..<k]"
    by (rule nth_equalityI) (simp_all add: nth_Cons' bit_0 flip: bit_Suc del: upt_Suc)
  then show ?thesis by (simp add: bitrev_def horner_sum_append mod_2_eq_odd)
qed

lemma bitrev_less: "bitrev k i < 2 ^ k"
proof (induction k arbitrary: i)
  case (Suc k)
  have "i mod 2 * 2 ^ k \<le> 1 * 2 ^ k" by (intro mult_right_mono) auto
  then show ?case using Suc [of "i div 2"] unfolding bitrev_Suc power_Suc by linarith
qed simp

lemma bitrev_bitrev: "i < 2 ^ k \<Longrightarrow> bitrev k (bitrev k i) = i"
proof (rule bit_eqI)
  fix m assume i: "i < 2 ^ k"
  have "bit i m \<Longrightarrow> m < k" using i
    by (metis bit_take_bit_iff take_bit_nat_eq_self_iff)
  then show "bit (bitrev k (bitrev k i)) m \<longleftrightarrow> bit i m" by (auto simp: bit_bitrev)
qed

lemma bitrev_double [simp]: "bitrev (Suc k) (2 * i) = bitrev k i" "bitrev (Suc k) (Suc (2 * i)) = 2 ^ k + bitrev k i"
  by (simp_all add: bitrev_Suc)

lemma trailing_zeros_power: "trailing_zeros (2 ^ k) = k"
  by (induction k) (simp_all add: trailing_zeros.simps)

lemma reverse_index_power:
  assumes "k \<le> 64" "i < 2 ^ k"
  shows "reverse_index i (2 ^ k) = bitrev k i"
proof (cases k)
  case 0
  then show ?thesis using assms by (simp add: reverse_index_def)
next
  case (Suc m)
  let ?s = "(64 - k) mod 64"
  have s: "?s = 64 - k" using Suc by simp
  have big: "2 ^ k \<noteq> (1 :: nat)" using Suc by simp
  have "bit (unat (drop_bit (64 - k) (reverse_bits (word_of_nat i)))) n \<longleftrightarrow> bit (bitrev k i) n" for n
  proof -
    have i: "bit i n \<Longrightarrow> n < k" for n using assms(2) by (metis bit_take_bit_iff take_bit_nat_eq_self_iff)
    show ?thesis using assms(1) i
      by (auto simp: bit_bitrev bit_simps reverse_bits_def bit_horner_sum_bit_iff rev_nth)
  qed
  then show ?thesis unfolding reverse_index_def trailing_zeros_power s if_not_P [OF big] by (intro bit_eqI)
qed

section \<open>The permutation\<close>

lemma permute_loop_nth:
  fixes r :: "nat \<Rightarrow> nat"
  assumes "\<And>i. i < n \<Longrightarrow> reverse_index i n = r i" "\<And>i. i < n \<Longrightarrow> r i < n" "\<And>i. i < n \<Longrightarrow> r (r i) = i"
    and "length xs = n" "m \<le> n"
  shows "\<exists>ys. permute_loop [0..<m] xs = Some ys \<and> length ys = n \<and>
     (\<forall>i<n. ys ! i = xs ! (if i < m \<or> r i < m then r i else i))"
  using assms(5)
proof (induction m)
  case (Suc m)
  have app: "permute_loop (as @ bs) xs = Option.bind (permute_loop as xs) (permute_loop bs)" for as bs and xs :: "'a list"
    by (induction as arbitrary: xs) (auto simp: Let_def intro: bind_option_cong)
  obtain ys where ys: "permute_loop [0..<m] xs = Some ys" "length ys = n"
    "\<forall>i<n. ys ! i = xs ! (if i < m \<or> r i < m then r i else i)" using Suc by auto
  have m: "m < n" "r m < n" "r (r m) = m" using Suc.prems assms by auto
  show ?case
  proof (cases "m < r m")
    case True
    define zs where "zs = ys[m := ys ! r m, r m := ys ! m]"
    have "permute_loop [0..<Suc m] xs = Some zs"
      using ys m True assms(1) by (simp add: app Let_def slice_swap_def zs_def)
    moreover have "zs ! i = xs ! (if i < Suc m \<or> r i < Suc m then r i else i)" if i: "i < n" for i
    proof -
      consider "i = m" | "i = r m" "i \<noteq> m" | "i \<noteq> m" "i \<noteq> r m" by blast
      then show ?thesis
      proof cases
        case 3
        then have "r i \<noteq> m" using assms(3) [OF i] by auto
        then show ?thesis using 3 i ys(2,3) by (auto simp: zs_def less_Suc_eq)
      qed (use True m ys in \<open>auto simp: zs_def nth_list_update\<close>)
    qed
    ultimately show ?thesis using ys(2) by (auto simp: zs_def)
  next
    case False
    then have "permute_loop [0..<Suc m] xs = Some ys" using ys m assms(1) by (simp add: app Let_def)
    moreover have "ys ! i = xs ! (if i < Suc m \<or> r i < Suc m then r i else i)" if i: "i < n" for i
    proof -
      have "i = m \<or> r i = m \<Longrightarrow> (if i < m \<or> r i < m then r i else i) = r i"
        using False m assms(3) [OF i] by auto
      then show ?thesis using ys(3) i by (auto simp: less_Suc_eq)
    qed
    ultimately show ?thesis using ys(2) by blast
  qed
qed (use assms(4) in simp)

lemma bit_reverse_permute:
  assumes "length xs = 2 ^ k" "k \<le> 64"
  shows "in_place_bit_reverse_permute xs = Some (map (\<lambda>i. xs ! bitrev k i) [0..<2 ^ k])"
proof -
  have "\<exists>ys. permute_loop [0..<2 ^ k] xs = Some ys \<and> length ys = 2 ^ k \<and>
     (\<forall>i<2 ^ k. ys ! i = xs ! (if i < 2 ^ k \<or> bitrev k i < 2 ^ k then bitrev k i else i))"
    by (rule permute_loop_nth) (use assms in \<open>auto simp: reverse_index_power bitrev_less bitrev_bitrev\<close>)
  then obtain ys where ys: "permute_loop [0..<2 ^ k] xs = Some ys" "length ys = 2 ^ k"
    "\<forall>i<2 ^ k. ys ! i = xs ! bitrev k i" using bitrev_less by auto
  then have "ys = map (\<lambda>i. xs ! bitrev k i) [0..<2 ^ k]" by (intro nth_equalityI) auto
  then show ?thesis using ys(1) assms(1) by (simp add: in_place_bit_reverse_permute_def)
qed

end
