(* ===== verification/Fft_Bowers.thy ===== *)
theory Fft_Bowers
  imports Fft_Bits Field_Traits "HOL-Library.Monad_Syntax"
begin

text \<open>
  The Bowers FFT (\<^verbatim>\<open>crypto/math/src/fft/bowers_fft.rs\<close>).  Code that is generic over the trait of fields is
  modelled over the class \<open>field\<close>, which is what the contract \<open>field_impl\<close> gives; \<open>sm\<close> is the product of an
  element of the subfield of the twiddles with an element of the field of the data.  A panic is the value
  \<open>None\<close>; indexing the twiddles of a layer is checked once for the layer, since a layer reads the twiddles
  \<open>0 ..< half_block\<close> and no others.  A mutable slice is returned.
\<close>

section \<open>Twiddle tables\<close>

datatype FFTError = FftRootOfUnityError nat | InputError nat | OrderError nat | DomainSizeError nat
  | InvalidCosetOffset

record 'f fft_field =
  two_adicity :: nat
  two_adic_root :: 'f

definition primitive_root :: "'f::field fft_field \<Rightarrow> nat \<Rightarrow> (FieldError, 'f) result" where
  "primitive_root FF order =
     (if order = 0 then Inr 1
      else if two_adicity FF < order then Inl (RootOfUnityError (word_of_nat order))
      else Inr (((\<lambda>x. x * x) ^^ (two_adicity FF - order)) (two_adic_root FF)))"

record 'f LayerTwiddles =
  layers :: "'f list list"

definition MAX_FFT_ORDER :: nat where "MAX_FFT_ORDER = 63"

fun twiddle_loop :: "nat \<Rightarrow> 'f::field \<Rightarrow> 'f \<Rightarrow> 'f list" where
  "twiddle_loop 0 w_stride current = []"
| "twiddle_loop (Suc count) w_stride current = current # twiddle_loop count w_stride (current * w_stride)"

definition twiddles_build :: "nat \<Rightarrow> 'f::field \<Rightarrow> 'f LayerTwiddles option" where
  "twiddles_build order root =
     (if MAX_FFT_ORDER < order then None
      else Some \<lparr>layers = map (\<lambda>layer. twiddle_loop (2 ^ order div 2 ^ (layer + 1)) (root ^ (2 ^ layer)) 1) [0..<order]\<rparr>)"

definition twiddles_new :: "'f::field fft_field \<Rightarrow> nat \<Rightarrow> 'f LayerTwiddles option" where
  "twiddles_new FF order = (case primitive_root FF order of Inl _ \<Rightarrow> None | Inr root \<Rightarrow> twiddles_build order root)"

definition twiddles_new_inverse :: "'f::field fft_field \<Rightarrow> nat \<Rightarrow> 'f LayerTwiddles option" where
  "twiddles_new_inverse FF order = (case primitive_root FF order of
     Inl _ \<Rightarrow> None
   | Inr root \<Rightarrow> if root = 0 then None else twiddles_build order (inverse root))"

definition num_layers :: "'f LayerTwiddles \<Rightarrow> nat" where
  "num_layers lt = length (layers lt)"

definition get_layer :: "'f LayerTwiddles \<Rightarrow> nat \<Rightarrow> nat \<Rightarrow> 'f list option" where
  "get_layer lt layer count =
     (if layer < num_layers lt \<and> count \<le> length (layers lt ! layer) then Some (layers lt ! layer) else None)"

section \<open>Forward butterflies\<close>

definition process_fused_block :: "('f \<Rightarrow> 'e::field \<Rightarrow> 'e) \<Rightarrow> 'e list \<Rightarrow> 'f list \<Rightarrow> 'f list \<Rightarrow> 'e list" where
  "process_fused_block sm block twiddles_l0 twiddles_l1 =
     (let quarter = length block div 4
      in fold (\<lambda>j block.
           let i0 = j; i1 = j + quarter; i2 = j + 2 * quarter; i3 = j + 3 * quarter;
               w0 = twiddles_l0 ! j; w1 = twiddles_l0 ! (j + quarter);
               sum_02 = block ! i0 + block ! i2;
               diff_02_w = sm w0 (block ! i0 - block ! i2);
               sum_13 = block ! i1 + block ! i3;
               diff_13_w = sm w1 (block ! i1 - block ! i3);
               w2 = twiddles_l1 ! j;
               final_0 = sum_02 + sum_13;
               final_1 = sm w2 (sum_02 - sum_13);
               final_2 = diff_02_w + diff_13_w;
               final_3 = sm w2 (diff_02_w - diff_13_w)
           in block[i0 := final_0, i1 := final_1, i2 := final_2, i3 := final_3])
         [0..<quarter] block)"

definition process_triple_fused_block ::
    "('f \<Rightarrow> 'e::field \<Rightarrow> 'e) \<Rightarrow> 'e list \<Rightarrow> 'f list \<Rightarrow> 'f list \<Rightarrow> 'f list \<Rightarrow> 'e list" where
  "process_triple_fused_block sm block twiddles_l0 twiddles_l1 twiddles_l2 =
     (let eighth = length block div 8
      in fold (\<lambda>j block.
           let i0 = j; i1 = j + eighth; i2 = j + 2 * eighth; i3 = j + 3 * eighth;
               i4 = j + 4 * eighth; i5 = j + 5 * eighth; i6 = j + 6 * eighth; i7 = j + 7 * eighth;
               w0_0 = twiddles_l0 ! j; w0_1 = twiddles_l0 ! (j + eighth);
               w0_2 = twiddles_l0 ! (j + 2 * eighth); w0_3 = twiddles_l0 ! (j + 3 * eighth);
               s04 = block ! i0 + block ! i4; d04 = sm w0_0 (block ! i0 - block ! i4);
               s15 = block ! i1 + block ! i5; d15 = sm w0_1 (block ! i1 - block ! i5);
               s26 = block ! i2 + block ! i6; d26 = sm w0_2 (block ! i2 - block ! i6);
               s37 = block ! i3 + block ! i7; d37 = sm w0_3 (block ! i3 - block ! i7);
               w1_0 = twiddles_l1 ! j; w1_1 = twiddles_l1 ! (j + eighth);
               ss02 = s04 + s26; ds02 = sm w1_0 (s04 - s26);
               ss13 = s15 + s37; ds13 = sm w1_1 (s15 - s37);
               sd02 = d04 + d26; dd02 = sm w1_0 (d04 - d26);
               sd13 = d15 + d37; dd13 = sm w1_1 (d15 - d37);
               w2 = twiddles_l2 ! j
           in block[i0 := ss02 + ss13, i1 := sm w2 (ss02 - ss13), i2 := ds02 + ds13, i3 := sm w2 (ds02 - ds13),
                i4 := sd02 + sd13, i5 := sm w2 (sd02 - sd13), i6 := dd02 + dd13, i7 := sm w2 (dd02 - dd13)])
         [0..<eighth] block)"

definition process_single_layer_block :: "('f \<Rightarrow> 'e::field \<Rightarrow> 'e) \<Rightarrow> 'f list \<Rightarrow> nat \<Rightarrow> 'e list \<Rightarrow> 'e list" where
  "process_single_layer_block sm twiddles half_block block =
     fold (\<lambda>j block.
         let sum = block ! j + block ! (j + half_block);
             diff_w = sm (twiddles ! j) (block ! j - block ! (j + half_block))
         in block[j := sum, j + half_block := diff_w])
       [0..<half_block] block"

text \<open>
  A loop over consecutive blocks of a slice, sequential or parallel: each block is changed in place and
  no other element is.
\<close>

definition apply_blocks :: "nat \<Rightarrow> ('a list \<Rightarrow> 'a list) \<Rightarrow> 'a list \<Rightarrow> 'a list" where
  "apply_blocks block_size f input = concat (map f (chunks_of block_size input))"

definition step_by :: "nat \<Rightarrow> nat \<Rightarrow> nat list" where
  "step_by n block_size = map (\<lambda>k. k * block_size) [0..<(n + block_size - 1) div block_size]"

definition fft_layer_loop :: "('f \<Rightarrow> 'e::field \<Rightarrow> 'e) \<Rightarrow> nat \<Rightarrow> nat \<Rightarrow> nat \<Rightarrow> 'f list \<Rightarrow> 'e list \<Rightarrow> 'e list" where
  "fft_layer_loop sm n block_size half_block twiddles input =
     fold (\<lambda>block_start. fold (\<lambda>j input.
         let i0 = block_start + j; i1 = i0 + half_block;
             sum = input ! i0 + input ! i1;
             diff_w = sm (twiddles ! j) (input ! i0 - input ! i1)
         in input[i0 := sum, i1 := diff_w])
       [0..<half_block]) (step_by n block_size) input"

section \<open>Forward transforms\<close>

fun fft_small_layers :: "('f \<Rightarrow> 'e::field \<Rightarrow> 'e) \<Rightarrow> 'f LayerTwiddles \<Rightarrow> nat \<Rightarrow> nat list \<Rightarrow> 'e list \<Rightarrow> 'e list option" where
  "fft_small_layers sm lt n [] input = Some input"
| "fft_small_layers sm lt n (layer # ls) input =
     (let block_size = n div 2 ^ layer; half_block = block_size div 2
      in do {
           twiddles \<leftarrow> get_layer lt layer half_block;
           fft_small_layers sm lt n ls (fft_layer_loop sm n block_size half_block twiddles input)
         })"

function fft_pairs ::
    "('f \<Rightarrow> 'e::field \<Rightarrow> 'e) \<Rightarrow> 'f LayerTwiddles \<Rightarrow> nat \<Rightarrow> nat \<Rightarrow> nat \<Rightarrow> 'e list \<Rightarrow> (nat \<times> 'e list) option" where
  "fft_pairs sm lt n log_n layer input =
     (if layer + 1 < log_n then
        let block_size = n div 2 ^ layer
        in if 4 \<le> block_size then do {
             tw0 \<leftarrow> get_layer lt layer (block_size div 2);
             tw1 \<leftarrow> get_layer lt (layer + 1) (block_size div 4);
             fft_pairs sm lt n log_n (layer + 2)
               (apply_blocks block_size (\<lambda>block. process_fused_block sm block tw0 tw1) input)
           }
           else Some (layer, input)
      else Some (layer, input))"
  by pat_completeness auto
termination by (relation "measure (\<lambda>(sm, lt, n, log_n, layer, input). log_n - layer)") auto

definition bowers_fft_opt_fused ::
    "('f \<Rightarrow> 'e::field \<Rightarrow> 'e) \<Rightarrow> 'f LayerTwiddles \<Rightarrow> 'e list \<Rightarrow> (FFTError, 'e list) result option" where
  "bowers_fft_opt_fused sm lt input =
     (let n = length input; log_n = trailing_zeros n
      in if n \<noteq> 2 ^ log_n then Some (Inl (InputError n))
         else if n \<le> 1 then Some (Inr input)
         else if num_layers lt \<noteq> log_n then Some (Inl (InputError n))
         else if n \<le> 4 then map_option Inr (fft_small_layers sm lt n [0..<log_n] input)
         else do {
           (layer, input) \<leftarrow> fft_pairs sm lt n log_n 0 input;
           if layer < log_n then
             let block_size = n div 2 ^ layer; half_block = block_size div 2
             in do {
                  twiddles \<leftarrow> get_layer lt layer half_block;
                  Some (Inr (fft_layer_loop sm n block_size half_block twiddles input))
                }
           else Some (Inr input)
         })"

definition adaptive_parallel_threshold :: "nat \<Rightarrow> nat" where
  "adaptive_parallel_threshold num_threads = max (min (num_threads * 4) (2 ^ 64 - 1)) 16"

function fft_triples ::
    "('f \<Rightarrow> 'e::field \<Rightarrow> 'e) \<Rightarrow> 'f LayerTwiddles \<Rightarrow> nat \<Rightarrow> nat \<Rightarrow> nat \<Rightarrow> 'e list \<Rightarrow> (nat \<times> 'e list) option" where
  "fft_triples sm lt n log_n layer input =
     (if layer + 2 < log_n then
        let block_size = n div 2 ^ layer
        in do {
             tw0 \<leftarrow> get_layer lt layer (block_size div 2);
             tw1 \<leftarrow> get_layer lt (layer + 1) (block_size div 4);
             tw2 \<leftarrow> get_layer lt (layer + 2) (block_size div 8);
             fft_triples sm lt n log_n (layer + 3)
               (apply_blocks block_size (\<lambda>block. process_triple_fused_block sm block tw0 tw1 tw2) input)
           }
      else Some (layer, input))"
  by pat_completeness auto
termination by (relation "measure (\<lambda>(sm, lt, n, log_n, layer, input). log_n - layer)") auto

function fft_singles ::
    "('f \<Rightarrow> 'e::field \<Rightarrow> 'e) \<Rightarrow> 'f LayerTwiddles \<Rightarrow> nat \<Rightarrow> nat \<Rightarrow> nat \<Rightarrow> nat \<Rightarrow> 'e list \<Rightarrow> 'e list option" where
  "fft_singles sm lt parallel_threshold n log_n layer input =
     (if layer < log_n then
        let block_size = n div 2 ^ layer; half_block = block_size div 2; num_blocks = n div block_size
        in do {
             twiddles \<leftarrow> get_layer lt layer half_block;
             fft_singles sm lt parallel_threshold n log_n (layer + 1)
               (if parallel_threshold \<le> num_blocks
                then apply_blocks block_size (process_single_layer_block sm twiddles half_block) input
                else fft_layer_loop sm n block_size half_block twiddles input)
           }
      else Some input)"
  by pat_completeness auto
termination by (relation "measure (\<lambda>(sm, lt, parallel_threshold, n, log_n, layer, input). log_n - layer)") auto

definition bowers_fft_opt_fused_parallel ::
    "('f \<Rightarrow> 'e::field \<Rightarrow> 'e) \<Rightarrow> nat \<Rightarrow> 'f LayerTwiddles \<Rightarrow> 'e list \<Rightarrow> (FFTError, 'e list) result option" where
  "bowers_fft_opt_fused_parallel sm num_threads lt input =
     (let parallel_threshold = adaptive_parallel_threshold num_threads; n = length input; log_n = trailing_zeros n
      in if n \<noteq> 2 ^ log_n then Some (Inl (InputError n))
         else if n \<le> 1 then Some (Inr input)
         else if num_layers lt \<noteq> log_n then Some (Inl (InputError n))
         else if n \<le> 4 then bowers_fft_opt_fused sm lt input
         else do {
           (layer, input) \<leftarrow> fft_triples sm lt n log_n 0 input;
           (layer, input) \<leftarrow> fft_pairs sm lt n log_n layer input;
           input \<leftarrow> fft_singles sm lt parallel_threshold n log_n layer input;
           Some (Inr input)
         })"

section \<open>Inverse butterflies and transforms\<close>

definition process_ifft_fused_block :: "('f \<Rightarrow> 'e::field \<Rightarrow> 'e) \<Rightarrow> 'e list \<Rightarrow> 'f list \<Rightarrow> 'f list \<Rightarrow> 'e list" where
  "process_ifft_fused_block sm block twiddles_hi twiddles_lo =
     (let quarter = length block div 4
      in fold (\<lambda>j block.
           let i0 = j; i1 = j + quarter; i2 = j + 2 * quarter; i3 = j + 3 * quarter;
               w_hi = twiddles_hi ! j;
               bw0 = sm w_hi (block ! i1); a0 = block ! i0 + bw0; b0 = block ! i0 - bw0;
               bw1 = sm w_hi (block ! i3); a1 = block ! i2 + bw1; b1 = block ! i2 - bw1;
               w_lo_0 = twiddles_lo ! j; w_lo_1 = twiddles_lo ! (j + quarter);
               bw2 = sm w_lo_0 a1; bw3 = sm w_lo_1 b1
           in block[i0 := a0 + bw2, i1 := b0 + bw3, i2 := a0 - bw2, i3 := b0 - bw3])
         [0..<quarter] block)"

definition process_ifft_triple_fused_block ::
    "('f \<Rightarrow> 'e::field \<Rightarrow> 'e) \<Rightarrow> 'e list \<Rightarrow> 'f list \<Rightarrow> 'f list \<Rightarrow> 'f list \<Rightarrow> 'e list" where
  "process_ifft_triple_fused_block sm block twiddles_hi twiddles_mid twiddles_lo =
     (let eighth = length block div 8
      in fold (\<lambda>j block.
           let i0 = j; i1 = j + eighth; i2 = j + 2 * eighth; i3 = j + 3 * eighth;
               i4 = j + 4 * eighth; i5 = j + 5 * eighth; i6 = j + 6 * eighth; i7 = j + 7 * eighth;
               w_hi = twiddles_hi ! j;
               bw01 = sm w_hi (block ! i1); a01 = block ! i0 + bw01; b01 = block ! i0 - bw01;
               bw23 = sm w_hi (block ! i3); a23 = block ! i2 + bw23; b23 = block ! i2 - bw23;
               bw45 = sm w_hi (block ! i5); a45 = block ! i4 + bw45; b45 = block ! i4 - bw45;
               bw67 = sm w_hi (block ! i7); a67 = block ! i6 + bw67; b67 = block ! i6 - bw67;
               w_mid_0 = twiddles_mid ! j; w_mid_1 = twiddles_mid ! (j + eighth);
               bw_m0 = sm w_mid_0 a23; aa0 = a01 + bw_m0; ab0 = a01 - bw_m0;
               bw_m1 = sm w_mid_1 b23; ba0 = b01 + bw_m1; bb0 = b01 - bw_m1;
               bw_m2 = sm w_mid_0 a67; aa1 = a45 + bw_m2; ab1 = a45 - bw_m2;
               bw_m3 = sm w_mid_1 b67; ba1 = b45 + bw_m3; bb1 = b45 - bw_m3;
               w_lo_0 = twiddles_lo ! j; w_lo_1 = twiddles_lo ! (j + eighth);
               w_lo_2 = twiddles_lo ! (j + 2 * eighth); w_lo_3 = twiddles_lo ! (j + 3 * eighth);
               bw_l0 = sm w_lo_0 aa1; bw_l1 = sm w_lo_1 ba1; bw_l2 = sm w_lo_2 ab1; bw_l3 = sm w_lo_3 bb1
           in block[i0 := aa0 + bw_l0, i1 := ba0 + bw_l1, i2 := ab0 + bw_l2, i3 := bb0 + bw_l3,
                i4 := aa0 - bw_l0, i5 := ba0 - bw_l1, i6 := ab0 - bw_l2, i7 := bb0 - bw_l3])
         [0..<eighth] block)"

definition process_ifft_single_layer_block :: "('f \<Rightarrow> 'e::field \<Rightarrow> 'e) \<Rightarrow> 'f list \<Rightarrow> nat \<Rightarrow> 'e list \<Rightarrow> 'e list" where
  "process_ifft_single_layer_block sm twiddles half_block block =
     fold (\<lambda>j block.
         let bw = sm (twiddles ! j) (block ! (j + half_block));
             sum = block ! j + bw; diff = block ! j - bw
         in block[j := sum, j + half_block := diff])
       [0..<half_block] block"

definition ifft_layer_loop :: "('f \<Rightarrow> 'e::field \<Rightarrow> 'e) \<Rightarrow> nat \<Rightarrow> nat \<Rightarrow> nat \<Rightarrow> 'f list \<Rightarrow> 'e list \<Rightarrow> 'e list" where
  "ifft_layer_loop sm n block_size half_block twiddles input =
     fold (\<lambda>block_start. fold (\<lambda>j input.
         let i0 = block_start + j; i1 = i0 + half_block;
             bw = sm (twiddles ! j) (input ! i1);
             sum = input ! i0 + bw; diff = input ! i0 - bw
         in input[i0 := sum, i1 := diff])
       [0..<half_block]) (step_by n block_size) input"

fun ifft_small_layers :: "('f \<Rightarrow> 'e::field \<Rightarrow> 'e) \<Rightarrow> 'f LayerTwiddles \<Rightarrow> nat \<Rightarrow> nat list \<Rightarrow> 'e list \<Rightarrow> 'e list option" where
  "ifft_small_layers sm lt n [] input = Some input"
| "ifft_small_layers sm lt n (layer # ls) input =
     (let block_size = n div 2 ^ layer; half_block = block_size div 2
      in do {
           twiddles \<leftarrow> get_layer lt layer half_block;
           ifft_small_layers sm lt n ls (ifft_layer_loop sm n block_size half_block twiddles input)
         })"

function ifft_pairs ::
    "('f \<Rightarrow> 'e::field \<Rightarrow> 'e) \<Rightarrow> 'f LayerTwiddles \<Rightarrow> nat \<Rightarrow> nat \<Rightarrow> 'e list \<Rightarrow> (nat \<times> 'e list) option" where
  "ifft_pairs sm lt n layer input =
     (if 2 \<le> layer then
        let layer_hi = layer - 1; layer_lo = layer - 2; block_size = n div 2 ^ layer_lo
        in do {
             tw_hi \<leftarrow> get_layer lt layer_hi (block_size div 4);
             tw_lo \<leftarrow> get_layer lt layer_lo (block_size div 2);
             ifft_pairs sm lt n (layer - 2)
               (apply_blocks block_size (\<lambda>block. process_ifft_fused_block sm block tw_hi tw_lo) input)
           }
      else Some (layer, input))"
  by pat_completeness auto
termination by (relation "measure (\<lambda>(sm, lt, n, layer, input). layer)") auto

definition bowers_ifft_opt ::
    "('f \<Rightarrow> 'e::field \<Rightarrow> 'e) \<Rightarrow> 'f LayerTwiddles \<Rightarrow> 'e list \<Rightarrow> (FFTError, 'e list) result option" where
  "bowers_ifft_opt sm lt input =
     (let n = length input; log_n = trailing_zeros n
      in if n \<noteq> 2 ^ log_n then Some (Inl (InputError n))
         else if n \<le> 1 then Some (Inr input)
         else if num_layers lt \<noteq> log_n then Some (Inl (InputError n))
         else if n \<le> 4 then map_option Inr (ifft_small_layers sm lt n (rev [0..<log_n]) input)
         else do {
           (layer, input) \<leftarrow> ifft_pairs sm lt n log_n input;
           if 1 \<le> layer then
             let remaining_layer = layer - 1; block_size = n div 2 ^ remaining_layer; half_block = block_size div 2
             in do {
                  twiddles \<leftarrow> get_layer lt remaining_layer half_block;
                  Some (Inr (ifft_layer_loop sm n block_size half_block twiddles input))
                }
           else Some (Inr input)
         })"

function ifft_triples ::
    "('f \<Rightarrow> 'e::field \<Rightarrow> 'e) \<Rightarrow> 'f LayerTwiddles \<Rightarrow> nat \<Rightarrow> nat \<Rightarrow> 'e list \<Rightarrow> (nat \<times> 'e list) option" where
  "ifft_triples sm lt n layer input =
     (if 3 \<le> layer then
        let layer_hi = layer - 1; layer_mid = layer - 2; layer_lo = layer - 3; block_size = n div 2 ^ layer_lo
        in do {
             tw_hi \<leftarrow> get_layer lt layer_hi (block_size div 8);
             tw_mid \<leftarrow> get_layer lt layer_mid (block_size div 4);
             tw_lo \<leftarrow> get_layer lt layer_lo (block_size div 2);
             ifft_triples sm lt n (layer - 3)
               (apply_blocks block_size (\<lambda>block. process_ifft_triple_fused_block sm block tw_hi tw_mid tw_lo) input)
           }
      else Some (layer, input))"
  by pat_completeness auto
termination by (relation "measure (\<lambda>(sm, lt, n, layer, input). layer)") auto

definition bowers_ifft_opt_parallel ::
    "('f \<Rightarrow> 'e::field \<Rightarrow> 'e) \<Rightarrow> nat \<Rightarrow> 'f LayerTwiddles \<Rightarrow> 'e list \<Rightarrow> (FFTError, 'e list) result option" where
  "bowers_ifft_opt_parallel sm num_threads lt input =
     (let parallel_threshold = adaptive_parallel_threshold num_threads; n = length input; log_n = trailing_zeros n
      in if n \<noteq> 2 ^ log_n then Some (Inl (InputError n))
         else if n \<le> 1 then Some (Inr input)
         else if n \<le> 4 then bowers_ifft_opt sm lt input
         else if num_layers lt \<noteq> log_n then Some (Inl (InputError n))
         else do {
           (layer, input) \<leftarrow> ifft_triples sm lt n log_n input;
           (layer, input) \<leftarrow> ifft_pairs sm lt n layer input;
           if 1 \<le> layer then
             let remaining_layer = layer - 1; block_size = n div 2 ^ remaining_layer; half_block = block_size div 2;
                 num_blocks = n div block_size
             in do {
                  twiddles \<leftarrow> get_layer lt remaining_layer half_block;
                  Some (Inr (if parallel_threshold \<le> num_blocks
                    then apply_blocks block_size (process_ifft_single_layer_block sm twiddles half_block) input
                    else ifft_layer_loop sm n block_size half_block twiddles input))
                }
           else Some (Inr input)
         })"

declare fft_pairs.simps [simp del] fft_triples.simps [simp del] fft_singles.simps [simp del]
  ifft_pairs.simps [simp del] ifft_triples.simps [simp del]

end
