(* ===== verification/Fft_Layers.thy ===== *)
theory Fft_Layers
  imports Fft_Bowers
begin

text \<open>
  The drivers of the Bowers FFT, fused over two or three layers, sequential or parallel, all run the plain
  sequence of butterfly layers: the equivalence of the optimised loops of
  \<^verbatim>\<open>crypto/math/src/fft/bowers_fft.rs\<close> with a reference definition.
\<close>

section \<open>Loops over groups of elements\<close>

text \<open>
  A butterfly loop reads and writes groups of \<open>r\<close> elements at distance \<open>q\<close>: its \<open>j\<close>-th step replaces the elements
  \<open>j\<close>, \<open>j + q\<close>, \<open>j + 2 * q\<close>, ... by a function of their old values.
\<close>

fun write_at :: "nat \<Rightarrow> nat \<Rightarrow> nat \<Rightarrow> 'a list \<Rightarrow> 'a list \<Rightarrow> 'a list" where
  "write_at j q t [] xs = xs"
| "write_at j q t (v # vs) xs = write_at j q (Suc t) vs (xs[j + t * q := v])"

definition read_at :: "nat \<Rightarrow> nat \<Rightarrow> nat \<Rightarrow> 'a list \<Rightarrow> 'a list" where
  "read_at r j q xs = map (\<lambda>t. xs ! (j + t * q)) [0..<r]"

definition regroup :: "nat \<Rightarrow> nat \<Rightarrow> (nat \<Rightarrow> 'a list \<Rightarrow> 'a list) \<Rightarrow> 'a list \<Rightarrow> 'a list" where
  "regroup r q op xs = map (\<lambda>i. op (i mod q) (read_at r (i mod q) q xs) ! (i div q)) [0..<r * q]"

lemma length_write_at [simp]: "length (write_at j q t vs xs) = length xs"
  by (induction vs arbitrary: t xs) auto

lemma nth_write_at:
  "j < q \<Longrightarrow> i < length xs \<Longrightarrow> write_at j q t vs xs ! i =
     (if i mod q = j \<and> t \<le> i div q \<and> i div q < t + length vs then vs ! (i div q - t) else xs ! i)"
proof (induction vs arbitrary: t xs)
  case (Cons v vs)
  have pos: "i = j + t * q \<longleftrightarrow> i mod q = j \<and> i div q = t"
    using Cons.prems(1) by (metis add.commute div_mult_self1 mod_div_mult_eq mod_less mod_mult_self1 nat_neq_iff add_0 div_less not_less0)
  show ?case
    using Cons.IH [of "xs[j + t * q := v]" "Suc t"] Cons.prems pos
    by (cases "i div q = t") (auto simp: nth_list_update Suc_le_eq nth_Cons' not_le)
qed auto

lemma group_fold_prefix:
  assumes "length xs = r * q" "m \<le> q"
    and "\<And>j ys. j < q \<Longrightarrow> length ys = r * q \<Longrightarrow> f j ys = write_at j q 0 (op j (read_at r j q ys)) ys"
    and "\<And>j vs. length (op j vs) = r"
  shows "length (fold f [0..<m] xs) = r * q \<and>
    (\<forall>i<r * q. fold f [0..<m] xs ! i =
      (if i mod q < m then op (i mod q) (read_at r (i mod q) q xs) ! (i div q) else xs ! i))"
  using assms(2)
proof (induction m)
  case (Suc m)
  define ys where "ys = fold f [0..<m] xs"
  have ys: "length ys = r * q" "\<And>i. i < r * q \<Longrightarrow> ys ! i =
      (if i mod q < m then op (i mod q) (read_at r (i mod q) q xs) ! (i div q) else xs ! i)"
    using Suc by (auto simp: ys_def)
  have m: "m < q" using Suc.prems by simp
  have rd: "read_at r m q ys = read_at r m q xs"
  proof -
    have "m + t * q < r * q" if "t < r" for t
    proof -
      have "m + t * q < Suc t * q" using m by simp
      also have "\<dots> \<le> r * q" using that by (intro mult_right_mono) auto
      finally show ?thesis .
    qed
    then show ?thesis using m by (auto simp: read_at_def ys(2))
  qed
  have f: "fold f [0..<Suc m] xs = write_at m q 0 (op m (read_at r m q xs)) ys"
    using assms(3) [OF m ys(1)] rd by (simp add: ys_def [symmetric])
  have "write_at m q 0 (op m (read_at r m q xs)) ys ! i =
      (if i mod q < Suc m then op (i mod q) (read_at r (i mod q) q xs) ! (i div q) else xs ! i)" if i: "i < r * q" for i
  proof -
    have "i div q < r" using i by (simp add: less_mult_imp_div_less)
    then show ?thesis using nth_write_at [OF m, of i ys] i ys assms(4) by (auto simp: less_Suc_eq)
  qed
  then show ?case using f ys(1) by simp
qed (use assms(1) in simp)

lemma group_fold:
  assumes "length xs = r * q"
    and "\<And>j ys. j < q \<Longrightarrow> length ys = r * q \<Longrightarrow> f j ys = write_at j q 0 (op j (read_at r j q ys)) ys"
    and "\<And>j vs. length (op j vs) = r"
  shows "fold f [0..<q] xs = regroup r q op xs"
proof (rule nth_equalityI)
  have g: "length (fold f [0..<q] xs) = r * q"
    "\<And>i. i < r * q \<Longrightarrow> fold f [0..<q] xs ! i = (if i mod q < q then op (i mod q) (read_at r (i mod q) q xs) ! (i div q) else xs ! i)"
    using group_fold_prefix [of xs r q q f op, OF assms(1) order_refl assms(2,3)] by auto
  show "length (fold f [0..<q] xs) = length (regroup r q op xs)" using g(1) by (simp add: regroup_def)
  fix i assume "i < length (fold f [0..<q] xs)"
  then have i: "i < r * q" using g(1) by simp
  then have "0 < q" by (cases q) auto
  then show "fold f [0..<q] xs ! i = regroup r q op xs ! i" using g(2) [OF i] i by (simp add: regroup_def)
qed

lemma length_regroup [simp]: "length (regroup r q op xs) = r * q"
  by (simp add: regroup_def)

lemma nth_regroup: "j < q \<Longrightarrow> t < r \<Longrightarrow> regroup r q op xs ! (j + t * q) = op j (read_at r j q xs) ! t"
proof -
  assume j: "j < q" and t: "t < r"
  have "j + t * q < Suc t * q" using j by simp
  also have "\<dots> \<le> r * q" using t by (intro mult_right_mono) auto
  finally show ?thesis using j by (simp add: regroup_def)
qed

lemma regroup_eqI:
  assumes "length ys = r * q" "\<And>j t. j < q \<Longrightarrow> t < r \<Longrightarrow> ys ! (j + t * q) = op j (read_at r j q xs) ! t"
  shows "regroup r q op xs = ys"
proof (rule nth_equalityI)
  fix i assume "i < length (regroup r q op xs)"
  then have i: "i < r * q" by simp
  then have "0 < q" by (cases q) auto
  then have "i mod q < q" "i div q < r" "i = i mod q + (i div q) * q"
    using i by (simp_all add: less_mult_imp_div_less)
  then show "regroup r q op xs ! i = ys ! i" using nth_regroup assms(2) by metis
qed (use assms(1) in simp)

lemma read_at_simps:
  "read_at 2 j q xs = [xs ! j, xs ! (j + q)]"
  "read_at 4 j q xs = [xs ! j, xs ! (j + q), xs ! (j + 2 * q), xs ! (j + 3 * q)]"
  "read_at 8 j q xs = [xs ! j, xs ! (j + q), xs ! (j + 2 * q), xs ! (j + 3 * q),
     xs ! (j + 4 * q), xs ! (j + 5 * q), xs ! (j + 6 * q), xs ! (j + 7 * q)]"
  by (simp_all add: read_at_def upt_rec numeral_eq_Suc)

section \<open>Blocks\<close>

lemma apply_blocks_Nil [simp]: "apply_blocks s f [] = []"
  by (simp add: apply_blocks_def chunks_of.simps)

lemma apply_blocks_Cons:
  "length bs = s \<Longrightarrow> 0 < s \<Longrightarrow> apply_blocks s f (bs @ ys) = f bs @ apply_blocks s f ys"
  by (subst (1) apply_blocks_def, subst chunks_of.simps) (auto simp: apply_blocks_def)

lemma blocks_induct [consumes 2, case_names Nil Cons]:
  assumes "length xs = m * s" "0 < s" "P []"
    and "\<And>bs ys. length bs = s \<Longrightarrow> s dvd length ys \<Longrightarrow> P ys \<Longrightarrow> P (bs @ ys)"
  shows "P xs"
  using assms(1)
proof (induction m arbitrary: xs)
  case (Suc m)
  then have "P (drop s xs)" "length (take s xs) = s" by simp_all
  then show ?case using assms(4) [of "take s xs" "drop s xs"] Suc.prems by simp
qed (use assms(3) in simp)

lemma apply_blocks_append:
  assumes "length xs = m * s" "0 < s"
  shows "apply_blocks s f (xs @ ys) = apply_blocks s f xs @ apply_blocks s f ys"
  using assms(1,2)
proof (induction rule: blocks_induct)
  case (Cons bs zs)
  then show ?case using assms(2) by (simp add: apply_blocks_Cons)
qed simp

lemma apply_blocks_cong:
  assumes "length xs = m * s" "0 < s" "\<And>bs. length bs = s \<Longrightarrow> f bs = g bs"
  shows "apply_blocks s f xs = apply_blocks s g xs"
  using assms(1,2)
proof (induction rule: blocks_induct)
  case (Cons bs zs)
  then show ?case using assms(2,3) by (simp add: apply_blocks_Cons)
qed simp

lemma length_apply_blocks:
  assumes "length xs = m * s" "0 < s" "\<And>bs. length bs = s \<Longrightarrow> length (f bs) = s"
  shows "length (apply_blocks s f xs) = length xs"
  using assms(1,2)
proof (induction rule: blocks_induct)
  case (Cons bs zs)
  then show ?case using assms(2,3) by (simp add: apply_blocks_Cons)
qed simp

lemma apply_blocks_compose:
  assumes "length xs = m * s" "s = d * u" "0 < s" "\<And>bs. length bs = s \<Longrightarrow> length (f bs) = s"
  shows "apply_blocks u g (apply_blocks s f xs) = apply_blocks s (\<lambda>bs. apply_blocks u g (f bs)) xs"
  using assms(1,3)
proof (induction rule: blocks_induct)
  case (Cons bs zs)
  have "length (f bs) = d * u" "0 < u" using Cons(1) assms(2-4) by auto
  then show ?case using Cons assms(3) by (simp add: apply_blocks_Cons apply_blocks_append)
qed simp

text \<open>The loops with explicit indices into the whole slice are the loops over its blocks.\<close>

lemma fold_window:
  assumes "\<And>j bs. j \<in> set js \<Longrightarrow> length bs = s \<Longrightarrow> g j (as @ bs @ cs) = as @ f j bs @ cs \<and> length (f j bs) = s"
    and "length bs = s"
  shows "fold g js (as @ bs @ cs) = as @ fold f js bs @ cs \<and> length (fold f js bs) = s"
  using assms
proof (induction js arbitrary: bs)
  case (Cons j js)
  then have "g j (as @ bs @ cs) = as @ f j bs @ cs" "length (f j bs) = s" by simp_all
  then show ?case using Cons.IH [of "f j bs"] Cons.prems(1) by simp
qed simp

lemma fold_blocks:
  assumes "\<And>as bs cs. length bs = s \<Longrightarrow> g (length as) (as @ bs @ cs) = as @ f bs @ cs \<and> length (f bs) = s"
    and "0 < s" "length ys = m * s" "length as = a * s"
  shows "fold g (map (\<lambda>k. k * s) [a..<a + m]) (as @ ys) = as @ apply_blocks s f ys"
  using assms(3,4)
proof (induction m arbitrary: a as ys)
  case (Suc m)
  define bs zs where "bs = take s ys" and "zs = drop s ys"
  have ys: "ys = bs @ zs" "length bs = s" "length zs = m * s" using Suc.prems by (simp_all add: bs_def zs_def)
  have up: "[a..<a + Suc m] = a # [Suc a..<Suc a + m]" by (simp add: upt_conv_Cons)
  have "g (a * s) (as @ bs @ zs) = (as @ f bs) @ zs" "length (as @ f bs) = Suc a * s"
    using assms(1) [of bs as zs] ys(2) Suc.prems(2) by simp_all
  then have "fold g (map (\<lambda>k. k * s) [a..<a + Suc m]) (as @ ys) = (as @ f bs) @ apply_blocks s f zs"
    unfolding up ys(1) using Suc.IH [of zs "as @ f bs" "Suc a"] ys(3) by simp
  then show ?case using ys assms(2) by (simp add: apply_blocks_Cons)
qed simp

lemma layer_loop_blocks:
  assumes "\<And>b j xs. G b j xs = (let p = op j (xs ! (b + j)) (xs ! (b + j + h)) in xs[b + j := fst p, b + j + h := snd p])"
    and "0 < h" "length xs = m * (2 * h)"
  shows "fold (\<lambda>b. fold (G b) [0..<h]) (step_by (length xs) (2 * h)) xs = apply_blocks (2 * h) (fold (G 0) [0..<h]) xs"
proof -
  have "G (length as) j (as @ bs @ cs) = as @ G 0 j bs @ cs \<and> length (G 0 j bs) = 2 * h"
    if "j \<in> set [0..<h]" "length bs = 2 * h" for as bs cs j
    using that by (simp add: assms(1) Let_def nth_append list_update_append)
  then have w: "fold (G (length as)) [0..<h] (as @ bs @ cs) = as @ fold (G 0) [0..<h] bs @ cs \<and> length (fold (G 0) [0..<h] bs) = 2 * h"
    if "length bs = 2 * h" for as bs cs
    using fold_window [of "[0..<h]" "2 * h" "G (length as)" as cs "G 0" bs] that by blast
  have "(m * (2 * h) + 2 * h - 1) div (2 * h) = m"
  proof -
    have "m * (2 * h) + 2 * h - 1 = (2 * h - 1) + m * (2 * h)" using assms(2) by simp
    then show ?thesis using assms(2) by (simp only: div_mult_self1) simp
  qed
  then show ?thesis
    using fold_blocks [of "2 * h" "\<lambda>b. fold (G b) [0..<h]" "fold (G 0) [0..<h]" xs m "[]" 0] w assms(2,3)
    by (simp add: step_by_def)
qed

section \<open>The transforms as sequences of layers\<close>

definition dif_block :: "('f \<Rightarrow> 'e::field \<Rightarrow> 'e) \<Rightarrow> 'f list \<Rightarrow> 'e list \<Rightarrow> 'e list" where
  "dif_block sm tw xs =
     (let h = length xs div 2
      in map (\<lambda>j. xs ! j + xs ! (j + h)) [0..<h] @ map (\<lambda>j. sm (tw ! j) (xs ! j - xs ! (j + h))) [0..<h])"

fun dif_layers :: "('f \<Rightarrow> 'e::field \<Rightarrow> 'e) \<Rightarrow> 'f list list \<Rightarrow> 'e list \<Rightarrow> 'e list" where
  "dif_layers sm [] xs = xs"
| "dif_layers sm (tw # tws) xs = dif_layers sm tws (apply_blocks (2 ^ Suc (length tws)) (dif_block sm tw) xs)"

definition dit_block :: "('f \<Rightarrow> 'e::field \<Rightarrow> 'e) \<Rightarrow> 'f list \<Rightarrow> 'e list \<Rightarrow> 'e list" where
  "dit_block sm tw xs =
     (let h = length xs div 2
      in map (\<lambda>j. xs ! j + sm (tw ! j) (xs ! (j + h))) [0..<h] @ map (\<lambda>j. xs ! j - sm (tw ! j) (xs ! (j + h))) [0..<h])"

fun dit_layers :: "('f \<Rightarrow> 'e::field \<Rightarrow> 'e) \<Rightarrow> 'f list list \<Rightarrow> 'e list \<Rightarrow> 'e list" where
  "dit_layers sm [] xs = xs"
| "dit_layers sm (tw # tws) xs = apply_blocks (2 ^ Suc (length tws)) (dit_block sm tw) (dit_layers sm tws xs)"

lemma length_dif_block: "even (length xs) \<Longrightarrow> length (dif_block sm tw xs) = length xs"
  by (auto simp: dif_block_def Let_def)

lemma length_dit_block: "even (length xs) \<Longrightarrow> length (dit_block sm tw xs) = length xs"
  by (auto simp: dit_block_def Let_def)

lemma less_2_cases_nat: "t < (2 :: nat) \<Longrightarrow> t = 0 \<or> t = 1"
  by auto

lemma less_4_cases: "t < (4 :: nat) \<Longrightarrow> t = 0 \<or> t = 1 \<or> t = 2 \<or> t = 3"
  by auto

lemma less_8_cases: "t < (8 :: nat) \<Longrightarrow> t = 0 \<or> t = 1 \<or> t = 2 \<or> t = 3 \<or> t = 4 \<or> t = 5 \<or> t = 6 \<or> t = 7"
  by auto

lemma write_at_simps:
  "write_at j q 0 [a, b] xs = xs[j := a, j + q := b]"
  "write_at j q 0 [a, b, c, d] xs = xs[j := a, j + q := b, j + 2 * q := c, j + 3 * q := d]"
  "write_at j q 0 [a, b, c, d, e, f, g, h] xs =
     xs[j := a, j + q := b, j + 2 * q := c, j + 3 * q := d, j + 4 * q := e, j + 5 * q := f, j + 6 * q := g, j + 7 * q := h]"
  by (simp_all add: numeral_eq_Suc)

lemmas group_ops = Let_def read_at_simps write_at_simps

lemma dif_block_regroup:
  assumes "length xs = 2 * h"
  shows "dif_block sm tw xs = regroup 2 h (\<lambda>j v. [v ! 0 + v ! 1, sm (tw ! j) (v ! 0 - v ! 1)]) xs"
  by (rule regroup_eqI [symmetric])
    (use assms in \<open>auto simp: dif_block_def Let_def read_at_simps nth_append dest!: less_2_cases_nat\<close>)

lemma dit_block_regroup:
  assumes "length xs = 2 * h"
  shows "dit_block sm tw xs = regroup 2 h (\<lambda>j v. [v ! 0 + sm (tw ! j) (v ! 1), v ! 0 - sm (tw ! j) (v ! 1)]) xs"
  by (rule regroup_eqI [symmetric])
    (use assms in \<open>auto simp: dit_block_def Let_def read_at_simps nth_append dest!: less_2_cases_nat\<close>)

lemma single_block_dif:
  assumes "length xs = 2 * h"
  shows "process_single_layer_block sm tw h xs = dif_block sm tw xs"
  unfolding dif_block_regroup [OF assms] process_single_layer_block_def
  by (rule group_fold) (simp_all add: assms Let_def read_at_simps)

lemma single_block_dit:
  assumes "length xs = 2 * h"
  shows "process_ifft_single_layer_block sm tw h xs = dit_block sm tw xs"
  unfolding dit_block_regroup [OF assms] process_ifft_single_layer_block_def
  by (rule group_fold) (simp_all add: assms Let_def read_at_simps)

lemma fft_layer_loop_blocks:
  assumes "length xs = m * (2 * h)" "0 < h"
  shows "fft_layer_loop sm (length xs) (2 * h) h tw xs = apply_blocks (2 * h) (dif_block sm tw) xs"
proof -
  have "fft_layer_loop sm (length xs) (2 * h) h tw xs = apply_blocks (2 * h) (process_single_layer_block sm tw h) xs"
    unfolding fft_layer_loop_def process_single_layer_block_def
    using layer_loop_blocks [of "\<lambda>b j xs. let i0 = b + j; i1 = i0 + h; sum = xs ! i0 + xs ! i1;
        diff_w = sm (tw ! j) (xs ! i0 - xs ! i1) in xs[i0 := sum, i1 := diff_w]"
        "\<lambda>j a b. (a + b, sm (tw ! j) (a - b))" h xs m] assms by (simp add: Let_def)
  also have "\<dots> = apply_blocks (2 * h) (dif_block sm tw) xs"
    by (rule apply_blocks_cong [OF assms(1)]) (use assms(2) in \<open>simp_all add: single_block_dif\<close>)
  finally show ?thesis .
qed

lemma ifft_layer_loop_blocks:
  assumes "length xs = m * (2 * h)" "0 < h"
  shows "ifft_layer_loop sm (length xs) (2 * h) h tw xs = apply_blocks (2 * h) (dit_block sm tw) xs"
proof -
  have "ifft_layer_loop sm (length xs) (2 * h) h tw xs = apply_blocks (2 * h) (process_ifft_single_layer_block sm tw h) xs"
    unfolding ifft_layer_loop_def process_ifft_single_layer_block_def
    using layer_loop_blocks [of "\<lambda>b j xs. let i0 = b + j; i1 = i0 + h; bw = sm (tw ! j) (xs ! i1);
        sum = xs ! i0 + bw; diff = xs ! i0 - bw in xs[i0 := sum, i1 := diff]"
        "\<lambda>j a b. (a + sm (tw ! j) b, a - sm (tw ! j) b)" h xs m] assms by (simp add: Let_def)
  also have "\<dots> = apply_blocks (2 * h) (dit_block sm tw) xs"
    by (rule apply_blocks_cong [OF assms(1)]) (use assms(2) in \<open>simp_all add: single_block_dit\<close>)
  finally show ?thesis .
qed

lemma apply_blocks_two:
  "length xs = h \<Longrightarrow> length ys = h \<Longrightarrow> 0 < h \<Longrightarrow> apply_blocks h f (xs @ ys) = f xs @ f ys"
  using apply_blocks_Cons [of ys h f "[]"] by (simp add: apply_blocks_Cons)

lemma nth_dif_block:
  assumes "length xs = 2 * h" "j < h"
  shows "dif_block sm tw xs ! j = xs ! j + xs ! (j + h)"
    "dif_block sm tw xs ! (j + h) = sm (tw ! j) (xs ! j - xs ! (j + h))"
  using assms by (auto simp: dif_block_def Let_def nth_append)

lemma nth_dit_append:
  assumes "length us = h" "length vs = h" "j < h"
  shows "dit_block sm tw (us @ vs) ! j = us ! j + sm (tw ! j) (vs ! j)"
    "dit_block sm tw (us @ vs) ! (j + h) = us ! j - sm (tw ! j) (vs ! j)"
  using assms by (auto simp: dit_block_def Let_def nth_append)

definition fused_op :: "('f \<Rightarrow> 'e::field \<Rightarrow> 'e) \<Rightarrow> 'f list \<Rightarrow> 'f list \<Rightarrow> nat \<Rightarrow> nat \<Rightarrow> 'e list \<Rightarrow> 'e list" where
  "fused_op sm tw0 tw1 q j v =
     (let s02 = v ! 0 + v ! 2; d02 = sm (tw0 ! j) (v ! 0 - v ! 2);
          s13 = v ! 1 + v ! 3; d13 = sm (tw0 ! (j + q)) (v ! 1 - v ! 3)
      in [s02 + s13, sm (tw1 ! j) (s02 - s13), d02 + d13, sm (tw1 ! j) (d02 - d13)])"

lemma fused_block_regroup:
  assumes "length xs = 4 * q"
  shows "process_fused_block sm xs tw0 tw1 = regroup 4 q (fused_op sm tw0 tw1 q) xs"
  unfolding process_fused_block_def Let_def
  using assms by simp (rule group_fold; simp add: fused_op_def group_ops del: write_at.simps)

definition dif_lo :: "nat \<Rightarrow> 'e::field list \<Rightarrow> 'e list" where
  "dif_lo h xs = map (\<lambda>j. xs ! j + xs ! (j + h)) [0..<h]"

definition dif_hi :: "('f \<Rightarrow> 'e::field \<Rightarrow> 'e) \<Rightarrow> 'f list \<Rightarrow> nat \<Rightarrow> 'e list \<Rightarrow> 'e list" where
  "dif_hi sm tw h xs = map (\<lambda>j. sm (tw ! j) (xs ! j - xs ! (j + h))) [0..<h]"

lemma length_dif_halves [simp]: "length (dif_lo h xs) = h" "length (dif_hi sm tw h xs) = h"
  by (simp_all add: dif_lo_def dif_hi_def)

lemma dif_block_halves: "length xs = 2 * h \<Longrightarrow> dif_block sm tw xs = dif_lo h xs @ dif_hi sm tw h xs"
  by (simp add: dif_block_def dif_lo_def dif_hi_def Let_def)

lemma nth_dif_halves:
  "i < h \<Longrightarrow> dif_lo h xs ! i = xs ! i + xs ! (i + h)" "i < h \<Longrightarrow> dif_hi sm tw h xs ! i = sm (tw ! i) (xs ! i - xs ! (i + h))"
  by (simp_all add: dif_lo_def dif_hi_def)

lemma apply_halves:
  "length xs = 2 * h \<Longrightarrow> 0 < h \<Longrightarrow> apply_blocks h f (dif_block sm tw xs) = f (dif_lo h xs) @ f (dif_hi sm tw h xs)"
  by (simp add: dif_block_halves apply_blocks_two)

lemma fused_block_dif:
  assumes "length xs = 4 * q" "0 < q"
  shows "process_fused_block sm xs tw0 tw1 = apply_blocks (2 * q) (dif_block sm tw1) (dif_block sm tw0 xs)"
proof -
  let ?lo = "dif_lo (2 * q) xs" and ?hi = "dif_hi sm tw0 (2 * q) xs"
  have halves: "apply_blocks (2 * q) (dif_block sm tw1) (dif_block sm tw0 xs) = dif_block sm tw1 ?lo @ dif_block sm tw1 ?hi"
    by (rule apply_halves) (use assms in auto)
  have len: "length (dif_block sm tw1 ?lo) = 2 * q" "length (dif_block sm tw1 ?hi) = 2 * q"
    by (simp_all add: length_dif_block)
  show ?thesis unfolding halves fused_block_regroup [OF assms(1)]
  proof (rule regroup_eqI)
    fix j t assume j: "j < q" and t: "t < (4 :: nat)"
    have e: "j + q + 2 * q = j + 3 * q" by simp
    have nth: "dif_block sm tw1 ?lo ! j = (xs ! j + xs ! (j + 2 * q)) + (xs ! (j + q) + xs ! (j + 3 * q))"
      "dif_block sm tw1 ?lo ! (j + q) = sm (tw1 ! j) ((xs ! j + xs ! (j + 2 * q)) - (xs ! (j + q) + xs ! (j + 3 * q)))"
      "dif_block sm tw1 ?hi ! j = sm (tw0 ! j) (xs ! j - xs ! (j + 2 * q)) + sm (tw0 ! (j + q)) (xs ! (j + q) - xs ! (j + 3 * q))"
      "dif_block sm tw1 ?hi ! (j + q) = sm (tw1 ! j)
         (sm (tw0 ! j) (xs ! j - xs ! (j + 2 * q)) - sm (tw0 ! (j + q)) (xs ! (j + q) - xs ! (j + 3 * q)))"
      using j nth_dif_block [of ?lo q j sm tw1] nth_dif_block [of ?hi q j sm tw1] by (simp_all add: nth_dif_halves e)
    from less_4_cases [OF t] show "(dif_block sm tw1 ?lo @ dif_block sm tw1 ?hi) ! (j + t * q) = fused_op sm tw0 tw1 q j (read_at 4 j q xs) ! t"
      by (elim disjE) (use j in \<open>simp_all add: nth_append len nth fused_op_def read_at_simps Let_def add.commute [of q j]\<close>)
  qed (simp add: len)
qed

lemma triple_block_dif:
  assumes "length xs = 8 * q" "0 < q"
  shows "process_triple_fused_block sm xs tw0 tw1 tw2 =
    apply_blocks (4 * q) (\<lambda>b. process_fused_block sm b tw1 tw2) (dif_block sm tw0 xs)"
proof -
  let ?lo = "dif_lo (4 * q) xs" and ?hi = "dif_hi sm tw0 (4 * q) xs"
  define op where "op j v =
    fused_op sm tw1 tw2 q j [v ! 0 + v ! 4, v ! 1 + v ! 5, v ! 2 + v ! 6, v ! 3 + v ! 7] @
    fused_op sm tw1 tw2 q j [sm (tw0 ! j) (v ! 0 - v ! 4), sm (tw0 ! (j + q)) (v ! 1 - v ! 5),
      sm (tw0 ! (j + 2 * q)) (v ! 2 - v ! 6), sm (tw0 ! (j + 3 * q)) (v ! 3 - v ! 7)]" for j v
  have "process_triple_fused_block sm xs tw0 tw1 tw2 = regroup 8 q op xs"
    unfolding process_triple_fused_block_def Let_def
    using assms by simp (rule group_fold; simp add: op_def fused_op_def group_ops del: write_at.simps)
  also have "\<dots> = regroup 4 q (fused_op sm tw1 tw2 q) ?lo @ regroup 4 q (fused_op sm tw1 tw2 q) ?hi"
  proof (rule regroup_eqI)
    fix j t assume j: "j < q" and t: "t < (8 :: nat)"
    have e: "j + q + 4 * q = j + 5 * q" "j + 2 * q + 4 * q = j + 6 * q" "j + 3 * q + 4 * q = j + 7 * q" by simp_all
    have rd: "read_at 4 j q ?lo = [xs ! j + xs ! (j + 4 * q), xs ! (j + q) + xs ! (j + 5 * q),
        xs ! (j + 2 * q) + xs ! (j + 6 * q), xs ! (j + 3 * q) + xs ! (j + 7 * q)]"
      "read_at 4 j q ?hi = [sm (tw0 ! j) (xs ! j - xs ! (j + 4 * q)), sm (tw0 ! (j + q)) (xs ! (j + q) - xs ! (j + 5 * q)),
        sm (tw0 ! (j + 2 * q)) (xs ! (j + 2 * q) - xs ! (j + 6 * q)), sm (tw0 ! (j + 3 * q)) (xs ! (j + 3 * q) - xs ! (j + 7 * q))]"
      using j by (simp_all add: read_at_simps nth_dif_halves e)
    have len: "length (fused_op sm tw1 tw2 q j v) = 4" for v by (simp add: fused_op_def Let_def)
    show "(regroup 4 q (fused_op sm tw1 tw2 q) ?lo @ regroup 4 q (fused_op sm tw1 tw2 q) ?hi) ! (j + t * q)
        = op j (read_at 8 j q xs) ! t"
    proof (cases "t < 4")
      case True
      have "j + t * q < 4 * q"
      proof -
        have "j + t * q < Suc t * q" using j by simp
        also have "\<dots> \<le> 4 * q" using True by (intro mult_right_mono) auto
        finally show ?thesis .
      qed
      then show ?thesis using nth_regroup [OF j True, of "fused_op sm tw1 tw2 q" ?lo] True
        by (simp add: nth_append op_def read_at_simps(3) rd len)
    next
      case False
      then obtain s where s: "t = 4 + s" by (metis le_Suc_ex not_less)
      then have "s < 4" using t by simp
      have "j + t * q - 4 * q = j + s * q" "\<not> j + t * q < 4 * q" by (simp_all add: s algebra_simps)
      then show ?thesis using nth_regroup [OF j \<open>s < 4\<close>, of "fused_op sm tw1 tw2 q" ?hi] s
        by (simp add: nth_append op_def read_at_simps(3) rd len)
    qed
  qed simp
  also have "\<dots> = apply_blocks (4 * q) (\<lambda>b. process_fused_block sm b tw1 tw2) (dif_block sm tw0 xs)"
    using assms apply_halves [of xs "4 * q" "\<lambda>b. process_fused_block sm b tw1 tw2" sm tw0] by (simp add: fused_block_regroup)
  finally show ?thesis .
qed

definition fused_inv_op :: "('f \<Rightarrow> 'e::field \<Rightarrow> 'e) \<Rightarrow> 'f list \<Rightarrow> 'f list \<Rightarrow> nat \<Rightarrow> nat \<Rightarrow> 'e list \<Rightarrow> 'e list" where
  "fused_inv_op sm tw_hi tw_lo q j v =
     (let a0 = v ! 0 + sm (tw_hi ! j) (v ! 1); b0 = v ! 0 - sm (tw_hi ! j) (v ! 1);
          a1 = v ! 2 + sm (tw_hi ! j) (v ! 3); b1 = v ! 2 - sm (tw_hi ! j) (v ! 3)
      in [a0 + sm (tw_lo ! j) a1, b0 + sm (tw_lo ! (j + q)) b1, a0 - sm (tw_lo ! j) a1, b0 - sm (tw_lo ! (j + q)) b1])"

lemma fused_inv_regroup:
  assumes "length xs = 4 * q"
  shows "process_ifft_fused_block sm xs tw_hi tw_lo = regroup 4 q (fused_inv_op sm tw_hi tw_lo q) xs"
  unfolding process_ifft_fused_block_def Let_def
  using assms by simp (rule group_fold; simp add: fused_inv_op_def group_ops del: write_at.simps)

lemma split_even:
  assumes "length xs = 2 * h"
  obtains us vs where "xs = us @ vs" "length us = h" "length vs = h"
  using assms by (intro that [of "take h xs" "drop h xs"]) auto

lemma nth_dit_block:
  assumes "length xs = 2 * h" "j < h"
  shows "dit_block sm tw xs ! j = xs ! j + sm (tw ! j) (xs ! (j + h))"
    "dit_block sm tw xs ! (j + h) = xs ! j - sm (tw ! j) (xs ! (j + h))"
  using assms by (auto simp: dit_block_def Let_def nth_append)

lemma fused_block_dit:
  assumes "length xs = 4 * q" "0 < q"
  shows "process_ifft_fused_block sm xs tw_hi tw_lo = dit_block sm tw_lo (apply_blocks (2 * q) (dit_block sm tw_hi) xs)"
proof -
  obtain us vs where xs: "xs = us @ vs" "length us = 2 * q" "length vs = 2 * q"
    by (rule split_even [of xs "2 * q"]) (use assms in auto)
  let ?us = "dit_block sm tw_hi us" and ?vs = "dit_block sm tw_hi vs"
  have two: "apply_blocks (2 * q) (dit_block sm tw_hi) xs = ?us @ ?vs"
    unfolding xs(1) by (rule apply_blocks_two) (use xs assms(2) in auto)
  have len: "length ?us = 2 * q" "length ?vs = 2 * q" using xs by (simp_all add: length_dit_block)
  show ?thesis unfolding fused_inv_regroup [OF assms(1)] two
  proof (rule regroup_eqI)
    fix j t assume j: "j < q" and t: "t < (4 :: nat)"
    have e: "j + 3 * q = j + q + 2 * q" by simp
    have x: "xs ! j = us ! j" "xs ! (j + q) = us ! (j + q)" "xs ! (j + 2 * q) = vs ! j" "xs ! (j + 3 * q) = vs ! (j + q)"
      using j xs by (simp_all add: nth_append add.commute [of q j])
    have hi: "?us ! j = us ! j + sm (tw_hi ! j) (us ! (j + q))" "?us ! (j + q) = us ! j - sm (tw_hi ! j) (us ! (j + q))"
      "?vs ! j = vs ! j + sm (tw_hi ! j) (vs ! (j + q))" "?vs ! (j + q) = vs ! j - sm (tw_hi ! j) (vs ! (j + q))"
      by (simp_all only: nth_dit_block [OF xs(2) j] nth_dit_block [OF xs(3) j])
    have "j < 2 * q" "j + q < 2 * q" using j by simp_all
    note lo = nth_dit_append [OF len this(1), of sm tw_lo] nth_dit_append [OF len this(2), of sm tw_lo, folded e]
    from less_4_cases [OF t] show "dit_block sm tw_lo (?us @ ?vs) ! (j + t * q) = fused_inv_op sm tw_hi tw_lo q j (read_at 4 j q xs) ! t"
      by (elim disjE) (simp_all add: lo hi fused_inv_op_def read_at_simps Let_def x)
  qed (simp add: length_dit_block len)
qed
lemma triple_block_dit:
  assumes "length xs = 8 * q" "0 < q"
  shows "process_ifft_triple_fused_block sm xs tw_hi tw_mid tw_lo =
    dit_block sm tw_lo (apply_blocks (4 * q) (\<lambda>b. process_ifft_fused_block sm b tw_hi tw_mid) xs)"
proof -
  obtain us vs where xs: "xs = us @ vs" "length us = 4 * q" "length vs = 4 * q"
    by (rule split_even [of xs "4 * q"]) (use assms in auto)
  let ?inner = "fused_inv_op sm tw_hi tw_mid q"
  let ?us = "regroup 4 q ?inner us" and ?vs = "regroup 4 q ?inner vs"
  have two: "apply_blocks (4 * q) (\<lambda>b. process_ifft_fused_block sm b tw_hi tw_mid) xs = ?us @ ?vs"
    unfolding xs(1) fused_inv_regroup [OF xs(2), symmetric] fused_inv_regroup [OF xs(3), symmetric]
    by (rule apply_blocks_two) (use xs assms(2) in auto)
  define op where "op j v = (let a = ?inner j [v ! 0, v ! 1, v ! 2, v ! 3]; b = ?inner j [v ! 4, v ! 5, v ! 6, v ! 7]
    in [a ! 0 + sm (tw_lo ! j) (b ! 0), a ! 1 + sm (tw_lo ! (j + q)) (b ! 1),
        a ! 2 + sm (tw_lo ! (j + 2 * q)) (b ! 2), a ! 3 + sm (tw_lo ! (j + 3 * q)) (b ! 3),
        a ! 0 - sm (tw_lo ! j) (b ! 0), a ! 1 - sm (tw_lo ! (j + q)) (b ! 1),
        a ! 2 - sm (tw_lo ! (j + 2 * q)) (b ! 2), a ! 3 - sm (tw_lo ! (j + 3 * q)) (b ! 3)])" for j v
  have "process_ifft_triple_fused_block sm xs tw_hi tw_mid tw_lo = regroup 8 q op xs"
    unfolding process_ifft_triple_fused_block_def Let_def
    using assms by simp (rule group_fold; simp add: op_def fused_inv_op_def group_ops del: write_at.simps)
  also have "\<dots> = dit_block sm tw_lo (?us @ ?vs)"
  proof (rule regroup_eqI)
    fix j t assume j: "j < q" and t: "t < (8 :: nat)"
    have rd: "read_at 8 j q xs = read_at 4 j q us @ read_at 4 j q vs"
    proof -
      have "xs ! (j + q) = us ! (j + q)" "xs ! j = us ! j" "xs ! (j + 2 * q) = us ! (j + 2 * q)" "xs ! (j + 3 * q) = us ! (j + 3 * q)"
        using j xs by (simp_all add: nth_append)
      moreover have "xs ! (j + i + 4 * q) = vs ! (j + i)" for i using xs by (simp add: nth_append add.commute)
      from this [of 0] this [of q] this [of "2 * q"] this [of "3 * q"]
      have "xs ! (j + 4 * q) = vs ! j" "xs ! (j + 5 * q) = vs ! (j + q)" "xs ! (j + 6 * q) = vs ! (j + 2 * q)" "xs ! (j + 7 * q) = vs ! (j + 3 * q)"
        by (simp_all add: add.assoc)
      ultimately show ?thesis by (simp add: read_at_simps)
    qed
    have part: "dit_block sm tw_lo (?us @ ?vs) ! (j + s * q) =
          ?inner j (read_at 4 j q us) ! s + sm (tw_lo ! (j + s * q)) (?inner j (read_at 4 j q vs) ! s)"
        "dit_block sm tw_lo (?us @ ?vs) ! (j + s * q + 4 * q) =
          ?inner j (read_at 4 j q us) ! s - sm (tw_lo ! (j + s * q)) (?inner j (read_at 4 j q vs) ! s)" if s: "s < 4" for s
    proof -
      have "j + s * q < Suc s * q" using j by simp
      also have "\<dots> \<le> 4 * q" using s by (intro mult_right_mono) auto
      finally have "j + s * q < 4 * q" .
      from nth_dit_append [OF _ _ this, of ?us ?vs sm tw_lo] show
        "dit_block sm tw_lo (?us @ ?vs) ! (j + s * q) =
          ?inner j (read_at 4 j q us) ! s + sm (tw_lo ! (j + s * q)) (?inner j (read_at 4 j q vs) ! s)"
        "dit_block sm tw_lo (?us @ ?vs) ! (j + s * q + 4 * q) =
          ?inner j (read_at 4 j q us) ! s - sm (tw_lo ! (j + s * q)) (?inner j (read_at 4 j q vs) ! s)"
        using nth_regroup [OF j s, of ?inner us] nth_regroup [OF j s, of ?inner vs] by simp_all
    qed
    have four: "read_at 4 j q us = [us ! j, us ! (j + q), us ! (j + 2 * q), us ! (j + 3 * q)]"
      "read_at 4 j q vs = [vs ! j, vs ! (j + q), vs ! (j + 2 * q), vs ! (j + 3 * q)]" by (rule read_at_simps)+
    show "dit_block sm tw_lo (?us @ ?vs) ! (j + t * q) = op j (read_at 8 j q xs) ! t"
    proof (cases "t < 4")
      case True
      from less_4_cases [OF True] show ?thesis
        unfolding part(1) [OF True] rd op_def Let_def four by (elim disjE) simp_all
    next
      case False
      then obtain s where s: "t = 4 + s" by (metis le_Suc_ex not_less)
      then have s4: "s < 4" using t by simp
      have e: "j + t * q = j + s * q + 4 * q" by (simp add: s algebra_simps)
      from less_4_cases [OF s4] have "?inner j (read_at 4 j q us) ! s - sm (tw_lo ! (j + s * q)) (?inner j (read_at 4 j q vs) ! s)
          = op j (read_at 8 j q xs) ! t"
        unfolding rd op_def Let_def four s by (elim disjE) simp_all
      then show ?thesis unfolding e part(2) [OF s4] .
    qed
  qed (simp add: length_dit_block)
  finally show ?thesis unfolding two .
qed

section \<open>The drivers run the layers\<close>

definition twiddles_wf :: "nat \<Rightarrow> 'f LayerTwiddles \<Rightarrow> bool" where
  "twiddles_wf k lt \<longleftrightarrow> num_layers lt = k \<and> (\<forall>l<k. length (layers lt ! l) = 2 ^ (k - 1 - l))"

lemma get_layer_wf:
  "twiddles_wf k lt \<Longrightarrow> l < k \<Longrightarrow> count \<le> 2 ^ (k - 1 - l) \<Longrightarrow> get_layer lt l count = Some (layers lt ! l)"
  by (auto simp: twiddles_wf_def get_layer_def)

lemma power_div_power: "l \<le> k \<Longrightarrow> 2 ^ k div 2 ^ l = (2 ^ (k - l) :: nat)"
  by (simp add: power_diff)

lemma layer_split:
  assumes "twiddles_wf k lt" "l < k"
  shows "drop l (layers lt) = layers lt ! l # drop (Suc l) (layers lt)" "length (drop (Suc l) (layers lt)) = k - Suc l"
  using assms by (auto simp: twiddles_wf_def num_layers_def Cons_nth_drop_Suc)

lemma length_blocks_dif:
  "length xs = c * 2 ^ Suc m \<Longrightarrow> length (apply_blocks (2 ^ Suc m) (dif_block sm tw) xs) = length xs"
  by (rule length_apply_blocks) (auto simp: length_dif_block)

lemma length_blocks_dit:
  "length xs = c * 2 ^ Suc m \<Longrightarrow> length (apply_blocks (2 ^ Suc m) (dit_block sm tw) xs) = length xs"
  by (rule length_apply_blocks) (auto simp: length_dit_block)

lemma dif_layers_pair:
  assumes "length xs = c * 2 ^ (length tws + 2)"
  shows "dif_layers sm (tw0 # tw1 # tws) xs =
    dif_layers sm tws (apply_blocks (2 ^ (length tws + 2)) (\<lambda>b. process_fused_block sm b tw0 tw1) xs)"
proof -
  let ?q = "2 ^ length tws :: nat"
  have "apply_blocks (2 * ?q) (dif_block sm tw1) (apply_blocks (4 * ?q) (dif_block sm tw0) xs)
      = apply_blocks (4 * ?q) (\<lambda>b. apply_blocks (2 * ?q) (dif_block sm tw1) (dif_block sm tw0 b)) xs"
    by (rule apply_blocks_compose [of _ c _ 2]) (use assms in \<open>auto simp: length_dif_block\<close>)
  also have "\<dots> = apply_blocks (4 * ?q) (\<lambda>b. process_fused_block sm b tw0 tw1) xs"
    by (rule apply_blocks_cong [of _ c]) (use assms in \<open>auto simp: fused_block_dif\<close>)
  finally show ?thesis by (simp add: mult.assoc)
qed

lemma dif_layers_triple:
  assumes "length xs = c * 2 ^ (length tws + 3)"
  shows "dif_layers sm (tw0 # tw1 # tw2 # tws) xs =
    dif_layers sm tws (apply_blocks (2 ^ (length tws + 3)) (\<lambda>b. process_triple_fused_block sm b tw0 tw1 tw2) xs)"
proof -
  let ?q = "2 ^ length tws :: nat"
  let ?ys = "apply_blocks (8 * ?q) (dif_block sm tw0) xs"
  have xs: "length xs = c * (8 * ?q)" using assms by (simp add: power_add)
  have len: "length ?ys = (2 * c) * 2 ^ (length tws + 2)"
    using length_blocks_dif [of xs c "length tws + 2" sm tw0] xs by (simp add: power_add)
  have "dif_layers sm (tw0 # tw1 # tw2 # tws) xs = dif_layers sm (tw1 # tw2 # tws) ?ys" by simp
  also have "\<dots> = dif_layers sm tws (apply_blocks (4 * ?q) (\<lambda>b. process_fused_block sm b tw1 tw2) ?ys)"
    using dif_layers_pair [OF len] by (simp add: power_add)
  also have "apply_blocks (4 * ?q) (\<lambda>b. process_fused_block sm b tw1 tw2) ?ys =
      apply_blocks (8 * ?q) (\<lambda>b. apply_blocks (4 * ?q) (\<lambda>b. process_fused_block sm b tw1 tw2) (dif_block sm tw0 b)) xs"
    by (rule apply_blocks_compose [of _ c _ 2]) (use xs in \<open>auto simp: length_dif_block\<close>)
  also have "\<dots> = apply_blocks (8 * ?q) (\<lambda>b. process_triple_fused_block sm b tw0 tw1 tw2) xs"
    by (rule apply_blocks_cong [of _ c]) (use xs in \<open>auto simp: triple_block_dif\<close>)
  finally have "dif_layers sm (tw0 # tw1 # tw2 # tws) xs =
    dif_layers sm tws (apply_blocks (8 * ?q) (\<lambda>b. process_triple_fused_block sm b tw0 tw1 tw2) xs)" .
  moreover have "2 ^ (length tws + 3) = 8 * ?q" by (simp add: power_add)
  ultimately show ?thesis by (simp only:)
qed

lemma length_process_fused: "length xs = 4 * q \<Longrightarrow> length (process_fused_block sm xs tw0 tw1) = 4 * q"
  by (simp add: fused_block_regroup)

lemma length_process_triple:
  assumes "length xs = 8 * q" "0 < q"
  shows "length (process_triple_fused_block sm xs tw0 tw1 tw2) = 8 * q"
proof -
  have "length (dif_block sm tw0 xs) = 2 * (4 * q)" using assms by (simp add: length_dif_block)
  then show ?thesis unfolding triple_block_dif [OF assms]
    by (subst length_apply_blocks) (use assms in \<open>auto simp: length_process_fused\<close>)
qed

text \<open>What a loop over layers has done: the layers that remain give the same result as before.\<close>

definition remaining :: "('f \<Rightarrow> 'e::field \<Rightarrow> 'e) \<Rightarrow> 'f LayerTwiddles \<Rightarrow> nat \<Rightarrow> 'e list \<Rightarrow> 'e list" where
  "remaining sm lt layer xs = dif_layers sm (drop layer (layers lt)) xs"

lemma remaining_step:
  assumes "twiddles_wf k lt" "layer < k"
  shows "remaining sm lt layer xs = remaining sm lt (Suc layer) (apply_blocks (2 ^ (k - layer)) (dif_block sm (layers lt ! layer)) xs)"
  using assms layer_split [OF assms] by (simp add: remaining_def Suc_diff_Suc)

lemma remaining_pair:
  fixes sm :: "'f \<Rightarrow> 'e::field \<Rightarrow> 'e"
  assumes "twiddles_wf k lt" "layer + 1 < k" "length xs = 2 ^ k"
  defines "ys \<equiv> apply_blocks (2 ^ (k - layer)) (\<lambda>b. process_fused_block sm b (layers lt ! layer) (layers lt ! (layer + 1))) xs"
  shows "remaining sm lt (layer + 2) ys = remaining sm lt layer xs" "length ys = 2 ^ k"
proof -
  let ?tws = "drop (layer + 2) (layers lt)"
  have d: "drop layer (layers lt) = layers lt ! layer # layers lt ! (layer + 1) # ?tws" "length ?tws + 2 = k - layer"
    using layer_split [OF assms(1), of layer] layer_split [OF assms(1), of "Suc layer"] assms(2) by simp_all
  have len: "length xs = 2 ^ layer * 2 ^ (length ?tws + 2)"
    using assms(2,3) unfolding d(2) by (simp flip: power_add)
  show "remaining sm lt (layer + 2) ys = remaining sm lt layer xs"
    unfolding remaining_def d(1) dif_layers_pair [OF len] d(2) ys_def by simp
  have e: "2 ^ (k - layer) = 4 * (2 ^ length ?tws :: nat)" unfolding d(2) [symmetric] power_add by simp
  then have "length ys = length xs" unfolding ys_def
    by (intro length_apply_blocks [of _ "2 ^ layer"]) (use len e in \<open>auto simp: length_process_fused power_add\<close>)
  then show "length ys = 2 ^ k" using assms(3) by simp
qed

lemma remaining_triple:
  fixes sm :: "'f \<Rightarrow> 'e::field \<Rightarrow> 'e"
  assumes "twiddles_wf k lt" "layer + 2 < k" "length xs = 2 ^ k"
  defines "ys \<equiv> apply_blocks (2 ^ (k - layer))
    (\<lambda>b. process_triple_fused_block sm b (layers lt ! layer) (layers lt ! (layer + 1)) (layers lt ! (layer + 2))) xs"
  shows "remaining sm lt (layer + 3) ys = remaining sm lt layer xs" "length ys = 2 ^ k"
proof -
  let ?tws = "drop (layer + 3) (layers lt)"
  have d: "drop layer (layers lt) = layers lt ! layer # layers lt ! (layer + 1) # layers lt ! (layer + 2) # ?tws"
    "length ?tws + 3 = k - layer"
    using layer_split [OF assms(1), of layer] layer_split [OF assms(1), of "Suc layer"]
      layer_split [OF assms(1), of "Suc (Suc layer)"] assms(2) by (simp_all add: numeral_3_eq_3)
  have len: "length xs = 2 ^ layer * 2 ^ (length ?tws + 3)"
    using assms(2,3) unfolding d(2) by (simp flip: power_add)
  show "remaining sm lt (layer + 3) ys = remaining sm lt layer xs"
    unfolding remaining_def d(1) dif_layers_triple [OF len] d(2) ys_def by simp
  have e: "2 ^ (k - layer) = 8 * (2 ^ length ?tws :: nat)" unfolding d(2) [symmetric] power_add by simp
  then have "length ys = length xs" unfolding ys_def
    by (intro length_apply_blocks [of _ "2 ^ layer"]) (use len e in \<open>auto simp: length_process_triple power_add\<close>)
  then show "length ys = 2 ^ k" using assms(3) by simp
qed

lemma fft_pairs_sim:
  assumes "twiddles_wf k lt" "layer \<le> k" "length xs = 2 ^ k"
  shows "\<exists>layer' ys. fft_pairs sm lt (2 ^ k) k layer xs = Some (layer', ys) \<and> layer' \<le> k \<and> k \<le> Suc layer' \<and>
    length ys = 2 ^ k \<and> remaining sm lt layer' ys = remaining sm lt layer xs"
  using assms(2,3)
proof (induction "k - layer" arbitrary: layer xs rule: less_induct)
  case less
  show ?case
  proof (cases "layer + 1 < k")
    case True
    have b: "2 ^ k div 2 ^ layer = (2 ^ (k - layer) :: nat)" using True by (simp add: power_div_power)
    define d where "d = k - layer - 2"
    have d: "k - layer = Suc (Suc d)" using True by (simp add: d_def)
    have k: "k - 1 - layer = Suc d" "k - 1 - (layer + 1) = d" using d by simp_all
    have g: "get_layer lt layer (2 ^ (k - layer) div 2) = Some (layers lt ! layer)"
      "get_layer lt (layer + 1) (2 ^ (k - layer) div 4) = Some (layers lt ! (layer + 1))"
      using True d k by (auto intro!: get_layer_wf [OF assms(1)])
    define ys where "ys = apply_blocks (2 ^ (k - layer)) (\<lambda>b. process_fused_block sm b (layers lt ! layer) (layers lt ! (layer + 1))) xs"
    have ys: "remaining sm lt (layer + 2) ys = remaining sm lt layer xs" "length ys = 2 ^ k"
      unfolding ys_def by (rule remaining_pair [OF assms(1) True less.prems(2)])+
    have "fft_pairs sm lt (2 ^ k) k layer xs = fft_pairs sm lt (2 ^ k) k (layer + 2) ys"
      using True d g by (subst fft_pairs.simps) (simp add: b ys_def)
    then show ?thesis using less.hyps [of "layer + 2" ys] True ys by auto
  next
    case False
    then show ?thesis using less.prems by (subst fft_pairs.simps) auto
  qed
qed

lemma fft_triples_sim:
  assumes "twiddles_wf k lt" "layer \<le> k" "length xs = 2 ^ k"
  shows "\<exists>layer' ys. fft_triples sm lt (2 ^ k) k layer xs = Some (layer', ys) \<and> layer' \<le> k \<and>
    length ys = 2 ^ k \<and> remaining sm lt layer' ys = remaining sm lt layer xs"
  using assms(2,3)
proof (induction "k - layer" arbitrary: layer xs rule: less_induct)
  case less
  show ?case
  proof (cases "layer + 2 < k")
    case True
    have b: "2 ^ k div 2 ^ layer = (2 ^ (k - layer) :: nat)" using True by (simp add: power_div_power)
    define d where "d = k - layer - 3"
    have d: "k - layer = Suc (Suc (Suc d))" using True by (simp add: d_def)
    have k: "k - 1 - layer = Suc (Suc d)" "k - 1 - (layer + 1) = Suc d" "k - 1 - (layer + 2) = d" using d by simp_all
    have g: "get_layer lt layer (2 ^ (k - layer) div 2) = Some (layers lt ! layer)"
      "get_layer lt (layer + 1) (2 ^ (k - layer) div 4) = Some (layers lt ! (layer + 1))"
      "get_layer lt (layer + 2) (2 ^ (k - layer) div 8) = Some (layers lt ! (layer + 2))"
      using True d k by (auto intro!: get_layer_wf [OF assms(1)])
    define ys where "ys = apply_blocks (2 ^ (k - layer))
      (\<lambda>b. process_triple_fused_block sm b (layers lt ! layer) (layers lt ! (layer + 1)) (layers lt ! (layer + 2))) xs"
    have ys: "remaining sm lt (layer + 3) ys = remaining sm lt layer xs" "length ys = 2 ^ k"
      unfolding ys_def by (rule remaining_triple [OF assms(1) True less.prems(2)])+
    have "fft_triples sm lt (2 ^ k) k layer xs = fft_triples sm lt (2 ^ k) k (layer + 3) ys"
      using True d g by (subst fft_triples.simps) (simp add: b ys_def)
    then show ?thesis using less.hyps [of "layer + 3" ys] True ys by auto
  next
    case False
    then show ?thesis using less.prems by (subst fft_triples.simps) auto
  qed
qed

lemma fft_layer_step:
  assumes "layer < k" "length xs = 2 ^ k"
  shows "fft_layer_loop sm (2 ^ k) (2 ^ (k - layer)) (2 ^ (k - layer) div 2) tw xs = apply_blocks (2 ^ (k - layer)) (dif_block sm tw) xs"
    "length (apply_blocks (2 ^ (k - layer)) (dif_block sm tw) xs) = 2 ^ k"
    "ifft_layer_loop sm (2 ^ k) (2 ^ (k - layer)) (2 ^ (k - layer) div 2) tw xs = apply_blocks (2 ^ (k - layer)) (dit_block sm tw) xs"
    "length (apply_blocks (2 ^ (k - layer)) (dit_block sm tw) xs) = 2 ^ k"
proof -
  define m where "m = k - layer - 1"
  have m: "k - layer = Suc m" "k = layer + Suc m" using assms(1) by (simp_all add: m_def)
  have len: "length xs = 2 ^ layer * (2 * 2 ^ m)" "length xs = 2 ^ layer * 2 ^ Suc m"
    using assms(2) unfolding m(2) by (simp_all add: power_add)
  show "fft_layer_loop sm (2 ^ k) (2 ^ (k - layer)) (2 ^ (k - layer) div 2) tw xs = apply_blocks (2 ^ (k - layer)) (dif_block sm tw) xs"
    using fft_layer_loop_blocks [OF len(1), of sm tw] assms(2) by (simp add: m(1))
  show "ifft_layer_loop sm (2 ^ k) (2 ^ (k - layer)) (2 ^ (k - layer) div 2) tw xs = apply_blocks (2 ^ (k - layer)) (dit_block sm tw) xs"
    using ifft_layer_loop_blocks [OF len(1), of sm tw] assms(2) by (simp add: m(1))
  show "length (apply_blocks (2 ^ (k - layer)) (dif_block sm tw) xs) = 2 ^ k"
    "length (apply_blocks (2 ^ (k - layer)) (dit_block sm tw) xs) = 2 ^ k"
    unfolding m(1) length_blocks_dif [OF len(2)] length_blocks_dit [OF len(2)] using assms(2) by simp_all
qed

lemma single_blocks:
  assumes "layer < k" "length xs = 2 ^ k"
  shows "apply_blocks (2 ^ (k - layer)) (process_single_layer_block sm tw (2 ^ (k - layer) div 2)) xs =
      apply_blocks (2 ^ (k - layer)) (dif_block sm tw) xs"
    "apply_blocks (2 ^ (k - layer)) (process_ifft_single_layer_block sm tw (2 ^ (k - layer) div 2)) xs =
      apply_blocks (2 ^ (k - layer)) (dit_block sm tw) xs"
proof -
  define m where "m = k - layer - 1"
  have m: "k - layer = Suc m" "k = layer + Suc m" using assms(1) by (simp_all add: m_def)
  have len: "length xs = 2 ^ layer * 2 ^ (k - layer)" using assms(2) unfolding m(1) by (subst (asm) m(2)) (simp add: power_add)
  show "apply_blocks (2 ^ (k - layer)) (process_single_layer_block sm tw (2 ^ (k - layer) div 2)) xs =
      apply_blocks (2 ^ (k - layer)) (dif_block sm tw) xs"
    "apply_blocks (2 ^ (k - layer)) (process_ifft_single_layer_block sm tw (2 ^ (k - layer) div 2)) xs =
      apply_blocks (2 ^ (k - layer)) (dit_block sm tw) xs"
    by (rule apply_blocks_cong [OF len]; simp add: m(1) single_block_dif single_block_dit)+
qed

lemma get_layer_half:
  "twiddles_wf k lt \<Longrightarrow> layer < k \<Longrightarrow> get_layer lt layer (2 ^ (k - layer) div 2) = Some (layers lt ! layer)"
proof (rule get_layer_wf)
  assume "layer < k"
  then have "k - layer = Suc (k - 1 - layer)" by simp
  then show "2 ^ (k - layer) div 2 \<le> (2 ^ (k - 1 - layer) :: nat)" by simp
qed

lemma fft_singles_sim:
  assumes "twiddles_wf k lt" "layer \<le> k" "length xs = 2 ^ k"
  shows "fft_singles sm lt threshold (2 ^ k) k layer xs = Some (remaining sm lt layer xs)"
  using assms(2,3)
proof (induction "k - layer" arbitrary: layer xs rule: less_induct)
  case less
  show ?case
  proof (cases "layer < k")
    case True
    have b: "2 ^ k div 2 ^ layer = (2 ^ (k - layer) :: nat)" using True by (simp add: power_div_power)
    show ?thesis
      using True less.prems less.hyps [of "layer + 1"] get_layer_half [OF assms(1) True]
        single_blocks [OF True less.prems(2), of sm "layers lt ! layer"] fft_layer_step [OF True less.prems(2), of sm "layers lt ! layer"] remaining_step [OF assms(1) True, of sm xs]
      by (subst fft_singles.simps) (simp add: b Let_def Suc_diff_Suc)
  next
    case False
    then show ?thesis using less.prems assms(1) by (subst fft_singles.simps) (simp add: remaining_def twiddles_wf_def num_layers_def)
  qed
qed

lemma fft_small_sim:
  assumes "twiddles_wf k lt" "layer \<le> k" "length xs = 2 ^ k"
  shows "fft_small_layers sm lt (2 ^ k) [layer..<k] xs = Some (remaining sm lt layer xs)"
  using assms(2,3)
proof (induction "k - layer" arbitrary: layer xs rule: less_induct)
  case less
  show ?case
  proof (cases "layer < k")
    case True
    have b: "2 ^ k div 2 ^ layer = (2 ^ (k - layer) :: nat)" using True by (simp add: power_div_power)
    have lt: "k - Suc layer < k - layer" using True by arith
    show ?thesis
      using True less.prems less.hyps [of "Suc layer", OF lt] get_layer_half [OF assms(1) True]
        fft_layer_step [OF True less.prems(2), of sm "layers lt ! layer"] remaining_step [OF assms(1) True, of sm xs]
      by (simp add: upt_conv_Cons b Let_def)
  next
    case False
    then show ?thesis using less.prems assms(1) by (simp add: remaining_def twiddles_wf_def num_layers_def)
  qed
qed

lemma twiddles_wf_layers: "twiddles_wf k lt \<Longrightarrow> num_layers lt = k"
  by (simp add: twiddles_wf_def)

lemma bowers_fft_runs_layers:
  assumes "twiddles_wf k lt" "length xs = 2 ^ k"
  shows "bowers_fft_opt_fused sm lt xs = Some (Inr (dif_layers sm (layers lt) xs))"
proof -
  have r0: "remaining sm lt 0 xs = dif_layers sm (layers lt) xs" by (simp add: remaining_def)
  consider "k = 0" | "k \<noteq> 0" "k \<le> 2" | "2 < k" by linarith
  then show ?thesis
  proof cases
    case 1
    then show ?thesis using assms by (simp add: bowers_fft_opt_fused_def trailing_zeros.simps twiddles_wf_def num_layers_def)
  next
    case 2
    then have "2 ^ k \<le> (2 ^ 2 :: nat)" "(2 :: nat) ^ 1 \<le> 2 ^ k"
      using power_increasing [of k 2 "2 :: nat"] power_increasing [of 1 k "2 :: nat"] by simp_all
    then show ?thesis using assms fft_small_sim [OF assms(1) _ assms(2), of 0 sm]
      by (simp add: bowers_fft_opt_fused_def trailing_zeros_power twiddles_wf_layers r0)
  next
    case 3
    then have big: "(2 ^ 3 :: nat) \<le> 2 ^ k" by (intro power_increasing) auto
    obtain l ys where p: "fft_pairs sm lt (2 ^ k) k 0 xs = Some (l, ys)" "l \<le> k" "k \<le> Suc l" "length ys = 2 ^ k"
      "remaining sm lt l ys = remaining sm lt 0 xs"
      using fft_pairs_sim [OF assms(1) _ assms(2), of 0 sm] by auto
    show ?thesis
    proof (cases "l < k")
      case True
      have b: "2 ^ k div 2 ^ l = (2 ^ (k - l) :: nat)" using True by (simp add: power_div_power)
      have kl: "k = Suc l" using True p(3) by simp
      have "remaining sm lt 0 xs = apply_blocks (2 ^ (k - l)) (dif_block sm (layers lt ! l)) ys"
        unfolding p(5) [symmetric] remaining_step [OF assms(1) True]
        using assms(1) kl by (simp add: remaining_def twiddles_wf_def num_layers_def)
      then show ?thesis using big p True b assms get_layer_half [OF assms(1) True] fft_layer_step(1) [OF True p(4), of sm]
        by (simp add: bowers_fft_opt_fused_def trailing_zeros_power twiddles_wf_layers r0)
    next
      case False
      then have "ys = remaining sm lt 0 xs" using p(2,5) assms(1) by (simp add: remaining_def twiddles_wf_def num_layers_def)
      then show ?thesis using big p False assms
        by (simp add: bowers_fft_opt_fused_def trailing_zeros_power twiddles_wf_layers r0)
    qed
  qed
qed

lemma bowers_fft_parallel_runs_layers:
  assumes "twiddles_wf k lt" "length xs = 2 ^ k"
  shows "bowers_fft_opt_fused_parallel sm threads lt xs = Some (Inr (dif_layers sm (layers lt) xs))"
proof -
  have r0: "remaining sm lt 0 xs = dif_layers sm (layers lt) xs" by (simp add: remaining_def)
  obtain l ys where t: "fft_triples sm lt (2 ^ k) k 0 xs = Some (l, ys)" "l \<le> k" "length ys = 2 ^ k"
    "remaining sm lt l ys = remaining sm lt 0 xs"
    using fft_triples_sim [OF assms(1) _ assms(2), of 0 sm] by auto
  obtain l' zs where p: "fft_pairs sm lt (2 ^ k) k l ys = Some (l', zs)" "l' \<le> k" "length zs = 2 ^ k"
    "remaining sm lt l' zs = remaining sm lt l ys"
    using fft_pairs_sim [OF assms(1) t(2,3), of sm] by auto
  have s: "fft_singles sm lt thr (2 ^ k) k l' zs = Some (remaining sm lt 0 xs)" for thr
    using fft_singles_sim [OF assms(1) p(2,3), of sm thr] p(4) t(4) by simp
  have small: "k = 0 \<Longrightarrow> layers lt = []" using assms(1) by (simp add: twiddles_wf_def num_layers_def)
  show ?thesis
  proof (cases "k = 0")
    case True
    then show ?thesis using assms small by (simp add: bowers_fft_opt_fused_parallel_def trailing_zeros.simps)
  next
    case False
    then have "\<not> (2 ^ k \<le> (1 :: nat))" using one_less_power [of "2 :: nat" k] by simp
    then show ?thesis using assms t p s bowers_fft_runs_layers [OF assms, of sm]
      by (simp add: bowers_fft_opt_fused_parallel_def trailing_zeros_power twiddles_wf_layers r0 Let_def)
  qed
qed

section \<open>The inverse drivers\<close>

lemma apply_blocks_compose_inner:
  assumes "length xs = m * s" "s = d * u" "0 < s" "\<And>bs. length bs = u \<Longrightarrow> length (g bs) = u"
  shows "apply_blocks s f (apply_blocks u g xs) = apply_blocks s (\<lambda>bs. f (apply_blocks u g bs)) xs"
  using assms(1,3)
proof (induction rule: blocks_induct)
  case (Cons bs zs)
  have u: "length bs = d * u" "0 < u" using Cons(1) assms(2,3) by auto
  then have "length (apply_blocks u g bs) = s" using length_apply_blocks [OF u, of g] assms(2,4) by simp
  then show ?case unfolding apply_blocks_append [OF u] using Cons assms(3) by (simp add: apply_blocks_Cons)
qed simp

definition inverted :: "('f \<Rightarrow> 'e::field \<Rightarrow> 'e) \<Rightarrow> 'f LayerTwiddles \<Rightarrow> nat \<Rightarrow> 'e list \<Rightarrow> 'e list" where
  "inverted sm lt layer xs = dit_layers sm (drop layer (layers lt)) xs"

lemma inverted_step:
  assumes "twiddles_wf k lt" "layer < k"
  shows "inverted sm lt layer xs = apply_blocks (2 ^ (k - layer)) (dit_block sm (layers lt ! layer)) (inverted sm lt (Suc layer) xs)"
  using assms layer_split [OF assms] by (simp add: inverted_def Suc_diff_Suc)

lemma length_inverted:
  assumes "twiddles_wf k lt" "layer \<le> k" "length xs = 2 ^ k"
  shows "length (inverted sm lt layer xs) = 2 ^ k"
  using assms(2)
proof (induction "k - layer" arbitrary: layer rule: less_induct)
  case less
  show ?case
  proof (cases "layer < k")
    case True
    then have "length (inverted sm lt (Suc layer) xs) = 2 ^ k" using less.hyps [of "Suc layer"] by simp
    then show ?thesis using fft_layer_step(4) [OF True, of "inverted sm lt (Suc layer) xs" sm "layers lt ! layer"] inverted_step [OF assms(1) True, of sm xs] by simp
  next
    case False
    then show ?thesis using less.prems assms(1,3) by (simp add: inverted_def twiddles_wf_def num_layers_def)
  qed
qed

lemma inverted_pair:
  assumes "twiddles_wf k lt" "layer + 1 < k" "length xs = 2 ^ k"
  shows "inverted sm lt layer xs = apply_blocks (2 ^ (k - layer))
    (\<lambda>b. process_ifft_fused_block sm b (layers lt ! (layer + 1)) (layers lt ! layer)) (inverted sm lt (layer + 2) xs)"
proof -
  define q where "q = (2 ^ (k - layer - 2) :: nat)"
  let ?ys = "inverted sm lt (layer + 2) xs"
  define m where "m = k - layer - 2"
  have m: "k - layer = m + 2" "k - Suc layer = m + 1" "k = layer + (m + 2)" using assms(2) by (simp_all add: m_def)
  have b: "2 ^ (k - layer) = 4 * q" "2 ^ (k - Suc layer) = 2 * q" "0 < q" by (simp_all add: q_def m power_add)
  have "length ?ys = 2 ^ k" by (rule length_inverted) (use assms in auto)
  also have "\<dots> = 2 ^ layer * (4 * q)" by (subst m(3)) (simp add: power_add q_def m(1))
  finally have len: "length ?ys = 2 ^ layer * (4 * q)" .
  have "inverted sm lt layer xs = apply_blocks (4 * q) (dit_block sm (layers lt ! layer))
      (apply_blocks (2 * q) (dit_block sm (layers lt ! (layer + 1))) ?ys)"
    using inverted_step [OF assms(1), of layer sm xs] inverted_step [OF assms(1), of "Suc layer" sm xs] assms(2) b by simp
  also have "\<dots> = apply_blocks (4 * q)
      (\<lambda>bs. dit_block sm (layers lt ! layer) (apply_blocks (2 * q) (dit_block sm (layers lt ! (layer + 1))) bs)) ?ys"
    by (rule apply_blocks_compose_inner [OF len, of 2]) (use b(3) in \<open>auto simp: length_dit_block\<close>)
  also have "\<dots> = apply_blocks (4 * q) (\<lambda>b. process_ifft_fused_block sm b (layers lt ! (layer + 1)) (layers lt ! layer)) ?ys"
    by (rule apply_blocks_cong [OF len]) (use b(3) in \<open>auto simp: fused_block_dit\<close>)
  finally show ?thesis unfolding b(1) .
qed

lemma inverted_triple:
  assumes "twiddles_wf k lt" "layer + 2 < k" "length xs = 2 ^ k"
  shows "inverted sm lt layer xs = apply_blocks (2 ^ (k - layer))
    (\<lambda>b. process_ifft_triple_fused_block sm b (layers lt ! (layer + 2)) (layers lt ! (layer + 1)) (layers lt ! layer))
    (inverted sm lt (layer + 3) xs)"
proof -
  define m where "m = k - layer - 3"
  define q where "q = (2 ^ m :: nat)"
  let ?ys = "inverted sm lt (layer + 3) xs"
  have m: "k - layer = m + 3" "k - Suc layer = m + 2" "k = layer + (m + 3)" using assms(2) by (simp_all add: m_def)
  have b: "2 ^ (k - layer) = 8 * q" "2 ^ (k - Suc layer) = 4 * q" "0 < q" by (simp_all add: q_def m power_add)
  have "length ?ys = 2 ^ k" by (rule length_inverted) (use assms in auto)
  also have "\<dots> = 2 ^ layer * (8 * q)" by (subst m(3)) (simp add: power_add q_def)
  finally have len: "length ?ys = 2 ^ layer * (8 * q)" .
  let ?fused = "\<lambda>b. process_ifft_fused_block sm b (layers lt ! (layer + 2)) (layers lt ! (layer + 1))"
  have "inverted sm lt (Suc layer) xs = apply_blocks (4 * q) ?fused ?ys"
    using inverted_pair [OF assms(1), of "Suc layer" xs sm] assms(2,3) b(2) by (simp add: numeral_3_eq_3)
  then have "inverted sm lt layer xs = apply_blocks (8 * q) (dit_block sm (layers lt ! layer)) (apply_blocks (4 * q) ?fused ?ys)"
    using inverted_step [OF assms(1), of layer sm xs] assms(2) b by simp
  also have "\<dots> = apply_blocks (8 * q) (\<lambda>bs. dit_block sm (layers lt ! layer) (apply_blocks (4 * q) ?fused bs)) ?ys"
    by (rule apply_blocks_compose_inner [OF len, of 2]) (use b(3) in \<open>auto simp: fused_inv_regroup\<close>)
  also have "\<dots> = apply_blocks (8 * q)
      (\<lambda>b. process_ifft_triple_fused_block sm b (layers lt ! (layer + 2)) (layers lt ! (layer + 1)) (layers lt ! layer)) ?ys"
    by (rule apply_blocks_cong [OF len]) (use b(3) in \<open>auto simp: triple_block_dit\<close>)
  finally show ?thesis unfolding b(1) .
qed
lemma ifft_pairs_sim:
  assumes "twiddles_wf k lt" "layer \<le> k" "length xs = 2 ^ k"
  shows "\<exists>layer'. ifft_pairs sm lt (2 ^ k) layer (inverted sm lt layer xs) = Some (layer', inverted sm lt layer' xs) \<and> layer' \<le> 1"
  using assms(2)
proof (induction layer rule: less_induct)
  case (less layer)
  show ?case
  proof (cases "2 \<le> layer")
    case True
    define l where "l = layer - 2"
    have l: "layer = l + 2" "l + 1 < k" using True less.prems by (simp_all add: l_def)
    have b: "2 ^ k div 2 ^ l = (2 ^ (k - l) :: nat)" using l by (simp add: power_div_power)
    have d: "k - l = Suc (Suc (k - l - 2))" "k - 1 - (l + 1) = k - l - 2" using l by simp_all
    have g: "get_layer lt l (2 ^ (k - l) div 2) = Some (layers lt ! l)" by (rule get_layer_half [OF assms(1)]) (use l in simp)
    have g': "get_layer lt (l + 1) (2 ^ (k - l) div 4) = Some (layers lt ! (l + 1))"
    proof (rule get_layer_wf [OF assms(1) l(2)])
      show "2 ^ (k - l) div 4 \<le> (2 ^ (k - 1 - (l + 1)) :: nat)" unfolding d(2) by (subst d(1)) simp
    qed
    have "ifft_pairs sm lt (2 ^ k) layer (inverted sm lt layer xs) = ifft_pairs sm lt (2 ^ k) l (inverted sm lt l xs)"
      using g g' inverted_pair [OF assms(1) l(2) assms(3), of sm] by (subst ifft_pairs.simps) (simp add: l(1) b Let_def)
    then show ?thesis using less.IH [of l] l by simp
  next
    case False
    then show ?thesis by (subst ifft_pairs.simps) auto
  qed
qed

lemma ifft_triples_sim:
  assumes "twiddles_wf k lt" "layer \<le> k" "length xs = 2 ^ k"
  shows "\<exists>layer'. ifft_triples sm lt (2 ^ k) layer (inverted sm lt layer xs) = Some (layer', inverted sm lt layer' xs) \<and> layer' \<le> k"
  using assms(2)
proof (induction layer rule: less_induct)
  case (less layer)
  show ?case
  proof (cases "3 \<le> layer")
    case True
    define l where "l = layer - 3"
    have l: "layer = l + 3" "l + 2 < k" using True less.prems by (simp_all add: l_def)
    have b: "2 ^ k div 2 ^ l = (2 ^ (k - l) :: nat)" using l by (simp add: power_div_power)
    define m where "m = k - l - 3"
    have d: "k - l = Suc (Suc (Suc m))" "k - 1 - (l + 1) = Suc m" "k - 1 - (l + 2) = m" using l by (simp_all add: m_def)
    have g: "get_layer lt l (2 ^ (k - l) div 2) = Some (layers lt ! l)" by (rule get_layer_half [OF assms(1)]) (use l in simp)
    have g': "get_layer lt (l + 1) (2 ^ (k - l) div 4) = Some (layers lt ! (l + 1))"
      "get_layer lt (l + 2) (2 ^ (k - l) div 8) = Some (layers lt ! (l + 2))"
      by (rule get_layer_wf [OF assms(1)]; use l d in simp)+
    have i: "layer - Suc 0 = l + 2" "layer - 2 = l + 1" "layer - 3 = l" using l by simp_all
    have "ifft_triples sm lt (2 ^ k) layer (inverted sm lt layer xs) = ifft_triples sm lt (2 ^ k) l (inverted sm lt l xs)"
      using True g g' inverted_triple [OF assms(1) l(2) assms(3), of sm]
      by (subst ifft_triples.simps) (simp add: i b Let_def l(1) [symmetric])
    then show ?thesis using less.IH [of l] l by simp
  next
    case False
    then show ?thesis using less.prems by (subst ifft_triples.simps) auto
  qed
qed

lemma ifft_small_sim:
  assumes "twiddles_wf k lt" "layer \<le> k" "length xs = 2 ^ k"
  shows "ifft_small_layers sm lt (2 ^ k) (rev [0..<layer]) (inverted sm lt layer xs) = Some (inverted sm lt 0 xs)"
  using assms(2)
proof (induction layer)
  case (Suc l)
  then have lk: "l < k" by simp
  have b: "2 ^ k div 2 ^ l = (2 ^ (k - l) :: nat)" using lk by (simp add: power_div_power)
  have "length (inverted sm lt (Suc l) xs) = 2 ^ k" by (rule length_inverted) (use assms Suc.prems in auto)
  then show ?case using Suc get_layer_half [OF assms(1) lk] fft_layer_step(3) [OF lk, of "inverted sm lt (Suc l) xs" sm "layers lt ! l"] inverted_step [OF assms(1) lk, of sm xs]
    by (simp add: b Let_def)
qed simp

lemma inverted_ends:
  "twiddles_wf k lt \<Longrightarrow> inverted sm lt k xs = xs" "inverted sm lt 0 xs = dit_layers sm (layers lt) xs"
  by (simp_all add: inverted_def twiddles_wf_def num_layers_def)

lemma ifft_last_layer:
  assumes "twiddles_wf k lt" "layer \<le> k" "layer \<le> 1" "1 \<le> layer" "length xs = 2 ^ k"
  shows "get_layer lt (layer - 1) (2 ^ k div 2 ^ (layer - 1) div 2) = Some (layers lt ! (layer - 1))"
    "ifft_layer_loop sm (2 ^ k) (2 ^ k div 2 ^ (layer - 1)) (2 ^ k div 2 ^ (layer - 1) div 2) (layers lt ! (layer - 1))
       (inverted sm lt layer xs) = dit_layers sm (layers lt) xs"
    "apply_blocks (2 ^ k div 2 ^ (layer - 1)) (process_ifft_single_layer_block sm (layers lt ! (layer - 1))
       (2 ^ k div 2 ^ (layer - 1) div 2)) (inverted sm lt layer xs) = dit_layers sm (layers lt) xs"
proof -
  have l: "layer = Suc 0" "0 < k" using assms by simp_all
  have len: "length (inverted sm lt (Suc 0) xs) = 2 ^ k" by (rule length_inverted) (use assms l in auto)
  show "get_layer lt (layer - 1) (2 ^ k div 2 ^ (layer - 1) div 2) = Some (layers lt ! (layer - 1))"
    using get_layer_half [OF assms(1) l(2)] l by simp
  show "ifft_layer_loop sm (2 ^ k) (2 ^ k div 2 ^ (layer - 1)) (2 ^ k div 2 ^ (layer - 1) div 2) (layers lt ! (layer - 1))
       (inverted sm lt layer xs) = dit_layers sm (layers lt) xs"
    "apply_blocks (2 ^ k div 2 ^ (layer - 1)) (process_ifft_single_layer_block sm (layers lt ! (layer - 1))
       (2 ^ k div 2 ^ (layer - 1) div 2)) (inverted sm lt layer xs) = dit_layers sm (layers lt) xs"
    using fft_layer_step(3) [OF l(2) len, of sm] single_blocks(2) [OF l(2) len, of sm] inverted_step [OF assms(1) l(2), of sm xs] l
    by (simp_all add: inverted_ends(2) [symmetric])
qed

lemma bowers_ifft_runs_layers:
  assumes "twiddles_wf k lt" "length xs = 2 ^ k"
  shows "bowers_ifft_opt sm lt xs = Some (Inr (dit_layers sm (layers lt) xs))"
proof -
  note ends = inverted_ends(1) [OF assms(1), of sm xs] inverted_ends(2) [of sm lt xs]
  consider "k = 0" | "k \<noteq> 0" "k \<le> 2" | "2 < k" by linarith
  then show ?thesis
  proof cases
    case 1
    then show ?thesis using assms by (simp add: bowers_ifft_opt_def trailing_zeros.simps twiddles_wf_def num_layers_def)
  next
    case 2
    then have "2 ^ k \<le> (2 ^ 2 :: nat)" "(2 :: nat) ^ 1 \<le> 2 ^ k"
      using power_increasing [of k 2 "2 :: nat"] power_increasing [of 1 k "2 :: nat"] by simp_all
    then show ?thesis using assms ifft_small_sim [OF assms(1) order_refl assms(2), of sm]
      by (simp add: bowers_ifft_opt_def trailing_zeros_power twiddles_wf_layers ends)
  next
    case 3
    then have big: "(2 ^ 3 :: nat) \<le> 2 ^ k" by (intro power_increasing) auto
    obtain l where p: "ifft_pairs sm lt (2 ^ k) k xs = Some (l, inverted sm lt l xs)" "l \<le> 1"
      using ifft_pairs_sim [OF assms(1) order_refl assms(2), of sm] ends by auto
    show ?thesis
    proof (cases "1 \<le> l")
      case True
      have lk: "l \<le> k" using p(2) 3 by simp
      note last = ifft_last_layer(1) [OF assms(1) lk p(2) True assms(2)] ifft_last_layer(2) [OF assms(1) lk p(2) True assms(2), of sm]
      show ?thesis using big p True assms last
        by (simp add: bowers_ifft_opt_def trailing_zeros_power twiddles_wf_layers Let_def)
    next
      case False
      then have "l = 0" by simp
      then show ?thesis using big p assms ends
        by (simp add: bowers_ifft_opt_def trailing_zeros_power twiddles_wf_layers Let_def)
    qed
  qed
qed

lemma bowers_ifft_parallel_runs_layers:
  assumes "twiddles_wf k lt" "length xs = 2 ^ k"
  shows "bowers_ifft_opt_parallel sm threads lt xs = Some (Inr (dit_layers sm (layers lt) xs))"
proof -
  note ends = inverted_ends(1) [OF assms(1), of sm xs] inverted_ends(2) [of sm lt xs]
  obtain l where t: "ifft_triples sm lt (2 ^ k) k xs = Some (l, inverted sm lt l xs)" "l \<le> k"
    using ifft_triples_sim [OF assms(1) order_refl assms(2), of sm] ends by auto
  obtain l' where p: "ifft_pairs sm lt (2 ^ k) l (inverted sm lt l xs) = Some (l', inverted sm lt l' xs)" "l' \<le> 1"
    using ifft_pairs_sim [OF assms(1) t(2) assms(2), of sm] by auto
  have small: "k = 0 \<Longrightarrow> layers lt = []" using assms(1) by (simp add: twiddles_wf_def num_layers_def)
  show ?thesis
  proof (cases "k = 0")
    case True
    then show ?thesis using assms small by (simp add: bowers_ifft_opt_parallel_def trailing_zeros.simps)
  next
    case False
    then have big: "\<not> (2 ^ k \<le> (1 :: nat))" using one_less_power [of "2 :: nat" k] by simp
    show ?thesis
    proof (cases "1 \<le> l'")
      case True
      have lk: "l' \<le> k" using p(2) False by simp
      note last = ifft_last_layer(1) [OF assms(1) lk p(2) True assms(2)] ifft_last_layer(2,3) [OF assms(1) lk p(2) True assms(2), of sm]
      show ?thesis using big t p True assms last bowers_ifft_runs_layers [OF assms, of sm]
        by (simp add: bowers_ifft_opt_parallel_def trailing_zeros_power twiddles_wf_layers Let_def)
    next
      case False
      then have "l' = 0" by simp
      then show ?thesis using big t p assms ends bowers_ifft_runs_layers [OF assms, of sm]
        by (simp add: bowers_ifft_opt_parallel_def trailing_zeros_power twiddles_wf_layers Let_def)
    qed
  qed
qed

end
