(* ===== verification/Fft_Dft.thy ===== *)
theory Fft_Dft
  imports Fft_Layers
begin

text \<open>
  The sequence of butterfly layers is the discrete Fourier transform in bit-reversed order, and the inverse
  layers undo it up to the factor \<open>2 ^ k\<close>.
\<close>

section \<open>The transform of a list\<close>

definition dft :: "'e::field \<Rightarrow> 'e list \<Rightarrow> nat \<Rightarrow> 'e" where
  "dft e xs i = (\<Sum>j<length xs. xs ! j * e ^ (i * j))"

definition twiddle_table :: "nat \<Rightarrow> 'f::field \<Rightarrow> 'f list list" where
  "twiddle_table k w = map (\<lambda>l. map (\<lambda>j. (w ^ (2 ^ l)) ^ j) [0..<2 ^ (k - 1 - l)]) [0..<k]"

lemma twiddle_loop_eq: "twiddle_loop n w c = map (\<lambda>j. c * w ^ j) [0..<n]"
proof -
  have len: "length (twiddle_loop n w c) = n" for n and c :: 'a by (induction n arbitrary: c) simp_all
  have "j < n \<Longrightarrow> twiddle_loop n w c ! j = c * w ^ j" for n j and c :: 'a
    by (induction n arbitrary: c j) (auto simp: nth_Cons' mult.assoc power_eq_if)
  then show ?thesis by (intro nth_equalityI) (simp_all add: len)
qed

lemma twiddles_build_table: "k \<le> 63 \<Longrightarrow> twiddles_build k w = Some \<lparr>layers = twiddle_table k w\<rparr>"
proof -
  assume "k \<le> 63"
  moreover have "2 ^ k div 2 ^ (l + 1) = (2 ^ (k - 1 - l) :: nat)" if "l < k" for l
    using power_div_power [of "Suc l" k] that by simp
  ultimately show ?thesis
    by (auto simp: twiddles_build_def MAX_FFT_ORDER_def twiddle_table_def twiddle_loop_eq simp del: power_Suc intro!: map_cong)
qed

lemma length_twiddle_table [simp]: "length (twiddle_table k w) = k"
  by (simp add: twiddle_table_def)

lemma twiddle_table_wf: "twiddles_wf k \<lparr>layers = twiddle_table k w\<rparr>"
  by (simp add: twiddles_wf_def num_layers_def twiddle_table_def)

lemma twiddle_table_Suc: "twiddle_table (Suc k) w = map (\<lambda>j. w ^ j) [0..<2 ^ k] # twiddle_table k (w * w)"
proof -
  have pw: "w ^ (2 * 2 ^ l) = (w * w) ^ (2 ^ l)" for l :: nat
    by (simp add: power_mult_distrib mult_2 power_add)
  have "twiddle_table (Suc k) w ! n = (map (\<lambda>j. w ^ j) [0..<2 ^ k] # twiddle_table k (w * w)) ! n" if "n < Suc k" for n
    using that by (cases n) (simp_all add: twiddle_table_def pw del: upt_Suc)
  then show ?thesis by (intro nth_equalityI) simp_all
qed

lemma sum_lessThan_add: "(\<Sum>j<m + n. f j) = (\<Sum>j<m. f j) + (\<Sum>j<n. f (m + j))" for f :: "nat \<Rightarrow> 'a::comm_monoid_add"
  by (induction n) (simp_all add: add.assoc)

lemma dif_layers_append:
  "length xs = c * 2 ^ length tws \<Longrightarrow> length ys = d * 2 ^ length tws \<Longrightarrow>
     dif_layers sm tws (xs @ ys) = dif_layers sm tws xs @ dif_layers sm tws ys"
proof (induction tws arbitrary: xs ys c d)
  case (Cons tw tws)
  let ?b = "apply_blocks (2 ^ Suc (length tws)) (dif_block sm tw)"
  have len: "length xs = c * 2 ^ Suc (length tws)" "length ys = d * 2 ^ Suc (length tws)" using Cons.prems by simp_all
  have "length (?b xs) = 2 * c * 2 ^ length tws" "length (?b ys) = 2 * d * 2 ^ length tws"
    using length_blocks_dif [OF len(1), of sm tw] length_blocks_dif [OF len(2), of sm tw] len by simp_all
  then show ?case using Cons.IH [of "?b xs" "2 * c" "?b ys" "2 * d"] apply_blocks_append [OF len(1), of "dif_block sm tw" ys] by simp
qed simp

lemma length_dif_layers: "length xs = c * 2 ^ length tws \<Longrightarrow> length (dif_layers sm tws xs) = length xs"
proof (induction tws arbitrary: xs c)
  case (Cons tw tws)
  have len: "length xs = c * 2 ^ Suc (length tws)" using Cons.prems by simp
  from length_blocks_dif [OF this, of sm tw] show ?case
    using Cons.IH [of "apply_blocks (2 ^ Suc (length tws)) (dif_block sm tw) xs" "2 * c"] len by simp
qed simp

lemma apply_one_block: "length xs = s \<Longrightarrow> 0 < s \<Longrightarrow> apply_blocks s f xs = f xs"
  using apply_blocks_Cons [of xs s f "[]"] by simp

text \<open>The product of a subfield element with a field element, through an embedding of the fields.\<close>

definition embeds :: "('f::field \<Rightarrow> 'e::field) \<Rightarrow> bool" where
  "embeds emb \<longleftrightarrow> emb 0 = 0 \<and> emb 1 = 1 \<and> (\<forall>a b. emb (a + b) = emb a + emb b) \<and> (\<forall>a b. emb (a * b) = emb a * emb b)"

lemma embeds_power: "embeds emb \<Longrightarrow> emb (a ^ n) = emb a ^ n"
  by (induction n) (simp_all add: embeds_def)

lemma embeds_minus_one: "embeds emb \<Longrightarrow> emb (- 1) = - 1"
proof -
  assume e: "embeds emb"
  then have "emb (- 1) + 1 = emb (- 1 + 1)" unfolding embeds_def by metis
  moreover have "emb (- 1 + 1) = 0" using e by (simp add: embeds_def)
  ultimately show ?thesis by (simp add: eq_neg_iff_add_eq_0)
qed

lemma dif_layers_dft:
  assumes "embeds emb" "\<And>w x. sm w x = emb w * x"
  shows "length xs = 2 ^ k \<Longrightarrow> 0 < k \<longrightarrow> w ^ (2 ^ (k - 1)) = - 1 \<Longrightarrow> i < 2 ^ k \<Longrightarrow>
    dif_layers sm (twiddle_table k w) xs ! bitrev k i = dft (emb w) xs i"
proof (induction k arbitrary: w xs i)
  case 0
  then show ?case by (cases xs) (auto simp: twiddle_table_def dft_def)
next
  case (Suc k)
  let ?h = "2 ^ k :: nat" and ?e = "emb w" and ?tws = "twiddle_table k (w * w)"
  let ?t = "map (\<lambda>j. w ^ j) [0..<2 ^ k]"
  let ?lo = "dif_lo ?h xs" and ?hi = "dif_hi sm ?t ?h xs"
  have len: "length xs = 2 * ?h" using Suc.prems(1) by simp
  have wh: "w ^ ?h = - 1" using Suc.prems(2) by simp
  then have eh: "?e ^ ?h = - 1" using embeds_power [OF assms(1), of w ?h] embeds_minus_one [OF assms(1)] by simp
  have ww: "0 < k \<longrightarrow> (w * w) ^ (2 ^ (k - 1)) = - 1"
    using wh by (cases k) (simp_all add: power_mult_distrib mult_2 power_add)
  have dif: "dif_layers sm (twiddle_table (Suc k) w) xs = dif_layers sm ?tws ?lo @ dif_layers sm ?tws ?hi"
  proof -
    have "apply_blocks (2 ^ Suc (length ?tws)) (dif_block sm ?t) xs = ?lo @ ?hi"
      using len by (simp add: apply_one_block dif_block_halves)
    then show ?thesis unfolding twiddle_table_Suc dif_layers.simps
      using dif_layers_append [of ?lo 1 ?tws ?hi 1 sm] by simp
  qed
  have llen: "length (dif_layers sm ?tws ?lo) = ?h" using length_dif_layers [of ?lo 1 ?tws sm] by simp
  have sq: "emb (w * w) ^ m = ?e ^ (2 * m)" for m
    using assms(1) by (simp add: embeds_def power_mult power2_eq_square)
  have split: "dft ?e xs i = (\<Sum>j<?h. xs ! j * ?e ^ (i * j)) + (\<Sum>j<?h. xs ! (j + ?h) * ?e ^ (i * (?h + j)))"
    unfolding dft_def len mult_2 sum_lessThan_add by (simp add: add.commute)
  show ?case
  proof (cases "even i")
    case True
    then obtain i' where i': "i = 2 * i'" by (rule evenE)
    then have "i' < ?h" using Suc.prems(3) by simp
    have pw: "?e ^ (i * (?h + j)) = ?e ^ (i * j)" for j
    proof -
      have "i * (?h + j) = ?h * (2 * i') + i * j" by (simp add: i' algebra_simps)
      then show ?thesis by (simp only: power_add power_mult eh) simp
    qed
    have "dif_layers sm (twiddle_table (Suc k) w) xs ! bitrev (Suc k) i = dif_layers sm ?tws ?lo ! bitrev k i'"
      unfolding dif i' bitrev_double using bitrev_less [of k i'] by (simp add: nth_append llen)
    also have "\<dots> = dft (emb (w * w)) ?lo i'" by (rule Suc.IH) (use ww \<open>i' < ?h\<close> in auto)
    also have "\<dots> = (\<Sum>j<?h. (xs ! j + xs ! (j + ?h)) * ?e ^ (i * j))"
      by (simp add: dft_def nth_dif_halves sq i' mult.assoc)
    also have "\<dots> = dft ?e xs i" unfolding split pw by (simp add: distrib_right sum.distrib)
    finally show ?thesis .
  next
    case False
    then obtain i' where i': "i = 2 * i' + 1" by (rule oddE)
    then have "i' < ?h" using Suc.prems(3) by simp
    have pw: "?e ^ (i * (?h + j)) = - (?e ^ (i * j))" for j
    proof -
      have "i * (?h + j) = ?h * Suc (2 * i') + i * j" by (simp add: i' algebra_simps)
      then show ?thesis by (simp only: power_add power_mult eh) simp
    qed
    have "dif_layers sm (twiddle_table (Suc k) w) xs ! bitrev (Suc k) i = dif_layers sm ?tws ?hi ! bitrev k i'"
      unfolding dif i' by (simp add: nth_append llen)
    also have "\<dots> = dft (emb (w * w)) ?hi i'" by (rule Suc.IH) (use ww \<open>i' < ?h\<close> in auto)
    also have "\<dots> = (\<Sum>j<?h. (xs ! j - xs ! (j + ?h)) * ?e ^ (i * j))"
      by (simp add: dft_def nth_dif_halves sq i' assms(2) embeds_power [OF assms(1)] power_add algebra_simps)
    also have "\<dots> = dft ?e xs i" unfolding split pw by (simp add: left_diff_distrib sum_subtractf sum_negf)
    finally show ?thesis .
  qed
qed

section \<open>The inverse transform\<close>

lemma nth_halves_cases:
  assumes "i < 2 * (h :: nat)"
  obtains j where "j < h" "i = j" | j where "j < h" "i = j + h"
proof (cases "i < h")
  case False
  then show thesis using that(2) [of "i - h"] assms by simp
qed (use that(1) in blast)

lemma block_inverse:
  assumes "embeds emb" "\<And>w x. sm w x = emb w * x" "length b = 2 * h" "\<And>j. j < h \<Longrightarrow> emb (t ! j) * emb (t' ! j) = 1"
  shows "dit_block sm t' (dif_block sm t b) = map ((*) 2) b" "dif_block sm t (dit_block sm t' b) = map ((*) 2) b"
proof -
  have len: "length (dif_block sm t b) = 2 * h" "length (dit_block sm t' b) = 2 * h"
    using assms(3) by (simp_all add: length_dif_block length_dit_block)
  note nths = nth_dif_block [OF assms(3), of _ sm t] nth_dit_block [OF assms(3), of _ sm t']
    nth_dit_block [OF len(1), of _ sm t'] nth_dif_block [OF len(2), of _ sm t]
  have cancel: "emb (t' ! j) * (emb (t ! j) * x) = x" "emb (t ! j) * (emb (t' ! j) * x) = x" if "j < h" for j x
    using assms(4) [OF that] by (simp_all add: mult.commute mult.left_commute flip: mult.assoc)
  show "dit_block sm t' (dif_block sm t b) = map ((*) 2) b"
  proof (rule nth_equalityI)
    fix i assume "i < length (dit_block sm t' (dif_block sm t b))"
    then have "i < 2 * h" using len(1) by (simp add: length_dit_block)
    then show "dit_block sm t' (dif_block sm t b) ! i = map ((*) 2) b ! i"
      by (rule nth_halves_cases) (use assms(3) in \<open>simp_all add: nths assms(2) cancel\<close>)
  qed (use len(1) assms(3) in \<open>simp add: length_dit_block\<close>)
  show "dif_block sm t (dit_block sm t' b) = map ((*) 2) b"
  proof (rule nth_equalityI)
    fix i assume "i < length (dif_block sm t (dit_block sm t' b))"
    then have "i < 2 * h" using len(2) by (simp add: length_dif_block)
    then show "dif_block sm t (dit_block sm t' b) ! i = map ((*) 2) b ! i"
      by (rule nth_halves_cases) (use assms(3) in \<open>simp_all add: nths assms(2) cancel flip: mult_2\<close>)
  qed (use len(2) assms(3) in \<open>simp add: length_dif_block\<close>)
qed

lemma block_linear:
  assumes "\<And>w x. sm w x = emb w * x" "even (length b)"
  shows "dif_block sm t (map ((*) c) b) = map ((*) c) (dif_block sm t b)"
    "dit_block sm t (map ((*) c) b) = map ((*) c) (dit_block sm t b)"
proof -
  obtain h where h: "length b = 2 * h" using assms(2) by (rule evenE)
  then show "dif_block sm t (map ((*) c) b) = map ((*) c) (dif_block sm t b)"
    "dit_block sm t (map ((*) c) b) = map ((*) c) (dit_block sm t b)"
    by (auto simp: dif_block_def dit_block_def Let_def assms(1) algebra_simps)
qed

lemma apply_blocks_map:
  assumes "length xs = m * s" "0 < s" "\<And>b. length b = s \<Longrightarrow> f (map g b) = map g (f b)"
  shows "apply_blocks s f (map g xs) = map g (apply_blocks s f xs)"
  using assms(1,2)
proof (induction rule: blocks_induct)
  case (Cons bs zs)
  then show ?case using assms(2,3) by (simp add: apply_blocks_Cons)
qed simp

lemma apply_blocks_id:
  assumes "length xs = m * s" "0 < s" "\<And>b. length b = s \<Longrightarrow> f b = map g b"
  shows "apply_blocks s f xs = map g xs"
  using assms(1,2)
proof (induction rule: blocks_induct)
  case (Cons bs zs)
  then show ?case using assms(2,3) by (simp add: apply_blocks_Cons)
qed simp

lemma dif_layers_linear:
  assumes "\<And>w x. sm w x = emb w * x"
  shows "length xs = m * 2 ^ length tws \<Longrightarrow> dif_layers sm tws (map ((*) c) xs) = map ((*) c) (dif_layers sm tws xs)"
proof (induction tws arbitrary: xs m)
  case (Cons tw tws)
  have len: "length xs = m * 2 ^ Suc (length tws)" using Cons.prems by simp
  have "apply_blocks (2 ^ Suc (length tws)) (dif_block sm tw) (map ((*) c) xs) =
      map ((*) c) (apply_blocks (2 ^ Suc (length tws)) (dif_block sm tw) xs)"
    by (rule apply_blocks_map [OF len]) (simp_all add: block_linear [OF assms])
  then show ?case using Cons.IH [of "apply_blocks (2 ^ Suc (length tws)) (dif_block sm tw) xs" "2 * m"]
      length_blocks_dif [OF len, of sm tw] len by simp
qed simp

lemma length_dit_layers: "length xs = c * 2 ^ length tws \<Longrightarrow> length (dit_layers sm tws xs) = length xs"
proof (induction tws arbitrary: c)
  case (Cons tw tws)
  then have "length (dit_layers sm tws xs) = length xs" by (intro Cons.IH [of "2 * c"]) simp
  then show ?case using length_blocks_dit [of "dit_layers sm tws xs" c "length tws" sm tw] Cons.prems by simp
qed simp

lemma twiddles_inverse:
  assumes "embeds emb" "w \<noteq> 0" "j < 2 ^ k"
  shows "emb (map (\<lambda>j. w ^ j) [0..<2 ^ k] ! j) * emb (map (\<lambda>j. inverse w ^ j) [0..<2 ^ k] ! j) = 1"
proof -
  have "w ^ j * inverse w ^ j = 1" using assms(2) by (simp add: power_inverse)
  then have "emb (w ^ j * inverse w ^ j) = emb 1" by simp
  then show ?thesis using assms(1,3) by (simp add: embeds_def)
qed

lemma dit_dif_layers:
  assumes "embeds emb" "\<And>w x. sm w x = emb w * x"
  shows "w \<noteq> 0 \<Longrightarrow> length xs = c * 2 ^ k \<Longrightarrow>
      dit_layers sm (twiddle_table k (inverse w)) (dif_layers sm (twiddle_table k w) xs) = map ((*) (2 ^ k)) xs"
proof (induction k arbitrary: w c xs)
  case 0
  then show ?case by (simp add: twiddle_table_def)
next
  case (Suc k)
  let ?t = "map (\<lambda>j. w ^ j) [0..<2 ^ k]" and ?t' = "map (\<lambda>j. inverse w ^ j) [0..<2 ^ k]"
  let ?tws = "twiddle_table k (w * w)" and ?tws' = "twiddle_table k (inverse (w * w))"
  let ?dif = "apply_blocks (2 * 2 ^ k) (dif_block sm ?t)" and ?dit = "apply_blocks (2 * 2 ^ k) (dit_block sm ?t')"
  have tab: "twiddle_table (Suc k) w = ?t # ?tws" "twiddle_table (Suc k) (inverse w) = ?t' # ?tws'"
    by (simp_all add: twiddle_table_Suc)
  have len: "length xs = c * (2 * 2 ^ k)" and nz: "w * w \<noteq> 0" using Suc.prems by simp_all
  have dlen: "length (?dif xs) = 2 * c * 2 ^ k" using length_blocks_dif [of xs c k sm ?t] len by simp
  have "dit_layers sm ?tws' (dif_layers sm ?tws (?dif xs)) = map ((*) (2 ^ k)) (?dif xs)"
    by (rule Suc.IH [OF nz dlen])
  then have "dit_layers sm (twiddle_table (Suc k) (inverse w)) (dif_layers sm (twiddle_table (Suc k) w) xs) =
      ?dit (map ((*) (2 ^ k)) (?dif xs))" unfolding tab by simp
  also have "\<dots> = map ((*) (2 ^ k)) (?dit (?dif xs))"
    by (rule apply_blocks_map [of _ c]) (use dlen in \<open>simp_all add: block_linear [OF assms(2)]\<close>)
  also have "?dit (?dif xs) = apply_blocks (2 * 2 ^ k) (\<lambda>b. apply_blocks (2 * 2 ^ k) (dit_block sm ?t') (dif_block sm ?t b)) xs"
    by (rule apply_blocks_compose [OF len, of 1]) (simp_all add: length_dif_block)
  also have "\<dots> = map ((*) 2) xs"
    by (rule apply_blocks_id [OF len])
      (use Suc.prems(1) in \<open>simp_all add: apply_one_block length_dif_block block_inverse [OF assms _ twiddles_inverse [OF assms(1)]]\<close>)
  finally show ?case by simp
qed

lemma dif_dit_layers:
  assumes "embeds emb" "\<And>w x. sm w x = emb w * x"
  shows "w \<noteq> 0 \<Longrightarrow> length xs = c * 2 ^ k \<Longrightarrow>
      dif_layers sm (twiddle_table k w) (dit_layers sm (twiddle_table k (inverse w)) xs) = map ((*) (2 ^ k)) xs"
proof (induction k arbitrary: w c xs)
  case 0
  then show ?case by (simp add: twiddle_table_def)
next
  case (Suc k)
  let ?t = "map (\<lambda>j. w ^ j) [0..<2 ^ k]" and ?t' = "map (\<lambda>j. inverse w ^ j) [0..<2 ^ k]"
  let ?tws = "twiddle_table k (w * w)" and ?tws' = "twiddle_table k (inverse (w * w))"
  let ?dif = "apply_blocks (2 * 2 ^ k) (dif_block sm ?t)" and ?dit = "apply_blocks (2 * 2 ^ k) (dit_block sm ?t')"
  have tab: "twiddle_table (Suc k) w = ?t # ?tws" "twiddle_table (Suc k) (inverse w) = ?t' # ?tws'"
    by (simp_all add: twiddle_table_Suc)
  have len: "length xs = c * (2 * 2 ^ k)" and nz: "w * w \<noteq> 0" using Suc.prems by simp_all
  define ys where "ys = dit_layers sm ?tws' xs"
  have ylen: "length ys = c * (2 * 2 ^ k)" using length_dit_layers [of xs "2 * c" ?tws' sm] len by (simp add: ys_def)
  have "dif_layers sm (twiddle_table (Suc k) w) (dit_layers sm (twiddle_table (Suc k) (inverse w)) xs) =
      dif_layers sm ?tws (?dif (?dit ys))" unfolding tab by (simp add: ys_def)
  also have "?dif (?dit ys) = apply_blocks (2 * 2 ^ k) (\<lambda>b. apply_blocks (2 * 2 ^ k) (dif_block sm ?t) (dit_block sm ?t' b)) ys"
    by (rule apply_blocks_compose [OF ylen, of 1]) (simp_all add: length_dit_block)
  also have "\<dots> = map ((*) 2) ys"
    by (rule apply_blocks_id [OF ylen])
      (use Suc.prems(1) in \<open>simp_all add: apply_one_block length_dit_block block_inverse [OF assms _ twiddles_inverse [OF assms(1)]]\<close>)
  also have "dif_layers sm ?tws (map ((*) 2) ys) = map ((*) 2) (dif_layers sm ?tws ys)"
    by (rule dif_layers_linear [OF assms(2), of _ "2 * c"]) (use ylen in simp)
  also have "dif_layers sm ?tws ys = map ((*) (2 ^ k)) xs"
    unfolding ys_def by (rule Suc.IH [OF nz, of _ "2 * c"]) (use len in simp)
  finally show ?case by simp
qed

end
