(* ===== verification/Polynomials.thy ===== *)
theory Polynomials
  imports Fft_Dft Goldilocks_Tower Goldilocks
begin

text \<open>
  Polynomials by their coefficients (\<^verbatim>\<open>crypto/math/src/polynomial.rs\<close>), their evaluation and interpolation by
  the FFT, and the low-degree extension to a coset.  \<open>emb\<close> is the embedding of the field of the evaluation
  domain into the field of the coefficients; a panic is the value \<open>None\<close>.  The feature \<open>parallel\<close> and the number of
  threads are arguments.
\<close>

section \<open>Coefficient lists\<close>

definition poly_new :: "'a::field list \<Rightarrow> 'a list" where
  "poly_new coefficients = rev (dropWhile (\<lambda>x. x = 0) (rev coefficients))"

definition new_monomial :: "'a::field \<Rightarrow> nat \<Rightarrow> 'a list" where
  "new_monomial coefficient degree = poly_new (replicate degree 0 @ [coefficient])"

definition poly_evaluate :: "('f::field \<Rightarrow> 'e::field) \<Rightarrow> 'f list \<Rightarrow> 'e \<Rightarrow> 'e" where
  "poly_evaluate emb coefficients x = foldl (\<lambda>acc coeff. emb coeff + acc * x) 0 (rev coefficients)"

definition poly_degree :: "'a list \<Rightarrow> nat" where
  "poly_degree coefficients = (if coefficients = [] then 0 else length coefficients - 1)"

definition mul_with_ref :: "'a::field list \<Rightarrow> 'a list \<Rightarrow> 'a list" where
  "mul_with_ref p factor =
     (let degree = poly_degree p + poly_degree factor;
          coefficients = replicate (degree + 1) 0
      in if p = [] \<or> factor = [] then poly_new [0]
         else poly_new (fold (\<lambda>i coefficients.
             if factor ! i \<noteq> 0 then
               fold (\<lambda>j coefficients.
                   if p ! j \<noteq> 0 then coefficients[i + j := factor ! i * p ! j + coefficients ! (i + j)]
                   else coefficients)
                 [0..<poly_degree p + 1] coefficients
             else coefficients)
           [0..<poly_degree factor + 1] coefficients))"

fun scale_loop :: "('s::field \<Rightarrow> 'a::field) \<Rightarrow> 's \<Rightarrow> 'a list \<Rightarrow> 's \<Rightarrow> 'a list" where
  "scale_loop emb factor [] pw = []"
| "scale_loop emb factor (coeff # cs) pw = emb pw * coeff # scale_loop emb factor cs (pw * factor)"

definition poly_scale :: "('s::field \<Rightarrow> 'a::field) \<Rightarrow> 's \<Rightarrow> 'a list \<Rightarrow> 'a list" where
  "poly_scale emb factor coefficients = scale_loop emb factor coefficients 1"

definition scale_coeffs :: "'a::field \<Rightarrow> 'a list \<Rightarrow> 'a list" where
  "scale_coeffs factor coefficients = map (\<lambda>coeff. factor * coeff) coefficients"

function step_by_list :: "nat \<Rightarrow> 'a list \<Rightarrow> 'a list" where
  "step_by_list n xs = (case xs of [] \<Rightarrow> [] | x # ys \<Rightarrow> x # step_by_list n (drop (n - 1) ys))"
  by auto
termination by (relation "measure (\<lambda>(n, xs). length xs)") auto

declare step_by_list.simps [simp del]

definition break_in_parts :: "nat \<Rightarrow> 'a::field list \<Rightarrow> 'a list list" where
  "break_in_parts number_of_parts coef =
     map (\<lambda>i. poly_new (step_by_list number_of_parts (drop i coef))) [0..<number_of_parts]"

definition vec_resize_with :: "nat \<Rightarrow> 'a \<Rightarrow> 'a list \<Rightarrow> 'a list" where
  "vec_resize_with n v xs = take n xs @ replicate (n - length xs) v"

definition pad_with_zero_coefficients_to_length :: "'a::field list \<Rightarrow> nat \<Rightarrow> 'a list" where
  "pad_with_zero_coefficients_to_length pa n = vec_resize_with n 0 pa"

definition pad_with_zero_coefficients :: "'a::field list \<Rightarrow> 'b::field list \<Rightarrow> 'a list \<times> 'b list" where
  "pad_with_zero_coefficients pa pb =
     (if length pb < length pa then (pa, pad_with_zero_coefficients_to_length pb (length pa))
      else (pad_with_zero_coefficients_to_length pa (length pb), pb))"

section \<open>Barycentric evaluation on a coset\<close>

text \<open>Batch inversion at the level of values: an error when an element is zero, else every inverse.\<close>

definition batch_inverse_values :: "'a::field list \<Rightarrow> (FieldError, 'a list) result" where
  "batch_inverse_values xs = (if \<exists>x\<in>set xs. x = 0 then Inl InvZeroError else Inr (map inverse xs))"

definition barycentric_inv_denoms :: "('f::field \<Rightarrow> 'e::field) \<Rightarrow> 'e \<Rightarrow> 'f list \<Rightarrow> 'e list option" where
  "barycentric_inv_denoms emb z coset_points =
     (case batch_inverse_values (map (\<lambda>p. - (emb p - z)) coset_points) of
        Inl _ \<Rightarrow> None
      | Inr denoms \<Rightarrow> Some denoms)"

definition interpolate_coset_eval_ext_with_g_n_inv ::
    "('f::field \<Rightarrow> 'e::field) \<Rightarrow> 'e \<Rightarrow> 'f \<Rightarrow> 'f \<Rightarrow> 'f \<Rightarrow> 'f list \<Rightarrow> 'e list \<Rightarrow> 'e list \<Rightarrow> 'e" where
  "interpolate_coset_eval_ext_with_g_n_inv emb z_pow_n coset_offset_pow_n n_inv g_n_inv coset_points evaluations inv_denoms =
     (let sum = foldl (\<lambda>acc ((point, eval), inv_d). acc + emb point * eval * inv_d) 0
                  (zip (zip coset_points evaluations) inv_denoms);
          vanishing = z_pow_n - emb coset_offset_pow_n;
          scalar = n_inv * g_n_inv
      in emb scalar * (vanishing * sum))"

section \<open>Evaluation and interpolation by the FFT\<close>

definition PARALLEL_FFT_THRESHOLD :: nat where "PARALLEL_FFT_THRESHOLD = 2 ^ 14"

definition dispatch_fft ::
    "('f::field \<Rightarrow> 'e::field) \<Rightarrow> bool \<Rightarrow> nat \<Rightarrow> 'f LayerTwiddles \<Rightarrow> 'e list \<Rightarrow> (FFTError, 'e list) result option" where
  "dispatch_fft emb parallel num_threads twiddles buffer =
     (if parallel \<and> PARALLEL_FFT_THRESHOLD \<le> length buffer
      then bowers_fft_opt_fused_parallel (\<lambda>w x. emb w * x) num_threads twiddles buffer
      else bowers_fft_opt_fused (\<lambda>w x. emb w * x) twiddles buffer)"

definition dispatch_ifft ::
    "('f::field \<Rightarrow> 'e::field) \<Rightarrow> bool \<Rightarrow> nat \<Rightarrow> 'f LayerTwiddles \<Rightarrow> 'e list \<Rightarrow> (FFTError, 'e list) result option" where
  "dispatch_ifft emb parallel num_threads twiddles buffer =
     (if parallel \<and> PARALLEL_FFT_THRESHOLD \<le> length buffer
      then bowers_ifft_opt_parallel (\<lambda>w x. emb w * x) num_threads twiddles buffer
      else bowers_ifft_opt (\<lambda>w x. emb w * x) twiddles buffer)"

text \<open>The \<open>?\<close> operator on a result that may also be a panic.\<close>

definition obind :: "('e, 'a) result option \<Rightarrow> ('a \<Rightarrow> ('e, 'b) result option) \<Rightarrow> ('e, 'b) result option" where
  "obind r f = Option.bind r (\<lambda>r. case r of Inl e \<Rightarrow> Some (Inl e) | Inr a \<Rightarrow> f a)"

definition evaluate_fft_cpu_raw ::
    "'f::field fft_field \<Rightarrow> ('f \<Rightarrow> 'e::field) \<Rightarrow> bool \<Rightarrow> nat \<Rightarrow> 'e list \<Rightarrow> bool \<Rightarrow> (FFTError, 'e list) result option" where
  "evaluate_fft_cpu_raw FF emb parallel num_threads coeffs permute_to_natural =
     (let n = length coeffs; order = trailing_zeros n
      in if n \<noteq> 2 ^ order then Some (Inl (InputError n))
         else case twiddles_new FF order of
           None \<Rightarrow> Some (Inl (DomainSizeError order))
         | Some layer_twiddles \<Rightarrow>
             obind (dispatch_fft emb parallel num_threads layer_twiddles coeffs) (\<lambda>result.
               if permute_to_natural then map_option Inr (in_place_bit_reverse_permute result)
               else Some (Inr result)))"

function next_power_from :: "nat \<Rightarrow> nat \<Rightarrow> nat" where
  "next_power_from p n = (if p = 0 \<or> n \<le> p then p else next_power_from (2 * p) n)"
  by auto
termination by (relation "measure (\<lambda>(p, n). n - p)") auto

declare next_power_from.simps [simp del]

text \<open>On \<open>usize\<close>, in the release profile: the power is zero when it does not fit, and products wrap.\<close>

definition next_power_of_two :: "nat \<Rightarrow> nat" where
  "next_power_of_two n = (if n \<le> 2 ^ 63 then next_power_from 1 n else 0)"

definition usize_mul :: "nat \<Rightarrow> nat \<Rightarrow> nat" where "usize_mul a b = a * b mod 2 ^ 64"

definition evaluate_fft ::
    "'f::field fft_field \<Rightarrow> ('f \<Rightarrow> 'e::field) \<Rightarrow> bool \<Rightarrow> nat \<Rightarrow> 'e list \<Rightarrow> nat \<Rightarrow> nat option
      \<Rightarrow> (FFTError, 'e list) result option" where
  "evaluate_fft FF emb parallel num_threads poly blowup_factor domain_size =
     (let domain_size = (case domain_size of None \<Rightarrow> 0 | Some d \<Rightarrow> d);
          len = usize_mul (next_power_of_two (max (length poly) domain_size)) blowup_factor
      in if two_adicity FF < trailing_zeros len then Some (Inl (DomainSizeError (trailing_zeros len)))
         else if poly = [] then Some (Inr (replicate len 0))
         else evaluate_fft_cpu_raw FF emb parallel num_threads (vec_resize_with len 0 poly) True)"

definition evaluate_offset_fft ::
    "'f::field fft_field \<Rightarrow> ('f \<Rightarrow> 'e::field) \<Rightarrow> bool \<Rightarrow> nat \<Rightarrow> 'e list \<Rightarrow> nat \<Rightarrow> nat option \<Rightarrow> 'f
      \<Rightarrow> (FFTError, 'e list) result option" where
  "evaluate_offset_fft FF emb parallel num_threads poly blowup_factor domain_size offset =
     evaluate_fft FF emb parallel num_threads (poly_scale emb offset poly) blowup_factor domain_size"

definition interpolate_fft ::
    "'f::field fft_field \<Rightarrow> ('f \<Rightarrow> 'e::field) \<Rightarrow> bool \<Rightarrow> nat \<Rightarrow> 'e list \<Rightarrow> (FFTError, 'e list) result option" where
  "interpolate_fft FF emb parallel num_threads fft_evals =
     (let n = length fft_evals; order = trailing_zeros n
      in if n \<noteq> 2 ^ order then Some (Inl (InputError n))
         else case twiddles_new_inverse FF order of
           None \<Rightarrow> Some (Inl (DomainSizeError order))
         | Some inv_twiddles \<Rightarrow>
             Option.bind (in_place_bit_reverse_permute fft_evals) (\<lambda>coeffs.
             obind (dispatch_ifft emb parallel num_threads inv_twiddles coeffs) (\<lambda>coeffs.
               if (of_nat n :: 'e) = 0 then None
               else Some (Inr (scale_coeffs (inverse (of_nat n)) (poly_new coeffs))))))"

definition interpolate_offset_fft ::
    "'f::field fft_field \<Rightarrow> ('f \<Rightarrow> 'e::field) \<Rightarrow> bool \<Rightarrow> nat \<Rightarrow> 'e list \<Rightarrow> 'f \<Rightarrow> (FFTError, 'e list) result option" where
  "interpolate_offset_fft FF emb parallel num_threads fft_evals offset =
     obind (interpolate_fft FF emb parallel num_threads fft_evals) (\<lambda>scaled.
       if offset = 0 then Some (Inl InvalidCosetOffset)
       else Some (Inr (poly_scale emb (inverse offset) scaled)))"

section \<open>Low-degree extension to a coset\<close>

definition scale_weights :: "('f::field \<Rightarrow> 'e::field) \<Rightarrow> 'f list \<Rightarrow> 'e list \<Rightarrow> 'e list" where
  "scale_weights emb weights coeffs =
     map (\<lambda>(coeff, w). emb w * coeff) (zip coeffs weights) @ drop (length weights) coeffs"

definition coset_lde_full_expand ::
    "'f::field fft_field \<Rightarrow> ('f \<Rightarrow> 'e::field) \<Rightarrow> bool \<Rightarrow> nat \<Rightarrow> 'e list \<Rightarrow> nat \<Rightarrow> 'f list \<Rightarrow> 'f LayerTwiddles
      \<Rightarrow> 'f LayerTwiddles \<Rightarrow> (FFTError, 'e list) result option" where
  "coset_lde_full_expand FF emb parallel num_threads buffer blowup_factor weights inv_twiddles fwd_twiddles =
     (let n = length buffer
      in if n = 0 then Some (Inr buffer)
         else if n \<noteq> 2 ^ trailing_zeros n then Some (Inl (InputError n))
         else let lde_size = usize_mul n blowup_factor
              in if two_adicity FF < trailing_zeros lde_size then Some (Inl (DomainSizeError (trailing_zeros lde_size)))
                 else Option.bind (in_place_bit_reverse_permute buffer) (\<lambda>buffer.
                   obind (dispatch_ifft emb parallel num_threads inv_twiddles buffer) (\<lambda>buffer.
                   obind (dispatch_fft emb parallel num_threads fwd_twiddles
                     (vec_resize_with lde_size 0 (scale_weights emb weights buffer))) (\<lambda>buffer.
                   map_option Inr (in_place_bit_reverse_permute buffer)))))"

definition coset_lde_full_into ::
    "'f::field fft_field \<Rightarrow> ('f \<Rightarrow> 'e::field) \<Rightarrow> bool \<Rightarrow> nat \<Rightarrow> 'e list \<Rightarrow> nat \<Rightarrow> 'f list \<Rightarrow> 'f LayerTwiddles
      \<Rightarrow> 'f LayerTwiddles \<Rightarrow> (FFTError, 'e list) result option" where
  "coset_lde_full_into FF emb parallel num_threads evals blowup_factor weights inv_twiddles fwd_twiddles =
     (let n = length evals
      in if n = 0 then Some (Inr [])
         else if n \<noteq> 2 ^ trailing_zeros n then Some (Inl (InputError n))
         else let lde_size = usize_mul n blowup_factor
              in if two_adicity FF < trailing_zeros lde_size then Some (Inl (DomainSizeError (trailing_zeros lde_size)))
                 else let buffer = vec_resize_with lde_size 0 evals
                      in Option.bind (in_place_bit_reverse_permute (take n buffer)) (\<lambda>head.
                         obind (dispatch_ifft emb parallel num_threads inv_twiddles head) (\<lambda>head.
                         obind (dispatch_fft emb parallel num_threads fwd_twiddles
                           (scale_weights emb weights head @ drop n buffer)) (\<lambda>buffer.
                         map_option Inr (in_place_bit_reverse_permute buffer)))))"

definition coset_lde_full ::
    "'f::field fft_field \<Rightarrow> ('f \<Rightarrow> 'e::field) \<Rightarrow> bool \<Rightarrow> nat \<Rightarrow> 'e list \<Rightarrow> nat \<Rightarrow> 'f list \<Rightarrow> 'f LayerTwiddles
      \<Rightarrow> 'f LayerTwiddles \<Rightarrow> (FFTError, 'e list) result option" where
  "coset_lde_full FF emb parallel num_threads evals blowup_factor weights inv_twiddles fwd_twiddles =
     (if length evals = 0 then Some (Inr [])
      else coset_lde_full_into FF emb parallel num_threads evals blowup_factor weights inv_twiddles fwd_twiddles)"

section \<open>The value of a polynomial\<close>

definition poly_val :: "'a::field list \<Rightarrow> 'a \<Rightarrow> 'a" where
  "poly_val cs x = (\<Sum>i<length cs. cs ! i * x ^ i)"

lemma poly_val_Nil [simp]: "poly_val [] x = 0"
  by (simp add: poly_val_def)

lemma poly_val_Cons [simp]: "poly_val (c # cs) x = c + x * poly_val cs x"
  by (simp add: poly_val_def sum.lessThan_Suc_shift sum_distrib_left mult.left_commute del: sum.lessThan_Suc)

lemma poly_val_append: "poly_val (xs @ ys) x = poly_val xs x + x ^ length xs * poly_val ys x"
  by (induction xs) (simp_all add: algebra_simps)

lemma poly_val_zeros [simp]: "poly_val (replicate n 0) x = 0"
  by (induction n) simp_all

lemma poly_evaluate_val: "poly_evaluate emb cs x = poly_val (map emb cs) x"
  by (induction cs) (simp_all add: poly_evaluate_def mult.commute)

lemma poly_new_split: "\<exists>m. cs = poly_new cs @ replicate m 0"
proof -
  have "takeWhile (\<lambda>x. x = 0) (rev cs) = replicate (length (takeWhile (\<lambda>x. x = 0) (rev cs))) 0"
    by (rule replicate_eqI) (auto dest: set_takeWhileD)
  moreover have "cs = poly_new cs @ rev (takeWhile (\<lambda>x. x = 0) (rev cs))"
    unfolding poly_new_def rev_append [symmetric] takeWhile_dropWhile_id by simp
  ultimately show ?thesis by (metis rev_replicate)
qed

lemma poly_new_val [simp]: "poly_val (poly_new cs) x = poly_val cs x"
proof -
  obtain m where "cs = poly_new cs @ replicate m 0" using poly_new_split by blast
  then show ?thesis by (metis add.right_neutral mult_zero_right poly_val_append poly_val_zeros)
qed

lemma poly_val_resize: "length cs \<le> n \<Longrightarrow> poly_val (vec_resize_with n 0 cs) x = poly_val cs x"
  by (simp add: vec_resize_with_def poly_val_append)

lemma scale_loop_val:
  assumes "embeds emb"
  shows "poly_val (scale_loop emb f cs p) x = emb p * poly_val cs (emb f * x)"
proof (induction cs arbitrary: p)
  case (Cons c cs)
  have "emb (p * f) = emb p * emb f" using assms by (simp add: embeds_def)
  then show ?case using Cons by (simp add: algebra_simps)
qed simp

lemma poly_scale_val: "embeds emb \<Longrightarrow> poly_val (poly_scale emb f cs) x = poly_val cs (emb f * x)"
  by (simp add: poly_scale_def scale_loop_val) (simp add: embeds_def)

lemma length_poly_scale [simp]: "length (poly_scale emb f cs) = length cs"
proof -
  have "length (scale_loop emb f cs p) = length cs" for p by (induction cs arbitrary: p) simp_all
  then show ?thesis by (simp add: poly_scale_def)
qed

lemma scale_coeffs_val: "poly_val (scale_coeffs c cs) x = c * poly_val cs x"
  by (induction cs) (simp_all add: scale_coeffs_def algebra_simps)

lemma poly_val_update: "k < length cs \<Longrightarrow> poly_val (cs[k := v + cs ! k]) x = poly_val cs x + v * x ^ k"
proof (induction cs arbitrary: k)
  case (Cons c cs)
  then show ?case by (cases k) (simp_all add: algebra_simps)
qed simp

lemma poly_val_take: "m \<le> length cs \<Longrightarrow> poly_val (take m cs) x = (\<Sum>i<m. cs ! i * x ^ i)"
  by (simp add: poly_val_def)

lemma mul_inner:
  assumes "m \<le> length p" "i + length p \<le> length cs"
  shows "length (fold (\<lambda>j cs. if p ! j \<noteq> 0 then cs[i + j := a * p ! j + cs ! (i + j)] else cs) [0..<m] cs) = length cs \<and>
    poly_val (fold (\<lambda>j cs. if p ! j \<noteq> 0 then cs[i + j := a * p ! j + cs ! (i + j)] else cs) [0..<m] cs) x =
      poly_val cs x + a * x ^ i * poly_val (take m p) x"
  using assms(1)
proof (induction m)
  case (Suc m)
  let ?ys = "fold (\<lambda>j cs. if p ! j \<noteq> 0 then cs[i + j := a * p ! j + cs ! (i + j)] else cs) [0..<m] cs"
  have ys: "length ?ys = length cs" "poly_val ?ys x = poly_val cs x + a * x ^ i * poly_val (take m p) x" using Suc by simp_all
  have "poly_val (take (Suc m) p) x = poly_val (take m p) x + x ^ m * p ! m"
    using Suc.prems by (simp add: take_Suc_conv_app_nth poly_val_append)
  then show ?case using ys poly_val_update [of "i + m" ?ys "a * p ! m" x] Suc.prems assms(2)
    by (simp add: power_add algebra_simps)
qed simp

lemma mul_with_ref_val: "poly_val (mul_with_ref p q) x = poly_val p x * poly_val q x"
proof (cases "p = [] \<or> q = []")
  case True
  then show ?thesis by (auto simp: mul_with_ref_def)
next
  case False
  define zeros :: "'a list" where "zeros = replicate (poly_degree p + poly_degree q + 1) 0"
  define row where "row i cs = (if q ! i \<noteq> 0 then
      fold (\<lambda>j cs. if p ! j \<noteq> 0 then cs[i + j := q ! i * p ! j + cs ! (i + j)] else cs) [0..<length p] cs else cs)" for i cs
  have deg: "poly_degree p + 1 = length p" "poly_degree q + 1 = length q" using False by (auto simp: poly_degree_def)
  have "length (fold row [0..<m] zeros) = length zeros \<and>
      poly_val (fold row [0..<m] zeros) x = poly_val p x * poly_val (take m q) x" if "m \<le> length q" for m
    using that
  proof (induction m)
    case (Suc m)
    let ?ys = "fold row [0..<m] zeros"
    have ys: "length ?ys = length zeros" "poly_val ?ys x = poly_val p x * poly_val (take m q) x" using Suc by simp_all
    have "m + length p \<le> length zeros" using Suc.prems deg by (simp add: zeros_def)
    then have fits: "m + length p \<le> length ?ys" by (simp only: ys(1))
    have "poly_val (take (Suc m) q) x = poly_val (take m q) x + x ^ m * q ! m"
      using Suc.prems by (simp add: take_Suc_conv_app_nth poly_val_append)
    then show ?case using ys mul_inner [OF order_refl fits, of "q ! m" x] by (simp add: row_def [of m ?ys] algebra_simps)
  qed (simp add: zeros_def)
  from this [of "length q"] have "poly_val (fold row [0..<length q] zeros) x = poly_val p x * poly_val q x" by simp
  moreover have "mul_with_ref p q = poly_new (fold row [0..<length q] zeros)"
    using False unfolding mul_with_ref_def Let_def deg zeros_def row_def by (simp only: if_False)
  ultimately show ?thesis by simp
qed

lemma step_by_list_drop:
  assumes "0 < n"
  shows "step_by_list n (drop i cs) = (if i < length cs then cs ! i # step_by_list n (drop i (drop n cs)) else [])"
proof (cases "i < length cs")
  case True
  then have "drop i cs = cs ! i # drop (Suc i) cs" by (simp add: Cons_nth_drop_Suc)
  moreover have "drop (n - 1) (drop (Suc i) cs) = drop i (drop n cs)" using assms by (simp add: add.commute)
  ultimately show ?thesis using True by (subst step_by_list.simps) simp
next
  case False
  then show ?thesis by (subst step_by_list.simps) simp
qed

lemma step_parts_val:
  assumes "0 < n"
  shows "(\<Sum>i<n. x ^ i * poly_val (step_by_list n (drop i cs)) (x ^ n)) = poly_val cs x"
proof (induction cs rule: measure_induct_rule [of length])
  case (less cs)
  show ?case
  proof (cases "cs = []")
    case True
    then show ?thesis by (simp add: step_by_list.simps)
  next
    case False
    then have "length (drop n cs) < length cs" using assms by simp
    then have IH: "(\<Sum>i<n. x ^ i * poly_val (step_by_list n (drop i (drop n cs))) (x ^ n)) = poly_val (drop n cs) x"
      by (rule less)
    have "x ^ i * poly_val (step_by_list n (drop i cs)) (x ^ n) =
        (if i < length cs then cs ! i * x ^ i else 0) + x ^ n * (x ^ i * poly_val (step_by_list n (drop i (drop n cs))) (x ^ n))" for i
      using step_by_list_drop [OF assms, of i cs] step_by_list_drop [OF assms, of i "drop n cs"] by (auto simp: algebra_simps)
    then have "(\<Sum>i<n. x ^ i * poly_val (step_by_list n (drop i cs)) (x ^ n)) =
        (\<Sum>i<n. if i < length cs then cs ! i * x ^ i else 0) + x ^ n * poly_val (drop n cs) x"
      by (simp only: sum.distrib IH sum_distrib_left [symmetric])
    also have "(\<Sum>i<n. if i < length cs then cs ! i * x ^ i else 0) = poly_val (take n cs) x"
      by (simp add: poly_val_def sum.If_cases lessThan_def Int_def min_def) (auto intro!: sum.cong)
    also have "\<dots> + x ^ n * poly_val (drop n cs) x = poly_val cs x"
      using poly_val_append [of "take n cs" "drop n cs" x] by (cases "n \<le> length cs") auto
    finally show ?thesis .
  qed
qed

end
