(* ===== verification/Polynomial_Fft.thy ===== *)
theory Polynomial_Fft
  imports Polynomials
begin

text \<open>
  What the transforms of \<^verbatim>\<open>crypto/math/src/polynomial.rs\<close> compute.  The contract of a field with roots of unity
  is the locale \<open>fft_domain\<close>; in it the FFT gives the values of a polynomial on the domain of roots of unity, the
  inverse FFT the only polynomial with given values, the low-degree extension the values of that polynomial on a
  larger coset, and the barycentric formula its value at a point outside the domain.  The locale is interpreted
  on the Goldilocks field and on its cubic extension.
\<close>

section \<open>The domain of roots of unity\<close>

text \<open>The root of unity of order \<open>2 ^ k\<close>, the generator of the evaluation domain of that size.\<close>

definition domain_root :: "'f::field fft_field \<Rightarrow> nat \<Rightarrow> 'f" where
  "domain_root FF k = two_adic_root FF ^ 2 ^ (two_adicity FF - k)"

lemma funpow_square: "((\<lambda>x. x * x) ^^ n) (a :: 'a::field) = a ^ 2 ^ n"
  by (induction n) (simp_all add: mult_2 power_add)

lemma embeds_inverse: "embeds emb \<Longrightarrow> emb (inverse a) = inverse (emb a)"
proof (cases "a = 0")
  case False
  assume e: "embeds emb"
  then have "emb (inverse a * a) = emb (inverse a) * emb a" by (simp add: embeds_def)
  moreover have "emb (inverse a * a) = 1" using e False by (simp add: embeds_def)
  ultimately show ?thesis by (metis inverse_unique mult.commute)
qed (simp add: embeds_def)

lemma embeds_of_nat: "embeds emb \<Longrightarrow> emb (of_nat n) = of_nat n"
  by (induction n) (simp_all add: embeds_def)

lemma two_power_neq_0: "(2 :: 'a::field) \<noteq> 0 \<Longrightarrow> (of_nat (2 ^ k) :: 'a) \<noteq> 0"
  by simp

lemma length_dif_table: "length xs = 2 ^ k \<Longrightarrow> length (dif_layers sm (twiddle_table k w) xs) = 2 ^ k"
  using length_dif_layers [of xs 1 "twiddle_table k w" sm] by simp

lemma length_dit_table: "length xs = 2 ^ k \<Longrightarrow> length (dit_layers sm (twiddle_table k w) xs) = 2 ^ k"
  using length_dit_layers [of xs 1 "twiddle_table k w" sm] by simp

lemma dft_poly_val: "dft e xs i = poly_val xs (e ^ i)"
  by (simp add: dft_def poly_val_def power_mult)

lemma poly_val_map_mult: "poly_val (map ((*) c) cs) x = c * poly_val cs x"
  using scale_coeffs_val [of c cs x] by (simp add: scale_coeffs_def)

lemma map_mult_inverse: "c * d = 1 \<Longrightarrow> map ((*) c) (map ((*) d) xs) = xs" for c :: "'a::field"
  by (induction xs) (simp_all flip: mult.assoc)

lemma map_mult_inject: "map ((*) c) xs = map ((*) c) ys \<Longrightarrow> c \<noteq> 0 \<Longrightarrow> xs = ys" for c :: "'a::field"
  using map_mult_inverse [of "inverse c" c xs] map_mult_inverse [of "inverse c" c ys] by simp

lemma poly_new_map_mult: "c \<noteq> 0 \<Longrightarrow> poly_new (map ((*) c) cs) = map ((*) c) (poly_new cs)" for c :: "'a::field"
  by (simp add: poly_new_def dropWhile_map o_def rev_map)

lemma next_power_from_power: "\<exists>m. next_power_from (2 ^ k) n = 2 ^ m \<and> n \<le> 2 ^ m"
proof (induction "2 ^ k :: nat" n arbitrary: k rule: next_power_from.induct)
  case (1 n)
  show ?case
  proof (cases "n \<le> 2 ^ k")
    case True
    then show ?thesis by (auto simp: next_power_from.simps)
  next
    case False
    then show ?thesis using 1 [of "Suc k"] by (subst next_power_from.simps) simp
  qed
qed

lemma next_power_from_self: "j \<le> k \<Longrightarrow> next_power_from (2 ^ j) (2 ^ k) = 2 ^ k"
proof (induction "k - j" arbitrary: j)
  case 0
  then show ?case by (simp add: next_power_from.simps)
next
  case (Suc d)
  then have "d = k - Suc j" "Suc j \<le> k" by simp_all
  then have "next_power_from (2 ^ Suc j) (2 ^ k) = 2 ^ k" by (rule Suc.hyps)
  moreover have "(2 :: nat) ^ j < 2 ^ k" using Suc.hyps(2) by simp
  ultimately show ?case by (subst next_power_from.simps) simp
qed

lemma usize_mul_powers: "usize_mul (2 ^ m) (2 ^ b) = (if m + b < 64 then 2 ^ (m + b) else 0)"
proof (cases "m + b < 64")
  case False
  then have "(2 :: nat) ^ 64 dvd 2 ^ (m + b)" by (intro le_imp_power_dvd) simp
  then show ?thesis using False by (simp add: usize_mul_def power_add mod_eq_0_iff_dvd)
next
  case True
  then have "(2 :: nat) ^ (m + b) < 2 ^ 64" by (intro power_strict_increasing) simp_all
  then show ?thesis using True by (simp add: usize_mul_def power_add [symmetric])
qed

text \<open>The length of an evaluation: a power of two, or zero when that does not fit.\<close>

lemma fft_length:
  assumes "next_power_from 1 n * 2 ^ b = 2 ^ k"
  shows "usize_mul (next_power_of_two n) (2 ^ b) = (if k < 64 then 2 ^ k else 0)" "n \<le> 2 ^ k"
proof -
  obtain m where m: "next_power_from 1 n = 2 ^ m" "n \<le> 2 ^ m" using next_power_from_power [of 0 n] by auto
  have "(2 :: nat) ^ (m + b) = 2 ^ k" using assms m(1) by (simp add: power_add)
  then have k: "k = m + b" by simp
  have "(2 :: nat) ^ m \<le> 2 ^ k" unfolding k by (rule power_increasing) simp_all
  then show "n \<le> 2 ^ k" using m(2) by (rule order_trans [rotated])
  show "usize_mul (next_power_of_two n) (2 ^ b) = (if k < 64 then 2 ^ k else 0)"
  proof (cases "n \<le> 2 ^ 63")
    case True
    then show ?thesis using m usize_mul_powers [of m b] by (simp add: next_power_of_two_def k)
  next
    case False
    then have "(2 :: nat) ^ 63 < 2 ^ m" using m(2) by linarith
    then have "63 < m" by (rule power_less_imp_less_exp [rotated]) simp
    then show ?thesis using False by (simp add: next_power_of_two_def usize_mul_def k)
  qed
qed

lemma scale_weights_val:
  assumes "embeds emb" "length weights = length cs" "\<And>i. i < length cs \<Longrightarrow> weights ! i = c * offset ^ i"
  shows "poly_val (scale_weights emb weights cs) x = emb c * poly_val cs (emb offset * x)"
proof -
  have "length (scale_weights emb weights cs) = length cs" using assms(2) by (simp add: scale_weights_def)
  moreover have "scale_weights emb weights cs ! i * x ^ i = emb c * (cs ! i * (emb offset * x) ^ i)" if "i < length cs" for i
    using that assms by (simp add: scale_weights_def embeds_def embeds_power [OF assms(1)] power_mult_distrib)
  ultimately show ?thesis by (simp add: poly_val_def sum_distrib_left)
qed

text \<open>
  What the transforms ask of a field: the root of unity of the largest order, and an embedding of the
  field of the domain in the field of the values.
\<close>

locale fft_domain =
  fixes FF :: "'f::field fft_field" and emb :: "'f \<Rightarrow> 'e::field"
  assumes emb: "embeds emb"
    and adicity_pos: "0 < two_adicity FF"
    and adicity_bound: "two_adicity FF \<le> 63"
    and root_half: "two_adic_root FF ^ 2 ^ (two_adicity FF - 1) = - 1"
    and two_neq_0: "(2 :: 'e) \<noteq> 0"
begin

lemma domain_root_half: "0 < k \<Longrightarrow> k \<le> two_adicity FF \<Longrightarrow> domain_root FF k ^ 2 ^ (k - 1) = - 1"
  using root_half by (simp add: domain_root_def flip: power_mult power_add)

lemma domain_root_neq_0: "domain_root FF k \<noteq> 0"
proof
  assume "domain_root FF k = 0"
  then have "two_adic_root FF = 0" by (simp add: domain_root_def)
  then have "(0 :: 'f) = - 1" using root_half by (simp add: zero_power)
  then show False by simp
qed

lemma primitive_root_domain: "k \<le> two_adicity FF \<Longrightarrow> primitive_root FF k = Inr (domain_root FF k)"
proof (cases "k = 0")
  case True
  have "two_adic_root FF ^ 2 ^ two_adicity FF = (two_adic_root FF ^ 2 ^ (two_adicity FF - 1))\<^sup>2"
    using adicity_pos by (simp add: power2_eq_square flip: power_add mult_2 power_Suc)
  then show ?thesis using True root_half by (simp add: primitive_root_def domain_root_def)
qed (simp add: primitive_root_def domain_root_def funpow_square)

lemma twiddles_new_table:
  "k \<le> two_adicity FF \<Longrightarrow> twiddles_new FF k = Some \<lparr>layers = twiddle_table k (domain_root FF k)\<rparr>"
  using adicity_bound by (simp add: twiddles_new_def primitive_root_domain twiddles_build_table)

lemma twiddles_new_inverse_table:
  "k \<le> two_adicity FF \<Longrightarrow>
    twiddles_new_inverse FF k = Some \<lparr>layers = twiddle_table k (inverse (domain_root FF k))\<rparr>"
  using adicity_bound
  by (simp add: twiddles_new_inverse_def primitive_root_domain twiddles_build_table domain_root_neq_0)

lemma dispatch_fft_layers:
  "length xs = 2 ^ k \<Longrightarrow> dispatch_fft emb par threads \<lparr>layers = twiddle_table k w\<rparr> xs =
    Some (Inr (dif_layers (\<lambda>w x. emb w * x) (twiddle_table k w) xs))"
  by (simp add: dispatch_fft_def bowers_fft_runs_layers [OF twiddle_table_wf] bowers_fft_parallel_runs_layers [OF twiddle_table_wf])

lemma dispatch_ifft_layers:
  "length xs = 2 ^ k \<Longrightarrow> dispatch_ifft emb par threads \<lparr>layers = twiddle_table k w\<rparr> xs =
    Some (Inr (dit_layers (\<lambda>w x. emb w * x) (twiddle_table k w) xs))"
  by (simp add: dispatch_ifft_def bowers_ifft_runs_layers [OF twiddle_table_wf] bowers_ifft_parallel_runs_layers [OF twiddle_table_wf])

lemma dif_values:
  assumes "length xs = 2 ^ k" "k \<le> two_adicity FF" "i < 2 ^ k"
  shows "dif_layers (\<lambda>w x. emb w * x) (twiddle_table k (domain_root FF k)) xs ! bitrev k i =
    poly_val xs (emb (domain_root FF k) ^ i)"
  using dif_layers_dft [OF emb refl assms(1) _ assms(3)] domain_root_half [of k] assms(2)
  by (simp add: dft_poly_val)

text \<open>The forward transform and the permutation give the values on the domain, in order.\<close>

lemma fft_permute:
  assumes "length xs = 2 ^ k" "k \<le> two_adicity FF"
  shows "in_place_bit_reverse_permute (dif_layers (\<lambda>w x. emb w * x) (twiddle_table k (domain_root FF k)) xs) =
    Some (map (\<lambda>i. poly_val xs (emb (domain_root FF k) ^ i)) [0..<2 ^ k])"
proof -
  let ?ys = "dif_layers (\<lambda>w x. emb w * x) (twiddle_table k (domain_root FF k)) xs"
  have "length ?ys = 2 ^ k" using assms(1) by (rule length_dif_table)
  moreover have "map (\<lambda>i. ?ys ! bitrev k i) [0..<2 ^ k] = map (\<lambda>i. poly_val xs (emb (domain_root FF k) ^ i)) [0..<2 ^ k]"
    using dif_values [OF assms] by simp
  moreover have "k \<le> 64" using assms(2) adicity_bound by simp
  ultimately show ?thesis using bit_reverse_permute by metis
qed

lemma evaluate_raw:
  assumes "length xs = 2 ^ k" "k \<le> two_adicity FF"
  shows "evaluate_fft_cpu_raw FF emb par threads xs True =
    Some (Inr (map (\<lambda>i. poly_val xs (emb (domain_root FF k) ^ i)) [0..<2 ^ k]))"
  using assms fft_permute [OF assms] dispatch_fft_layers [OF assms(1)]
  by (simp add: evaluate_fft_cpu_raw_def trailing_zeros_power twiddles_new_table obind_def)

text \<open>The permutation and the inverse transform give \<open>2 ^ k\<close> times the coefficients of the interpolation.\<close>

lemma ifft_interpolates:
  assumes "length evals = 2 ^ k" "k \<le> two_adicity FF"
  obtains cs where "length cs = 2 ^ k"
    "map (\<lambda>i. poly_val cs (emb (domain_root FF k) ^ i)) [0..<2 ^ k] = evals"
    "Option.bind (in_place_bit_reverse_permute evals) (dispatch_ifft emb par threads
       \<lparr>layers = twiddle_table k (inverse (domain_root FF k))\<rparr>) = Some (Inr (map ((*) (2 ^ k)) cs))"
proof -
  let ?w = "domain_root FF k"
  let ?ps = "map (\<lambda>i. evals ! bitrev k i) [0..<2 ^ k]"
  let ?ds = "dit_layers (\<lambda>w x. emb w * x) (twiddle_table k (inverse ?w)) ?ps"
  let ?cs = "map ((*) (inverse (2 ^ k))) ?ds"
  have len: "length ?ps = 2 ^ k" "length ?ds = 2 ^ k" by (simp, rule length_dit_table, simp)
  have n: "(2 ^ k :: 'e) \<noteq> 0" using two_neq_0 by simp
  have "poly_val ?ds (emb ?w ^ i) = 2 ^ k * evals ! i" if "i < 2 ^ k" for i
  proof -
    have "poly_val ?ds (emb ?w ^ i) = map ((*) (2 ^ k)) ?ps ! bitrev k i"
      using dif_values [OF len(2) assms(2) that] dif_dit_layers [OF emb refl domain_root_neq_0, of ?ps 1 k k] len(1) by simp
    then show ?thesis using that by (simp add: bitrev_less bitrev_bitrev)
  qed
  then have "poly_val ?cs (emb ?w ^ i) = evals ! i" if "i < 2 ^ k" for i
    using that n by (simp only: poly_val_map_mult) simp
  then have "map (\<lambda>i. poly_val ?cs (emb ?w ^ i)) [0..<2 ^ k] = evals"
    using assms(1) by (intro nth_equalityI) simp_all
  moreover have "map ((*) (2 ^ k)) ?cs = ?ds" using n map_mult_inverse [of "2 ^ k" "inverse (2 ^ k)" ?ds] by simp
  moreover have "in_place_bit_reverse_permute evals = Some ?ps"
    using bit_reverse_permute [OF assms(1)] assms(2) adicity_bound by simp
  ultimately show thesis using that [of ?cs] len dispatch_ifft_layers [OF len(1)] by simp
qed

text \<open>The coefficients are determined by the values.\<close>

lemma values_determine:
  assumes "length cs = 2 ^ k" "length ds = 2 ^ k" "k \<le> two_adicity FF"
    "map (\<lambda>i. poly_val cs (emb (domain_root FF k) ^ i)) [0..<2 ^ k] = map (\<lambda>i. poly_val ds (emb (domain_root FF k) ^ i)) [0..<2 ^ k]"
  shows "cs = ds"
proof -
  let ?dif = "dif_layers (\<lambda>w x. emb w * x) (twiddle_table k (domain_root FF k))"
  have "?dif cs ! j = ?dif ds ! j" if "j < 2 ^ k" for j
  proof -
    have "bitrev k j \<in> set [0..<2 ^ k]" using bitrev_less by simp
    with assms(4) have "poly_val cs (emb (domain_root FF k) ^ bitrev k j) = poly_val ds (emb (domain_root FF k) ^ bitrev k j)"
      by (simp only: map_eq_conv)
    then show ?thesis
      using dif_values [OF assms(1,3) bitrev_less] dif_values [OF assms(2,3) bitrev_less] bitrev_bitrev [OF that] by metis
  qed
  moreover have "length (?dif cs) = 2 ^ k" "length (?dif ds) = 2 ^ k"
    using assms(1,2) by (simp_all add: length_dif_table)
  ultimately have "?dif cs = ?dif ds" by (simp add: nth_equalityI)
  then have "map ((*) (2 ^ k)) cs = map ((*) (2 ^ k)) ds"
    using dit_dif_layers [OF emb refl domain_root_neq_0, of cs 1 k k] dit_dif_layers [OF emb refl domain_root_neq_0, of ds 1 k k]
      assms(1,2) by simp
  then show ?thesis using two_neq_0 by (auto intro!: map_mult_inject)
qed

lemma interpolate:
  assumes "length evals = 2 ^ k" "k \<le> two_adicity FF"
  obtains cs where "length cs = 2 ^ k"
    "map (\<lambda>i. poly_val cs (emb (domain_root FF k) ^ i)) [0..<2 ^ k] = evals"
    "interpolate_fft FF emb par threads evals = Some (Inr (poly_new cs))"
proof -
  obtain cs where cs: "length cs = 2 ^ k" "map (\<lambda>i. poly_val cs (emb (domain_root FF k) ^ i)) [0..<2 ^ k] = evals"
    "Option.bind (in_place_bit_reverse_permute evals) (dispatch_ifft emb par threads
       \<lparr>layers = twiddle_table k (inverse (domain_root FF k))\<rparr>) = Some (Inr (map ((*) (2 ^ k)) cs))"
    using ifft_interpolates [OF assms] by blast
  have "scale_coeffs (inverse (2 ^ k)) (poly_new (map ((*) (2 ^ k)) cs)) = poly_new cs"
    using two_neq_0 by (simp add: poly_new_map_mult scale_coeffs_def map_mult_inverse del: map_map)
  then have "interpolate_fft FF emb par threads evals = Some (Inr (poly_new cs))"
    using cs(3) assms two_neq_0
    by (auto simp: interpolate_fft_def trailing_zeros_power twiddles_new_inverse_table obind_def bind_eq_Some_conv)
  then show thesis using cs(1,2) that by blast
qed

lemma coset_lde:
  assumes "length evals = 2 ^ k" "k + b \<le> two_adicity FF"
    "weights = map (\<lambda>i. inverse (of_nat (2 ^ k)) * offset ^ i) [0..<2 ^ k]"
    "twiddles_new_inverse FF k = Some inv_twiddles" "twiddles_new FF (k + b) = Some fwd_twiddles"
    and ad: "two_adicity FF < 64"
  obtains cs where "length cs = 2 ^ k" "map (\<lambda>i. poly_val cs (emb (domain_root FF k) ^ i)) [0..<2 ^ k] = evals"
    "coset_lde_full_into FF emb par threads evals (2 ^ b) weights inv_twiddles fwd_twiddles =
      Some (Inr (map (\<lambda>i. poly_val cs (emb offset * emb (domain_root FF (k + b)) ^ i)) [0..<2 ^ (k + b)]))"
proof -
  have k: "k \<le> two_adicity FF" using assms(2) by simp
  obtain cs where cs: "length cs = 2 ^ k" "map (\<lambda>i. poly_val cs (emb (domain_root FF k) ^ i)) [0..<2 ^ k] = evals"
    "Option.bind (in_place_bit_reverse_permute evals) (dispatch_ifft emb par threads
       \<lparr>layers = twiddle_table k (inverse (domain_root FF k))\<rparr>) = Some (Inr (map ((*) (2 ^ k)) cs))"
    using ifft_interpolates [OF assms(1) k] by blast
  have tw: "inv_twiddles = \<lparr>layers = twiddle_table k (inverse (domain_root FF k))\<rparr>"
    "fwd_twiddles = \<lparr>layers = twiddle_table (k + b) (domain_root FF (k + b))\<rparr>"
    using assms(2,4,5) by (simp_all add: twiddles_new_table twiddles_new_inverse_table)
  let ?zs = "scale_weights emb weights (map ((*) (2 ^ k)) cs)"
  let ?buf = "?zs @ replicate (2 ^ k * 2 ^ b - 2 ^ k) 0"
  have "length ?zs = 2 ^ k" using cs(1) assms(3) by (simp add: scale_weights_def)
  then have len: "length ?buf = 2 ^ (k + b)" by (simp add: power_add)
  have "emb (inverse (of_nat (2 ^ k))) = inverse (2 ^ k)"
    using embeds_inverse [OF emb] embeds_of_nat [OF emb, of "2 ^ k"] by simp
  then have val: "poly_val ?buf x = poly_val cs (emb offset * x)" for x
    using scale_weights_val [OF emb, of weights "map ((*) (2 ^ k)) cs" "inverse (of_nat (2 ^ k))" offset x] cs(1) assms(3) two_neq_0
    by (simp add: poly_val_append poly_val_map_mult)
  have "coset_lde_full_into FF emb par threads evals (2 ^ b) weights inv_twiddles fwd_twiddles =
      obind (dispatch_fft emb par threads fwd_twiddles ?buf) (\<lambda>buffer. map_option Inr (in_place_bit_reverse_permute buffer))"
    using cs(3) assms(1,2) ad trailing_zeros_power [of "k + b"] usize_mul_powers [of k b]
    by (auto simp: coset_lde_full_into_def Let_def trailing_zeros_power tw obind_def bind_eq_Some_conv vec_resize_with_def
        power_add)
  then show thesis using that [OF cs(1,2)] dispatch_fft_layers [OF len] fft_permute [OF len assms(2)]
    by (simp add: tw obind_def val)
qed

lemma evaluate:
  assumes "next_power_from 1 (max (length poly) (case domain_size of None \<Rightarrow> 0 | Some d \<Rightarrow> d)) * 2 ^ b = 2 ^ k"
    and ad: "two_adicity FF < 64"
  shows "evaluate_fft FF emb par threads poly (2 ^ b) domain_size =
    Some (if k \<le> two_adicity FF then Inr (map (\<lambda>i. poly_val poly (emb (domain_root FF k) ^ i)) [0..<2 ^ k])
      else Inl (DomainSizeError (min k 64)))"
proof -
  let ?n = "max (length poly) (case domain_size of None \<Rightarrow> 0 | Some d \<Rightarrow> d)"
  note l = fft_length [OF assms(1)]
  have z: "trailing_zeros 0 = 64" by (subst trailing_zeros.simps) simp
  have "length poly \<le> 2 ^ k" using l(2) by simp
  moreover from this have "length (vec_resize_with (2 ^ k) 0 poly) = 2 ^ k" by (simp add: vec_resize_with_def)
  ultimately show ?thesis using ad evaluate_raw [of "vec_resize_with (2 ^ k) 0 poly" k par threads]
    unfolding evaluate_fft_def Let_def l(1)
    by (cases "poly = []"; cases "k < 64") (simp_all add: z trailing_zeros_power poly_val_resize map_replicate_const)
qed

end

section \<open>Barycentric evaluation on a coset\<close>

lemma odd_part: "0 < n \<Longrightarrow> \<exists>t r. n = 2 ^ t * r \<and> odd r" for n :: nat
proof (induction n rule: less_induct)
  case (less n)
  show ?case
  proof (cases "odd n")
    case True
    then show ?thesis by (intro exI [of _ 0] exI [of _ n]) simp
  next
    case False
    then obtain m where m: "n = 2 * m" by (auto elim: evenE)
    then obtain t r where "m = 2 ^ t * r" "odd r" using less.IH [of m] less.prems by auto
    then show ?thesis using m by (intro exI [of _ "Suc t"] exI [of _ r]) simp
  qed
qed

lemma power_of_root_neq_1:
  fixes w :: "'a::field"
  assumes "(2 :: 'a) \<noteq> 0" "w ^ 2 ^ (k - 1) = - 1" "0 < e" "e < 2 ^ k"
  shows "w ^ e \<noteq> 1"
proof
  assume one: "w ^ e = 1"
  obtain t r where e: "e = 2 ^ t * r" "odd r" using odd_part [OF assms(3)] by blast
  have "2 ^ t \<le> e" using e assms(3) by (cases r) auto
  then have "(2 :: nat) ^ t < 2 ^ k" using assms(4) by (rule order.strict_trans1)
  then have t: "t \<le> k - 1" "k \<noteq> 0" by (auto simp: power_strict_increasing_iff intro!: Suc_leI)
  have "e * 2 ^ (k - 1 - t) = 2 ^ (t + (k - 1 - t)) * r" unfolding e(1) power_add by simp
  also have "t + (k - 1 - t) = k - 1" using t(1) by simp
  finally have "e * 2 ^ (k - 1 - t) = 2 ^ (k - 1) * r" .
  then have "(w ^ e) ^ 2 ^ (k - 1 - t) = (w ^ 2 ^ (k - 1)) ^ r" by (simp flip: power_mult)
  then have "(1 :: 'a) = - 1" using one assms(2) e(2) by simp
  then show False using assms(1) by (simp add: eq_neg_iff_add_eq_0)
qed

lemma geometric_root_sum:
  fixes w :: "'a::field"
  assumes "w ^ n = 1" "w ^ e \<noteq> 1"
  shows "(\<Sum>i<n. w ^ (i * e)) = 0"
proof -
  have "(w ^ e - 1) * (\<Sum>i<n. (w ^ e) ^ i) = (w ^ e) ^ n - 1" by (rule power_diff_1_eq [symmetric])
  also have "(w ^ e) ^ n = 1" using assms(1) by (metis power_mult mult.commute power_one)
  finally show ?thesis using assms(2) by (simp add: mult.commute flip: power_mult)
qed

lemma barycentric_sum:
  fixes x :: "nat \<Rightarrow> 'a::field"
  assumes pts: "\<And>i. i < n \<Longrightarrow> x i ^ n = h" and sep: "\<And>i. i < n \<Longrightarrow> z \<noteq> x i"
    and orth: "\<And>e. 0 < e \<Longrightarrow> e < 2 * n \<Longrightarrow> e \<noteq> n \<Longrightarrow> (\<Sum>i<n. x i ^ e) = 0" and len: "length cs = n"
  shows "(z ^ n - h) * (\<Sum>i<n. x i * poly_val cs (x i) * inverse (z - x i)) = of_nat n * h * poly_val cs z"
proof -
  have quot: "(z ^ n - h) * inverse (z - x i) = (\<Sum>j<n. z ^ j * x i ^ (n - Suc j))" if "i < n" for i
  proof -
    have "z ^ n - x i ^ n = (z - x i) * (\<Sum>j<n. x i ^ (n - Suc j) * z ^ j)" by (rule power_diff_sumr2)
    then show ?thesis using pts [OF that] sep [OF that] by (simp add: mult.commute)
  qed
  have orth': "(\<Sum>i<n. x i ^ (n + m - j)) = (if m = j then of_nat n * h else 0)" if "m < n" "j < n" for m j
    using that orth [of "n + m - j"] pts by (cases "m = j") simp_all
  have "(z ^ n - h) * (\<Sum>i<n. x i * poly_val cs (x i) * inverse (z - x i)) =
      (\<Sum>i<n. x i * poly_val cs (x i) * (\<Sum>j<n. z ^ j * x i ^ (n - Suc j)))"
    unfolding sum_distrib_left [of "z ^ n - h"] by (intro sum.cong) (simp_all add: ac_simps flip: quot)
  also have "\<dots> = (\<Sum>i<n. \<Sum>j<n. \<Sum>m<n. cs ! m * z ^ j * x i ^ (n + m - j))"
  proof (intro sum.cong refl)
    fix i assume "i \<in> {..<n}"
    have pow: "x i * (x i ^ m * x i ^ (n - Suc j)) = x i ^ (m + n - j)" if "j < n" for m j
    proof -
      have "m + n - j = Suc (m + (n - Suc j))" using that by simp
      then show ?thesis by (simp only: power_add power_Suc mult.assoc)
    qed
    show "x i * poly_val cs (x i) * (\<Sum>j<n. z ^ j * x i ^ (n - Suc j)) = (\<Sum>j<n. \<Sum>m<n. cs ! m * z ^ j * x i ^ (n + m - j))"
      unfolding poly_val_def len sum_distrib_left sum_distrib_right
      by (intro sum.cong refl) (simp add: ac_simps pow)
  qed
  also have "\<dots> = (\<Sum>j<n. \<Sum>i<n. \<Sum>m<n. cs ! m * z ^ j * x i ^ (n + m - j))" by (rule sum.swap)
  also have "\<dots> = (\<Sum>j<n. \<Sum>m<n. \<Sum>i<n. cs ! m * z ^ j * x i ^ (n + m - j))"
    by (intro sum.cong refl sum.swap)
  also have "\<dots> = (\<Sum>j<n. \<Sum>m<n. if m = j then cs ! j * z ^ j * (of_nat n * h) else 0)"
    by (intro sum.cong refl) (auto simp: orth' simp flip: sum_distrib_left)
  also have "\<dots> = of_nat n * h * poly_val cs z"
    by (simp add: poly_val_def len sum_distrib_left ac_simps)
  finally show ?thesis .
qed

context fft_domain
begin

lemma domain_root_full: "k \<le> two_adicity FF \<Longrightarrow> domain_root FF k ^ 2 ^ k = 1"
  using primitive_root_domain [of 0] by (simp add: primitive_root_def domain_root_def flip: power_mult power_add)

lemma emb_domain_root_full: "k \<le> two_adicity FF \<Longrightarrow> emb (domain_root FF k) ^ 2 ^ k = 1"
  using domain_root_full [of k] embeds_power [OF emb, of "domain_root FF k" "2 ^ k"] emb by (simp add: embeds_def)

lemma emb_domain_root_neq_1:
  assumes "k \<le> two_adicity FF" "0 < e" "e < 2 ^ k"
  shows "emb (domain_root FF k) ^ e \<noteq> 1"
proof (rule power_of_root_neq_1 [OF two_neq_0 _ assms(2,3)])
  have "0 < k" using assms(2,3) by (cases k) auto
  from domain_root_half [OF this assms(1)] have "emb (domain_root FF k ^ 2 ^ (k - 1)) = emb (- 1)" by simp
  then show "emb (domain_root FF k) ^ 2 ^ (k - 1) = - 1" by (simp add: embeds_power [OF emb] embeds_minus_one [OF emb])
qed

lemma coset_orthogonal:
  assumes "k \<le> two_adicity FF" "0 < e" "e < 2 * 2 ^ k" "e \<noteq> 2 ^ k"
  shows "(\<Sum>i<2 ^ k. (emb (domain_root FF k) ^ i) ^ e) = 0"
proof -
  have "emb (domain_root FF k) ^ e \<noteq> 1"
  proof (cases "e < 2 ^ k")
    case True
    then show ?thesis using emb_domain_root_neq_1 assms by simp
  next
    case False
    then have "emb (domain_root FF k) ^ (e - 2 ^ k + 2 ^ k) \<noteq> 1"
      unfolding power_add emb_domain_root_full [OF assms(1)] using emb_domain_root_neq_1 [OF assms(1)] assms by simp
    then show ?thesis using False by simp
  qed
  then show ?thesis using geometric_root_sum [OF emb_domain_root_full [OF assms(1)]] by (simp flip: power_mult)
qed

lemma barycentric_eval:
  assumes "length cs = 2 ^ k" "k \<le> two_adicity FF" "g \<noteq> 0"
    "points = map (\<lambda>i. g * domain_root FF k ^ i) [0..<2 ^ k]"
    "barycentric_inv_denoms emb z points = Some inv_denoms"
  shows "interpolate_coset_eval_ext_with_g_n_inv emb (z ^ 2 ^ k) (g ^ 2 ^ k) (inverse (of_nat (2 ^ k))) (inverse (g ^ 2 ^ k))
    points (map (\<lambda>p. poly_val cs (emb p)) points) inv_denoms = poly_val cs z"
proof -
  let ?n = "2 ^ k :: nat" and ?x = "\<lambda>i. emb g * emb (domain_root FF k) ^ i"
  have x: "emb (points ! i) = ?x i" if "i < ?n" for i
    using that emb by (simp add: assms(4) embeds_def embeds_power [OF emb])
  have inv: "inv_denoms = map (\<lambda>p. inverse (z - emb p)) points" and sep: "\<forall>p\<in>set points. z \<noteq> emb p"
    using assms(5) by (auto simp: barycentric_inv_denoms_def batch_inverse_values_def split: if_splits)
  have "foldl (\<lambda>acc ((point, eval), inv_d). acc + emb point * eval * inv_d) a
      (zip (zip ps (map (\<lambda>p. poly_val cs (emb p)) ps)) (map (\<lambda>p. inverse (z - emb p)) ps)) =
      a + (\<Sum>p\<leftarrow>ps. emb p * poly_val cs (emb p) * inverse (z - emb p))" for a ps
    by (induction ps arbitrary: a) (simp_all add: add.assoc)
  moreover have "(\<Sum>p\<leftarrow>points. emb p * poly_val cs (emb p) * inverse (z - emb p)) =
      (\<Sum>i<?n. ?x i * poly_val cs (?x i) * inverse (z - ?x i))"
    using x by (simp add: assms(4) sum_list_sum_nth atLeast0LessThan)
  moreover have "(z ^ ?n - emb g ^ ?n) * (\<Sum>i<?n. ?x i * poly_val cs (?x i) * inverse (z - ?x i)) =
      of_nat ?n * emb g ^ ?n * poly_val cs z"
  proof (rule barycentric_sum)
    show "?x i ^ ?n = emb g ^ ?n" for i
      using emb_domain_root_full [OF assms(2)] by (simp add: power_mult_distrib mult.commute [of i] power_mult flip: power_mult)
        (simp add: power_mult)
    show "z \<noteq> ?x i" if "i < ?n" for i
    proof -
      have "points ! i \<in> set points" using that assms(4) by (simp only: nth_mem length_map length_upt diff_zero)
      then show ?thesis using sep x [OF that] by metis
    qed
    show "(\<Sum>i<?n. ?x i ^ e) = 0" if "0 < e" "e < 2 * ?n" "e \<noteq> ?n" for e
      using coset_orthogonal [OF assms(2) that] by (simp add: power_mult_distrib flip: sum_distrib_left)
  qed (use assms(1) in simp)
  moreover have "emb g ^ ?n \<noteq> 0"
    using assms(3) embeds_inverse [OF emb, of g] emb by (metis embeds_def field_class.field_inverse mult_zero_right power_not_zero zero_neq_one)
  moreover have "emb (inverse (of_nat ?n) * inverse (g ^ ?n)) = inverse (of_nat ?n) * inverse (emb g ^ ?n)"
    using emb by (simp add: embeds_inverse [OF emb] embeds_power [OF emb] embeds_def flip: embeds_of_nat [OF emb])
  moreover have "(of_nat ?n :: 'e) \<noteq> 0" using two_neq_0 by simp
  moreover have "inverse a * inverse b * (a * b * c) = c" if "a \<noteq> 0" "b \<noteq> 0" for a b c :: 'e
    using that by (simp add: field_simps)
  ultimately show ?thesis
    unfolding interpolate_coset_eval_ext_with_g_n_inv_def Let_def inv embeds_power [OF emb] by (simp only: add_0)
qed

end

section \<open>The Goldilocks domain\<close>

text \<open>The domain is in the base field; the values are in the base field or in its cubic extension.\<close>

definition goldilocks_fft :: "gf fft_field" where
  "goldilocks_fft = \<lparr>two_adicity = unat TWO_ADICITY, two_adic_root = gl_val TWO_ADIC_PRIMITVE_ROOT_OF_UNITY\<rparr>"

definition gf3_of :: "gf \<Rightarrow> gf3" where "gf3_of a = Gf3 a 0 0"

lemma goldilocks_two_adicity [simp]: "two_adicity goldilocks_fft = 32"
  by (simp add: goldilocks_fft_def two_adicity_value)

lemma gf3_two_neq_0: "(2 :: gf3) \<noteq> 0"
proof
  assume "(2 :: gf3) = 0"
  then have "(1 + 1 :: gf3) = 0" by simp
  then have "(1 + 1 :: gf) = 0" by (simp add: one_gf3_def plus_gf3_def zero_gf3_def)
  then show False using gf_one_neq_minus_one by (simp add: eq_neg_iff_add_eq_0)
qed

interpretation fft1: fft_domain goldilocks_fft "\<lambda>a :: gf. a"
  by unfold_locales
    (use two_adic_root_half gf_one_neq_minus_one in \<open>simp_all add: embeds_def goldilocks_fft_def two_adicity_value eq_neg_iff_add_eq_0\<close>)

interpretation fft3: fft_domain goldilocks_fft gf3_of
  by unfold_locales
    (use two_adic_root_half gf3_two_neq_0 in \<open>simp_all add: embeds_def goldilocks_fft_def two_adicity_value gf3_of_def
      zero_gf3_def one_gf3_def plus_gf3_def times_gf3_def\<close>)

section \<open>Properties\<close>

text \<open>
  C36: \<open>evaluate_fft\<close> pads the coefficients to the next power of two of the larger of their number and the domain
  size, times the blowup factor, and gives the value of the polynomial at every root of unity of that order, in
  order, for every number of threads; an order above 32 is an error.  The error reports the order, or 64 when the
  length does not fit a machine word and wraps to zero: no input makes the wrapped length pass for a valid one.
\<close>

theorem evaluate_fft_values:
  "\<exists>k. next_power_from 1 (max (length poly) d) * 2 ^ b = 2 ^ k \<and>
     evaluate_fft goldilocks_fft gf3_of par threads poly (2 ^ b) (Some d) =
       Some (if k \<le> 32 then Inr (map (\<lambda>i. poly_val poly (gf3_of (domain_root goldilocks_fft k) ^ i)) [0..<2 ^ k])
             else Inl (DomainSizeError (min k 64)))"
proof -
  obtain m where "next_power_from 1 (max (length poly) d) = 2 ^ m" using next_power_from_power [of 0] by auto
  then have "next_power_from 1 (max (length poly) d) * 2 ^ b = 2 ^ (m + b)" by (simp add: power_add)
  then show ?thesis using fft3.evaluate [of poly "Some d" b "m + b" par threads] by auto
qed

lemma poly_new_length: "length (poly_new cs) \<le> length cs"
  using length_dropWhile_le [of _ "rev cs"] by (simp add: poly_new_def)

text \<open>
  C37: interpolation inverts evaluation.  On \<open>2 ^ k\<close> values, \<open>k \<le> 32\<close>, \<open>interpolate_fft\<close> gives the coefficients,
  without trailing zeros, of the only polynomial of at most \<open>2 ^ k\<close> coefficients that \<open>evaluate_fft\<close> maps back to the values.
\<close>

theorem interpolate_fft_roundtrip:
  assumes "length evals = 2 ^ k" "k \<le> 32"
  shows "\<exists>cs. length cs = 2 ^ k \<and>
    interpolate_fft goldilocks_fft gf3_of par threads evals = Some (Inr (poly_new cs)) \<and>
    evaluate_fft goldilocks_fft gf3_of par' threads' (poly_new cs) 1 (Some (2 ^ k)) = Some (Inr evals) \<and>
    {ds. length ds = 2 ^ k \<and> map (\<lambda>i. poly_val ds (gf3_of (domain_root goldilocks_fft k) ^ i)) [0..<2 ^ k] = evals} = {cs}"
proof -
  have k: "k \<le> two_adicity goldilocks_fft" using assms(2) by simp
  obtain cs where cs: "length cs = 2 ^ k"
    "map (\<lambda>i. poly_val cs (gf3_of (domain_root goldilocks_fft k) ^ i)) [0..<2 ^ k] = evals"
    "interpolate_fft goldilocks_fft gf3_of par threads evals = Some (Inr (poly_new cs))"
    using fft3.interpolate [OF assms(1) k] by blast
  have "max (length (poly_new cs)) (2 ^ k) = 2 ^ k" using poly_new_length [of cs] cs(1) by simp
  then have "evaluate_fft goldilocks_fft gf3_of par' threads' (poly_new cs) 1 (Some (2 ^ k)) = Some (Inr evals)"
    using fft3.evaluate [of "poly_new cs" "Some (2 ^ k)" 0 k par' threads'] assms(2) cs(2) next_power_from_self [of 0 k] by simp
  moreover have "{ds. length ds = 2 ^ k \<and>
      map (\<lambda>i. poly_val ds (gf3_of (domain_root goldilocks_fft k) ^ i)) [0..<2 ^ k] = evals} = {cs}"
  proof (intro equalityI subsetI)
    fix ds assume "ds \<in> {ds. length ds = 2 ^ k \<and>
      map (\<lambda>i. poly_val ds (gf3_of (domain_root goldilocks_fft k) ^ i)) [0..<2 ^ k] = evals}"
    then show "ds \<in> {cs}" using fft3.values_determine [OF _ cs(1) k, of ds] cs(2) by (simp only: mem_Collect_eq singleton_iff)
  qed (use cs in simp)
  ultimately show ?thesis using cs(1,3) by blast
qed

theorem interpolate_fft_roundtrip_witness:
  "\<exists>cs. length cs = 2 ^ 1 \<and>
    interpolate_fft goldilocks_fft gf3_of False 1 [3, 5] = Some (Inr (poly_new cs)) \<and>
    evaluate_fft goldilocks_fft gf3_of True 4 (poly_new cs) 1 (Some (2 ^ 1)) = Some (Inr [3, 5]) \<and>
    {ds. length ds = 2 ^ 1 \<and> map (\<lambda>i. poly_val ds (gf3_of (domain_root goldilocks_fft 1) ^ i)) [0..<2 ^ 1] = [3, 5]} = {cs}"
  by (rule interpolate_fft_roundtrip) simp_all

text \<open>
  C38: the low-degree extension.  From the \<open>2 ^ k\<close> values of a trace column, the weights \<open>offset ^ i / 2 ^ k\<close> and the
  twiddle tables, \<open>coset_lde_full\<close> gives the values, at the points \<open>offset * w ^ i\<close> of the coset of order \<open>2 ^ (k + b)\<close>,
  of the polynomial of \<open>2 ^ k\<close> coefficients that has the given values on the domain.
\<close>

theorem coset_lde_values:
  assumes "length evals = 2 ^ k" "k + b \<le> 32"
    "weights = map (\<lambda>i. inverse (of_nat (2 ^ k)) * offset ^ i) [0..<2 ^ k]"
    "twiddles_new_inverse goldilocks_fft k = Some inv_twiddles" "twiddles_new goldilocks_fft (k + b) = Some fwd_twiddles"
  shows "\<exists>cs. length cs = 2 ^ k \<and> map (\<lambda>i. poly_val cs (domain_root goldilocks_fft k ^ i)) [0..<2 ^ k] = evals \<and>
    coset_lde_full goldilocks_fft (\<lambda>a. a) par threads evals (2 ^ b) weights inv_twiddles fwd_twiddles =
      Some (Inr (map (\<lambda>i. poly_val cs (offset * domain_root goldilocks_fft (k + b) ^ i)) [0..<2 ^ (k + b)]))"
proof -
  have "k + b \<le> two_adicity goldilocks_fft" "two_adicity goldilocks_fft < 64" using assms(2) by simp_all
  then obtain cs where "length cs = 2 ^ k" "map (\<lambda>i. poly_val cs (domain_root goldilocks_fft k ^ i)) [0..<2 ^ k] = evals"
    "coset_lde_full_into goldilocks_fft (\<lambda>a. a) par threads evals (2 ^ b) weights inv_twiddles fwd_twiddles =
      Some (Inr (map (\<lambda>i. poly_val cs (offset * domain_root goldilocks_fft (k + b) ^ i)) [0..<2 ^ (k + b)]))"
    using fft1.coset_lde [OF assms(1) _ assms(3-5)] by blast
  then show ?thesis using assms(1) by (auto simp: coset_lde_full_def)
qed

theorem coset_lde_values_witness:
  "\<exists>inv_twiddles fwd_twiddles cs.
    twiddles_new_inverse goldilocks_fft 1 = Some inv_twiddles \<and> twiddles_new goldilocks_fft (1 + 2) = Some fwd_twiddles \<and>
    length cs = 2 ^ 1 \<and> map (\<lambda>i. poly_val cs (domain_root goldilocks_fft 1 ^ i)) [0..<2 ^ 1] = [3, 5] \<and>
    coset_lde_full goldilocks_fft (\<lambda>a. a) True 4 [3, 5] (2 ^ 2)
        (map (\<lambda>i. inverse (of_nat (2 ^ 1)) * 7 ^ i) [0..<2 ^ 1]) inv_twiddles fwd_twiddles =
      Some (Inr (map (\<lambda>i. poly_val cs (7 * domain_root goldilocks_fft (1 + 2) ^ i)) [0..<2 ^ (1 + 2)]))"
proof -
  obtain inv_twiddles where i: "twiddles_new_inverse goldilocks_fft 1 = Some inv_twiddles"
    using fft1.twiddles_new_inverse_table [of 1] by simp
  obtain fwd_twiddles where f: "twiddles_new goldilocks_fft (1 + 2) = Some fwd_twiddles"
    using fft1.twiddles_new_table [of "1 + 2"] by simp
  show ?thesis using coset_lde_values [of "[3, 5]" 1 2 _ 7, OF _ _ refl i f, of True 4] i f by auto
qed

text \<open>
  C39: the barycentric formula.  From the values of a polynomial of \<open>2 ^ k\<close> coefficients on the coset \<open>g * w ^ i\<close>, and the
  inverses that \<open>barycentric_inv_denoms\<close> computes for a point \<open>z\<close> of the extension outside the coset, the sum is the
  value of the polynomial at \<open>z\<close>.
\<close>

theorem barycentric_evaluation:
  assumes "length cs = 2 ^ k" "k \<le> 32" "g \<noteq> 0" "points = map (\<lambda>i. g * domain_root goldilocks_fft k ^ i) [0..<2 ^ k]"
    "barycentric_inv_denoms gf3_of z points = Some inv_denoms"
  shows "interpolate_coset_eval_ext_with_g_n_inv gf3_of (z ^ 2 ^ k) (g ^ 2 ^ k) (inverse (of_nat (2 ^ k))) (inverse (g ^ 2 ^ k))
    points (map (\<lambda>p. poly_val cs (gf3_of p)) points) inv_denoms = poly_val cs z"
  by (rule fft3.barycentric_eval) (use assms in simp_all)

theorem barycentric_evaluation_witness:
  "interpolate_coset_eval_ext_with_g_n_inv gf3_of (Gf3 0 1 0 ^ 2 ^ 0) (1 ^ 2 ^ 0) (inverse (of_nat (2 ^ 0))) (inverse (1 ^ 2 ^ 0))
    [1] (map (\<lambda>p. poly_val [Gf3 5 6 7] (gf3_of p)) [1]) [inverse (Gf3 0 1 0 - Gf3 1 0 0)] = poly_val [Gf3 5 6 7] (Gf3 0 1 0)"
proof (rule barycentric_evaluation [of "[Gf3 5 6 7]" 0])
  have "Gf3 1 0 0 \<noteq> Gf3 0 1 0" by simp
  then show "barycentric_inv_denoms gf3_of (Gf3 0 1 0) [1] = Some [inverse (Gf3 0 1 0 - Gf3 1 0 0)]"
    by (simp add: barycentric_inv_denoms_def batch_inverse_values_def gf3_of_def)
qed simp_all

text \<open>
  The operations on coefficients are the operations on the values of the polynomials: Horner evaluation of a
  base-field polynomial at a point of the extension, product, product with a constant, change of variable
  by a factor, and the split into parts with \<open>p(x) = \<Sum> x^i * p_i(x^n)\<close>.
\<close>

theorem polynomial_operations:
  "poly_evaluate gf3_of p x = poly_val (map gf3_of p) x"
  "poly_val (mul_with_ref a b) x = poly_val a x * poly_val b x"
  "poly_val (scale_coeffs c a) x = c * poly_val a x"
  "poly_val (poly_scale gf3_of f a) x = poly_val a (gf3_of f * x)"
  "(\<Sum>i<Suc n. x ^ i * poly_val (break_in_parts (Suc n) a ! i) (x ^ Suc n)) = poly_val a x"
proof -
  have "(\<Sum>i<Suc n. x ^ i * poly_val (break_in_parts (Suc n) a ! i) (x ^ Suc n)) =
      (\<Sum>i<Suc n. x ^ i * poly_val (step_by_list (Suc n) (drop i a)) (x ^ Suc n))"
    by (intro sum.cong refl) (simp add: break_in_parts_def del: upt_Suc)
  then show "(\<Sum>i<Suc n. x ^ i * poly_val (break_in_parts (Suc n) a ! i) (x ^ Suc n)) = poly_val a x"
    using step_parts_val [of "Suc n" x a] by (simp only: zero_less_Suc)
qed (simp_all add: poly_evaluate_val mul_with_ref_val scale_coeffs_val poly_scale_val fft3.emb)

end
