(* ===== verification/Spec2Isabelle.thy ===== *)
theory Spec2Isabelle
  imports Vm_Loader Ecsm_Replay Merkle_Batch Goldilocks_Ext Polynomial_Fft
begin

text \<open>
  \<^bold>\<open>Lambda VM: executor, cryptographic arithmetic and commitments.\<close>

  The repository is a zero-knowledge virtual machine: an executor runs a RISC-V program and logs every
  step, trace tables are built from the log, and a STARK prover and verifier work on the tables over the
  Goldilocks field, with Merkle trees as commitments.  This development models the executor, the
  elliptic-curve helper it calls, and the arithmetic and commitment layers under the prover.  Every
  definition is a translation of the Rust function that it is named after.

  \<^bold>\<open>Conventions.\<close>  A struct is a record, an enum a datatype, an integer a word of its width (\<open>u8\<close>, \<open>u32\<close>,
  \<open>u64\<close>, \<open>u128\<close> of \<open>Vm_Prelude\<close>); an index or length is a natural number, with the wrap-around of the machine word written out where it can overflow.  A
  \<open>Result\<close> is a sum with the error on the left, the \<open>?\<close> operator is \<open>rbind\<close>.  Arithmetic is that of the
  release profile, in which the plain operators wrap; where the code relies on an operator not to wrap, the
  checked form is used and the absence of overflow is a theorem.  An outer option is a panic, undefined
  behaviour or a loop that does not end, and each theory says which.  State is passed explicitly.  Code of
  other crates is a parameter: the group operations of k256 are the record that \<open>Ecsm_Curve\<close> takes with the
  laws it relies on as a hypothesis, and the digest of the Merkle trees is an uninterpreted function.

  \<^bold>\<open>The executor\<close> (\<^verbatim>\<open>executor/src\<close>).

  \<^item> \<open>Vm_Memory\<close> (\<^verbatim>\<open>vm/memory.rs\<close>): the map of four-byte cells.  Its loads and stores refine reads and writes of
    a flat byte memory; private input and public output.
  \<^item> \<open>Vm_Registers\<close> (\<^verbatim>\<open>vm/registers.rs\<close>, \<^verbatim>\<open>vm/logs.rs\<close>): the register file, its laws, and the log.
  \<^item> \<open>Vm_Decoding\<close> (\<^verbatim>\<open>vm/instruction/decoding.rs\<close>): the decoder inverts the RISC-V encoding and returns valid
    instructions only.
  \<^item> \<open>Vm_Alu\<close>, \<open>Vm_Keccak\<close>, \<open>Vm_Syscalls\<close>, \<open>Vm_Execution\<close> (\<^verbatim>\<open>vm/instruction/execution.rs\<close>): the arithmetic
    operations against integer arithmetic; the permutation against FIPS 202; system-call numbers, operands and
    row counts; every instruction and system call, with the invariant of the machine, its frame, its errors,
    and the meaning of the copy, fill and Keccak calls.
  \<^item> \<open>Vm_Elf\<close> (\<^verbatim>\<open>elf.rs\<close>): the loader.
  \<^item> \<open>Vm_Executor\<close>, \<open>Vm_Loader\<close> (\<^verbatim>\<open>vm/execution.rs\<close>): the run loops with their budgets and epochs, and the
    instruction cache and the construction of the initial state.  Running to completion is a partial function
    that is proved to return exactly when the program stops.
  \<^item> This theory: the step relation of a loaded program and the safety of its reachable states.

  \<^bold>\<open>Elliptic-curve scalar multiplication\<close> (\<^verbatim>\<open>crypto/ecsm/src\<close>).  \<open>Ecsm_Curve\<close> has the conversions, the validation and
  the result of the call; \<open>Ecsm_Replay\<close> the schedule of doublings and additions and its replay in Jacobian
  coordinates with batched inversions, which is proved equal to the affine ladder.

  \<^bold>\<open>Fields\<close> (\<^verbatim>\<open>crypto/math/src/field\<close>).  \<open>Field_Traits\<close> is the interface: a record of the operations of the trait, the
  routines written over it, and the locale \<open>field_impl\<close> with the contract of an implementation, in which
  exponentiation, roots of unity and batch inversion are proved once.  \<open>Goldilocks_Prime\<close> proves that the modulus
  is prime by Lucas' test with certificates; \<open>Goldilocks_Field\<close> and \<open>Goldilocks_Tower\<close> build the prime field
  and its extensions of degree 2 and 3 as types of the class \<open>field\<close>.  \<open>Goldilocks\<close> and \<open>Goldilocks_Ext\<close> model the
  implementations on non-canonical words, show that they reach neither undefined behaviour nor overflow, and
  interpret the contract on them.

  \<^bold>\<open>FFT and polynomials\<close> (\<^verbatim>\<open>crypto/math/src/fft\<close>, \<^verbatim>\<open>crypto/math/src/polynomial.rs\<close>).  \<open>Fft_Bits\<close>: the in-place bit-reversal
  permutation.  \<open>Fft_Bowers\<close>: the forward and inverse transforms with two and three fused layers, sequential and
  parallel.  \<open>Fft_Layers\<close>: all of them run the same sequence of butterfly layers.  \<open>Fft_Dft\<close>: the layers compute the
  discrete Fourier transform in bit-reversed order and the inverse layers invert them.  \<open>Polynomials\<close>: coefficient
  arithmetic, evaluation, interpolation, barycentric evaluation and the low-degree extension.  \<open>Polynomial_Fft\<close>: the
  locale \<open>fft_domain\<close> (a root of unity of order a power of two and an embedding of fields), in which the values that
  these operations give are proved, interpreted on the Goldilocks field and its cubic extension.

  \<^bold>\<open>Merkle trees\<close> (\<^verbatim>\<open>crypto/crypto/src/merkle_tree\<close>).  \<open>Merkle_Tree\<close>: the heap-ordered tree is the recursively defined one,
  its openings verify, and two different openings of one root at one position give a collision.  \<open>Merkle_Batch\<close>:
  the batch proof and the verifier that recomputes the levels agree.

  \<^bold>\<open>Fuel and bounds.\<close>  No fuel is used for a loop of the executor; the loops over bits, levels and layers are
  recursions with termination proofs.  The rejection sampler and the run loop are partial functions in the
  option type.

  \<^bold>\<open>Not modelled.\<close>  The symbol table of the ELF loader and the flame graphs (profiling); the witness generation
  of the elliptic-curve table; serialization, disk-backed storage and the Poseidon backends of the
  Merkle trees; the Fiat-Shamir transcript; the STARK prover
  and verifier and the trace tables; the GPU kernels, which are bindings to device code; the guest runtime, which
  is mostly inline assembly; the command line and the tooling, which are input and output around the prover.
\<close>

section \<open>Instructions of a loaded program\<close>

lemma segment_get_in: "segment_get pc c = Some i \<Longrightarrow> i \<in> set (iseg_instructions c)"
  by (auto simp: segment_get_def Let_def split: if_splits)

lemma cache_get_in:
  assumes "cache_get cache pc = Some i"
  shows "\<exists>c\<in>set cache. i \<in> set (iseg_instructions c)"
proof (cases "length cache = 1")
  case True
  then have "segment_get pc (cache ! 0) = Some i"
    using assms by (auto simp: cache_get_def Let_def split: if_splits)
  then show ?thesis using True segment_get_in by (metis less_one nth_mem)
next
  case False
  then obtain k where k: "binary_search_by (segment_order pc) cache = Some k" "segment_get pc (cache ! k) = Some i"
    using assms by (auto simp: cache_get_def bind_eq_Some_conv)
  have "k < length cache"
    using k(1) bsearch_loop_bound [of "length cache" "segment_order pc" cache 0]
    by (auto simp: binary_search_by_def Let_def split: if_splits)
  then show ?thesis using segment_get_in [OF k(2)] nth_mem by blast
qed

lemma cached_instruction_decoded:
  assumes "cache_new segs = Inr cache" "cache_get cache pc = Some i"
  shows "\<exists>w. parse w = Inr i"
proof -
  obtain c where c: "c \<in> set cache" "i \<in> set (iseg_instructions c)" using cache_get_in [OF assms(2)] by blast
  obtain s :: Segment where s: "rcollect parse (seg_values s) = Inr (iseg_instructions c)"
    using cache_new_segment [OF assms(1) c(1)] by blast
  obtain j where "j < length (iseg_instructions c)" "i = iseg_instructions c ! j"
    using c(2) by (auto simp: in_set_conv_nth)
  then show ?thesis using rcollect_nth [OF s, of j] rcollect_length [OF s] by auto
qed

lemma fetch_valid:
  assumes "cache_new segs = Inr (ex_instructions ex)" "fetch ex = Inr i"
  shows "instr_valid i"
proof (cases "cache_get (ex_instructions ex) (ex_pc ex)")
  case None
  then show ?thesis using assms(2) by (auto simp: fetch_def result_simps decoded_valid)
next
  case (Some j)
  then show ?thesis
    using cached_instruction_decoded [OF assms(1) Some] assms(2) by (auto simp: fetch_def decoded_valid)
qed

lemma fetch_error:
  assumes "machine_wf (ex_machine ex)" "ex_pc ex mod 4 = 0" "fetch ex = Inl e"
  shows "\<exists>w d. load_word (mem (ex_machine ex)) (ex_pc ex) = Inr w \<and> parse w = Inl d \<and> e = ErrInstruction d"
  using assms(3) aligned_in_range(1) [OF assms(2)] load_word_eq [OF machine_wfD(3) [OF assms(1)]]
  by (auto simp: fetch_def result_simps split: option.splits)

text \<open>The errors a step of a reachable state can end with.\<close>

definition step_error_explained :: "Executor \<Rightarrow> ExecutorError \<Rightarrow> bool" where
  "step_error_explained ex e \<longleftrightarrow>
     (ex_pc ex mod 4 \<noteq> 0 \<and> e = InstructionAddressMisaligned (ex_pc ex))
   \<or> (\<exists>w d. load_word (mem (ex_machine ex)) (ex_pc ex) = Inr w \<and> parse w = Inl d \<and> e = ErrInstruction d)
   \<or> (\<exists>i. fetch ex = Inr i \<and> access_past_end (ex_machine ex) i \<and> e = ErrExecution (ExecMemoryError AddressOverflow))
   \<or> (fetch ex = Inr EcallEbreak \<and> (\<exists>d. e = ErrExecution d))"

lemma exec_step_error:
  assumes "machine_wf (ex_machine ex)" "cache_new segs = Inr (ex_instructions ex)" "exec_step K ex = Inl e"
  shows "step_error_explained ex e"
proof (cases "ex_pc ex mod 4 = 0")
  case False
  then show ?thesis using assms(3) by (simp add: exec_step_def step_error_explained_def)
next
  case al: True
  show ?thesis
  proof (cases "fetch ex")
    case (Inl d)
    then have "e = d" using assms(3) al by (simp add: exec_step_def)
    then show ?thesis using fetch_error [OF assms(1) al Inl] by (simp add: step_error_explained_def)
  next
    case (Inr i)
    then obtain d where d: "execute K i (ex_pc ex) (ex_machine ex) = Inl d" "e = ErrExecution d"
      using assms(3) al by (auto simp: exec_step_def run_def result_simps split: if_splits)
    show ?thesis
    proof (cases "i = EcallEbreak")
      case True
      then show ?thesis using d Inr by (simp add: step_error_explained_def)
    next
      case False
      have "d = ExecMemoryError AddressOverflow \<and> access_past_end (ex_machine ex) i"
        using valid_instruction_errors [OF assms(1) fetch_valid [OF assms(2) Inr] False] d(1) by blast
      then show ?thesis using d(2) Inr unfolding step_error_explained_def by blast
    qed
  qed
qed

section \<open>Reachable states\<close>

text \<open>C23: what holds in every state that a loaded program can reach. For a program that the ELF
  loader accepted, every state reachable from the initial executor by execution steps has a
  well-formed machine and the instruction cache of the start; its logs form a chain of aligned,
  non-zero addresses from the entry point to the current program counter. If the next step fails,
  the reason is one of: a misaligned program counter, an undecodable word in memory, a load or
  store past the end of the address space, or a system call.\<close>

theorem reachable_states:
  assumes "elf_load input = Inr elf" "executor_new elf inputs = Inr ex" "vm_reaches K ex ex'"
  shows "machine_wf (ex_machine ex') \<and> ex_instructions ex' = ex_instructions ex
    \<and> log_chain (entry_point elf) (ex_logs ex') (ex_pc ex')
    \<and> (\<forall>e. exec_step K ex' = Inl e \<longrightarrow> step_error_explained ex' e)"
proof -
  have wf: "elf_wf elf" using assms(1) by (rule elf_load_elf_wf)
  have h: "cache_new (elf_data elf) = Inr (ex_instructions ex)" "machine_wf (ex_machine ex)"
    "ex_pc ex = entry_point elf" "ex_logs ex = []"
    using executor_new_Inr [OF assms(2) wf] by blast+
  have r: "machine_wf (ex_machine ex')" "ex_instructions ex' = ex_instructions ex"
    "log_chain (ex_pc ex) (ex_logs ex') (ex_pc ex')"
    using reaches_invariant [OF assms(3) h(2)] h(4) by auto
  have "step_error_explained ex' e" if "exec_step K ex' = Inl e" for e
    using exec_step_error [OF r(1) _ that, of "elf_data elf"] h(1) r(2) by simp
  then show ?thesis using r h(3) by simp
qed

theorem reachable_states_witness:
  "\<exists>ex ex'. executor_new \<lparr>entry_point = 0x1000, elf_data =
       [\<lparr>base_addr = 0x1000, seg_values = [0x00100013, 0x73], is_executable = True\<rparr>]\<rparr> [1, 2, 3] = Inr ex
     \<and> steps k256_none 1 ex = Inr ex' \<and> log_chain 0x1000 (ex_logs ex') 0x1004"
proof -
  obtain ex where ex: "executor_new \<lparr>entry_point = 0x1000, elf_data =
     [\<lparr>base_addr = 0x1000, seg_values = [0x00100013, 0x73], is_executable = True\<rparr>]\<rparr> [1, 2, 3] = Inr ex"
    using sample_executor_new by blast
  then have "ex_instructions ex
      = [\<lparr>iseg_base = 0x1000, iseg_instructions = [ArithImm 0 0 1 Add, EcallEbreak]\<rparr>]"
    "regs (ex_machine ex) = registers_default" "ex_pc ex = 0x1000"
    by (auto simp: executor_new_def result_simps cache_new_def parse_def parse_opcode_def
        OPCODE_MASK_def opcode_values parse_i_instruction_def FUNC3_MASK_def RS1_MASK_def RD_MASK_def
        SIGN_MASK_def I_TYPE_IMM_MASK_def Let_def arith_imm_operation_def)
  then have "\<exists>ex'. steps k256_none 1 ex = Inr ex' \<and> ex_pc ex' = 0x1004"
    by (simp add: exec_step_def fetch_def
      cache_get_def segment_get_def end_addr_def run_def reg_read_def write_reg_def reg_write_def
      registers_default_def REGULAR_PC_UPDATE_def Let_def)
  then obtain ex' where s: "steps k256_none 1 ex = Inr ex'" "ex_pc ex' = 0x1004" by blast
  show ?thesis using reachable_states [OF sample_elf_load ex steps_reaches [OF s(1)]] ex s by auto
qed

end
